(* ===== verification/Prelude.thy ===== *)
theory Prelude
  imports Complex_Main "HOL-Library.AList"
begin

text \<open>
  The prelude of the development. It fixes how the Python of SwarmAuth is read in HOL:
  \<^item> a call that can raise is a value of \<open>'e + 'a\<close> (\<open>Inl\<close> the exception), sequenced by
    \<open>rbind\<close>; an \<open>if \<dots>: raise e\<close> is \<open>ensure\<close> of the negated condition;
  \<^item> a call that also changes the world is an \<^emph>\<open>action\<close> \<open>'w \<Rightarrow> ('e + 'a) \<times> 'w\<close>,
    sequenced by \<open>abind\<close>. An exception keeps the state changes made before it, as in Python;
  \<^item> a \<open>dict\<close> is an association list with distinct keys in insertion order
    (\<open>map_of\<close> reads it, \<open>AList.update\<close> writes it as \<open>d[k] = v\<close> does).
  The inversion lemmas at the end of each section (an action returned, so each of its parts
  returned) carry most proofs of the component theories.
\<close>

named_theorems py_inv \<open>inversion of results and actions that returned a value\<close>
named_theorems py_dict \<open>dictionary lemmas\<close>

section \<open>Strings and bytes\<close>

text \<open>
  A Python \<open>str\<close> is a list of characters with code points below 256; \<open>bytes\<close> is a list of
  8-bit values, also the type \<open>char\<close>. On ASCII text \<open>.encode("ascii")\<close> is the identity.
\<close>

type_synonym bytes = "char list"

definition is_ascii :: "string \<Rightarrow> bool" where
  "is_ascii s = list_all (\<lambda>c. of_char c < (128 :: nat)) s"

lemma is_ascii_Nil [simp]: "is_ascii []"
  by (simp add: is_ascii_def)

lemma is_ascii_Cons [simp]: "is_ascii (c # s) \<longleftrightarrow> of_char c < (128 :: nat) \<and> is_ascii s"
  by (simp add: is_ascii_def)

lemma is_ascii_append [simp]: "is_ascii (s @ t) \<longleftrightarrow> is_ascii s \<and> is_ascii t"
  by (simp add: is_ascii_def)

lemma is_ascii_concat: "(\<And>s. s \<in> set ss \<Longrightarrow> is_ascii s) \<Longrightarrow> is_ascii (concat ss)"
  by (induction ss) auto

section \<open>Results: computations that may raise\<close>

definition rbind :: "'e + 'a \<Rightarrow> ('a \<Rightarrow> 'e + 'b) \<Rightarrow> 'e + 'b" where
  "rbind m f = (case m of Inl e \<Rightarrow> Inl e | Inr x \<Rightarrow> f x)"

definition ensure :: "bool \<Rightarrow> 'e \<Rightarrow> 'e + unit" where
  "ensure c e = (if c then Inr () else Inl e)"

definition of_option :: "'e \<Rightarrow> 'a option \<Rightarrow> 'e + 'a" where
  "of_option e m = (case m of None \<Rightarrow> Inl e | Some x \<Rightarrow> Inr x)"

text \<open>A \<open>for\<close> loop whose body only raises or falls through.\<close>

fun each :: "('a \<Rightarrow> 'e + unit) \<Rightarrow> 'a list \<Rightarrow> 'e + unit" where
  "each f [] = Inr ()"
| "each f (x # xs) = rbind (f x) (\<lambda>_. each f xs)"

text \<open>A list comprehension whose element expression may raise.\<close>

fun traverse :: "('a \<Rightarrow> 'e + 'b) \<Rightarrow> 'a list \<Rightarrow> 'e + 'b list" where
  "traverse f [] = Inr []"
| "traverse f (x # xs) = rbind (f x) (\<lambda>y. rbind (traverse f xs) (\<lambda>ys. Inr (y # ys)))"

lemma rbind_simps [simp]: "rbind (Inl e) f = Inl e" "rbind (Inr x) f = f x"
  by (simp_all add: rbind_def)

lemma rbind_eq_Inr [py_inv]: "rbind m f = Inr y \<longleftrightarrow> (\<exists>x. m = Inr x \<and> f x = Inr y)"
  by (cases m) simp_all

lemma rbind_eq_Inl [py_inv]:
  "rbind m f = Inl e \<longleftrightarrow> m = Inl e \<or> (\<exists>x. m = Inr x \<and> f x = Inl e)"
  by (cases m) simp_all

lemma ensure_simps [simp]: "ensure True e = Inr ()" "ensure False e = Inl e"
  by (simp_all add: ensure_def)

lemma ensure_eq_Inr [py_inv]: "ensure c e = Inr u \<longleftrightarrow> c"
  by (simp add: ensure_def)

lemma ensure_eq_Inl [py_inv]: "ensure c e = Inl e' \<longleftrightarrow> \<not> c \<and> e' = e"
  by (auto simp: ensure_def)

lemma of_option_simps [simp]: "of_option e None = Inl e" "of_option e (Some x) = Inr x"
  by (simp_all add: of_option_def)

lemma of_option_eq_Inr [py_inv]: "of_option e m = Inr x \<longleftrightarrow> m = Some x"
  by (cases m) auto

lemma of_option_eq_Inl [py_inv]: "of_option e m = Inl e' \<longleftrightarrow> m = None \<and> e' = e"
  by (cases m) auto

lemma each_eq_Inr [py_inv]: "each f xs = Inr u \<longleftrightarrow> (\<forall>x \<in> set xs. f x = Inr ())"
  by (induction xs) (auto simp: py_inv)

lemma each_ensure_first:
  "each (\<lambda>x. ensure (P x) e) xs = (if list_all P xs then Inr () else Inl e)"
  by (induction xs) (auto simp: ensure_def)

lemma traverse_length: "traverse f xs = Inr ys \<Longrightarrow> length ys = length xs"
  by (induction xs arbitrary: ys) (auto simp: py_inv)

lemma traverse_eq_Inr [py_inv]:
  "traverse f xs = Inr ys \<longleftrightarrow> list_all2 (\<lambda>x y. f x = Inr y) xs ys"
  by (induction xs arbitrary: ys) (auto simp: py_inv list_all2_Cons1)

lemma list_all2_trans_mem:
  assumes "list_all2 P xs ys" "list_all2 Q ys zs"
    and "\<And>x y z. x \<in> set xs \<Longrightarrow> P x y \<Longrightarrow> Q y z \<Longrightarrow> R x z"
  shows "list_all2 R xs zs"
  using assms unfolding list_all2_conv_all_nth by (metis nth_mem)

lemma list_all2_mem: "list_all2 P xs ys \<Longrightarrow> x \<in> set xs \<Longrightarrow> \<exists>y \<in> set ys. P x y"
  by (induction rule: list_all2_induct) auto

lemma list_all2_mem_right: "list_all2 P xs ys \<Longrightarrow> y \<in> set ys \<Longrightarrow> \<exists>x \<in> set xs. P x y"
  by (induction rule: list_all2_induct) auto

lemma list_all2_choose:
  "(\<And>x. x \<in> set xs \<Longrightarrow> \<exists>y. P x y) \<Longrightarrow> \<exists>ys. list_all2 P xs ys"
proof (induction xs)
  case (Cons x xs)
  then obtain y ys where "P x y" "list_all2 P xs ys" by (meson list.set_intros)
  then show ?case by (intro exI [of _ "y # ys"]) simp
qed (auto intro: exI [of _ "[]"])

lemma all_sum_unit_Inr [simp]: "(\<exists>u :: unit. m = Inr u) \<longleftrightarrow> m = Inr ()"
  by auto

section \<open>Actions: computations that may raise and change the world\<close>

type_synonym ('e, 'w, 'a) act = "'w \<Rightarrow> ('e + 'a) \<times> 'w"

definition lift :: "'e + 'a \<Rightarrow> ('e, 'w, 'a) act" where
  "lift r = (\<lambda>w. (r, w))"

definition ret :: "'a \<Rightarrow> ('e, 'w, 'a) act" where
  "ret x = (\<lambda>w. (Inr x, w))"

definition raise :: "'e \<Rightarrow> ('e, 'w, 'a) act" where
  "raise e = (\<lambda>w. (Inl e, w))"

definition abind :: "('e, 'w, 'a) act \<Rightarrow> ('a \<Rightarrow> ('e, 'w, 'b) act) \<Rightarrow> ('e, 'w, 'b) act" where
  "abind m f = (\<lambda>w. case m w of (Inl e, w') \<Rightarrow> (Inl e, w') | (Inr x, w') \<Rightarrow> f x w')"

text \<open>\<open>try: m except E: h\<close>, where \<open>h\<close> gets every exception and re-raises what it does not catch.\<close>

definition catch :: "('e, 'w, 'a) act \<Rightarrow> ('e \<Rightarrow> ('e, 'w, 'a) act) \<Rightarrow> ('e, 'w, 'a) act" where
  "catch m h = (\<lambda>w. case m w of (Inl e, w') \<Rightarrow> h e w' | (Inr x, w') \<Rightarrow> (Inr x, w'))"

lemma act_simps [simp]:
  "lift r w = (r, w)"
  "ret x w = (Inr x, w)"
  "raise e w = (Inl e, w)"
  by (simp_all add: lift_def ret_def raise_def)

lemma abind_run:
  "abind m f w = (case fst (m w) of Inl e \<Rightarrow> (Inl e, snd (m w)) | Inr x \<Rightarrow> f x (snd (m w)))"
  by (cases "m w"; cases "fst (m w)") (auto simp: abind_def)

lemma abind_simps [simp]:
  "abind (lift (Inr x)) f = f x"
  "abind (lift (Inl e)) f = raise e"
  "abind (ret x) f = f x"
  "abind (raise e) f = raise e"
  by (simp_all add: abind_def lift_def ret_def raise_def fun_eq_iff)

lemma abind_eq_Inr [py_inv]:
  "abind m f w = (Inr y, w'') \<longleftrightarrow> (\<exists>x w'. m w = (Inr x, w') \<and> f x w' = (Inr y, w''))"
  by (cases "m w"; cases "fst (m w)") (auto simp: abind_def)

lemma abind_eq_Inl [py_inv]:
  "abind m f w = (Inl e, w'') \<longleftrightarrow>
     m w = (Inl e, w'') \<or> (\<exists>x w'. m w = (Inr x, w') \<and> f x w' = (Inl e, w''))"
  by (cases "m w"; cases "fst (m w)") (auto simp: abind_def)

lemma abind_lift:
  "abind (lift r) f w = (case r of Inl e \<Rightarrow> (Inl e, w) | Inr x \<Rightarrow> f x w)"
  by (simp add: abind_def lift_def)

lemma catch_eq_Inr [py_inv]:
  "catch m h w = (Inr y, w'') \<longleftrightarrow>
     m w = (Inr y, w'') \<or> (\<exists>e w'. m w = (Inl e, w') \<and> h e w' = (Inr y, w''))"
  by (cases "m w"; cases "fst (m w)") (auto simp: catch_def)

lemma catch_eq_Inl [py_inv]:
  "catch m h w = (Inl e, w'') \<longleftrightarrow> (\<exists>e' w'. m w = (Inl e', w') \<and> h e' w' = (Inl e, w''))"
  by (cases "m w"; cases "fst (m w)") (auto simp: catch_def)

section \<open>Which exceptions an action raises\<close>

definition raises_only :: "('e \<Rightarrow> bool) \<Rightarrow> ('e, 'w, 'a) act \<Rightarrow> bool" where
  \<comment> \<open>every exception the action raises satisfies \<open>P\<close>\<close>
  "raises_only P m \<longleftrightarrow> (\<forall>w e w'. m w = (Inl e, w') \<longrightarrow> P e)"

lemma raises_only_abind:
  assumes "raises_only P m" "\<And>x w w'. m w = (Inr x, w') \<Longrightarrow> raises_only P (f x)"
  shows "raises_only P (abind m f)"
  using assms unfolding raises_only_def abind_eq_Inl by blast

lemma raises_only_simps [simp]:
  "raises_only P (ret x)" "raises_only P (raise e) \<longleftrightarrow> P e"
  "raises_only P (lift r) \<longleftrightarrow> (\<forall>e. r = Inl e \<longrightarrow> P e)"
  by (auto simp: raises_only_def)

section \<open>How an action changes the world\<close>

definition preserves :: "('w \<Rightarrow> 'w \<Rightarrow> bool) \<Rightarrow> ('e, 'w, 'a) act \<Rightarrow> bool" where
  \<comment> \<open>the world after the action, whether it returned or raised, is related to the one before\<close>
  "preserves R m \<longleftrightarrow> (\<forall>w. R w (snd (m w)))"

lemma preserves_basic:
  assumes "reflp R"
  shows "preserves R (lift r)" "preserves R (ret x)" "preserves R (raise e)"
  using assms by (simp_all add: preserves_def reflpD)

lemma preserves_abind:
  assumes "transp R" "preserves R m" "\<And>x. preserves R (f x)"
  shows "preserves R (abind m f)"
  using assms unfolding preserves_def abind_run by (auto split: sum.split elim: transpE)

lemma preserves_catch:
  assumes "transp R" "preserves R m" "\<And>e. preserves R (h e)"
  shows "preserves R (catch m h)"
  using assms unfolding preserves_def catch_def
  by (auto split: sum.split prod.split) (metis snd_conv transpE)+

lemma preserves_case:
  "(\<And>a b. preserves R (g a b)) \<Longrightarrow> preserves R (case p of (a, b) \<Rightarrow> g a b)"
  "(z = None \<Longrightarrow> preserves R m) \<Longrightarrow> (\<And>x. z = Some x \<Longrightarrow> preserves R (f x)) \<Longrightarrow>
     preserves R (case z of None \<Rightarrow> m | Some x \<Rightarrow> f x)"
  "preserves R m \<Longrightarrow> preserves R n \<Longrightarrow> preserves R (if c then m else n)"
  by (auto split: prod.split option.split)

section \<open>Dictionaries\<close>

definition dict_keys :: "('k \<times> 'v) list \<Rightarrow> 'k list" where
  "dict_keys d = List.map fst d"

lemma set_dict_keys [py_dict]: "set (dict_keys d) = dom (map_of d)"
  by (simp add: dict_keys_def dom_map_of_conv_image_fst)

lemma map_of_filter_values [py_dict]:
  "distinct (List.map fst d) \<Longrightarrow>
   map_of (filter (\<lambda>(k, v). P v) d) k =
     (case map_of d k of None \<Rightarrow> None | Some v \<Rightarrow> if P v then Some v else None)"
proof (induction d)
  case Nil
  then show ?case by simp
next
  case (Cons kv d)
  then have "fst kv \<notin> dom (map_of d)"
    by (simp add: dom_map_of_conv_image_fst)
  with Cons show ?case
    by (cases kv) (auto split: option.splits)
qed

lemma dict_update [py_dict]: "map_of (AList.update k v d) = (map_of d)(k \<mapsto> v)"
  by (rule update_conv')

lemma distinct_dict_update [py_dict]:
  "distinct (List.map fst d) \<Longrightarrow> distinct (List.map fst (AList.update k v d))"
  by (rule distinct_update)

lemma dict_delete [py_dict]: "map_of (AList.delete k d) = (map_of d)(k := None)"
  by (rule delete_conv')

lemma distinct_dict_delete [py_dict]:
  "distinct (List.map fst d) \<Longrightarrow> distinct (List.map fst (AList.delete k d))"
  by (rule distinct_delete)

text \<open>\<open>{f(r): r for r in rs}\<close>, as a comprehension builds it.\<close>

lemma length_update: "length (AList.update k v d) = (if k \<in> fst ` set d then length d else Suc (length d))"
  by (induction d) auto

lemma update_new: "k \<notin> fst ` set d \<Longrightarrow> AList.update k v d = d @ [(k, v)]"
  by (induction d) auto

lemma dict_of_list:
  fixes f :: "'a \<Rightarrow> 'k"
  shows "length (fold (\<lambda>r. AList.update (f r) r) rs d) \<le> length d + length rs \<and>
     (length (fold (\<lambda>r. AList.update (f r) r) rs d) = length d + length rs \<longleftrightarrow>
        distinct (List.map f rs) \<and> f ` set rs \<inter> fst ` set d = {}) \<and>
     (distinct (List.map f rs) \<and> f ` set rs \<inter> fst ` set d = {} \<longrightarrow>
        fold (\<lambda>r. AList.update (f r) r) rs d = d @ List.map (\<lambda>r. (f r, r)) rs)"
proof (induction rs arbitrary: d)
  case (Cons r rs)
  show ?case
  proof (cases "f r \<in> fst ` set d")
    case True
    with Cons [of "AList.update (f r) r d"] show ?thesis
      by (auto simp: length_update)
  next
    case False
    with Cons [of "d @ [(f r, r)]"] show ?thesis
      by (auto simp: update_new)
  qed
qed simp

end
