(* ===== verification/Runtime.thy ===== *)
theory Runtime
  imports Prelude
begin

text \<open>
  The exception hierarchy (\<open>swarmauth/exceptions.py\<close>), the protocol limits
  (\<open>swarmauth/limits.py\<close>) and the part of the Python runtime every component shares: the wall
  clock and the operating system's randomness.

  \<open>time.time()\<close> and \<open>os.urandom()\<close> return a new value on each call. The world holds the
  whole sequence of readings and how many were consumed, so that two calls in one function
  are two readings; a clock that never goes back is the hypothesis \<open>mono (clock w)\<close>.
  The context variable that \<open>use_token\<close> sets is part of the world too.
  A float number of seconds is the rational it denotes.
\<close>

section \<open>Exceptions\<close>

text \<open>
  One constructor per class of \<open>exceptions.py\<close>, with the attributes the class stores
  (messages are not modelled), and the builtin exceptions the code raises or lets through.
\<close>

datatype swarm_error =
    MalformedTokenError
  | InvalidSignatureError
  | TokenExpiredError
  | TokenNotYetValidError
  | TokenRevokedError
  | AudienceMismatchError
  | UnknownIssuerError
  | CapabilityViolationError "string option" "string list"
  | ConstraintViolationError "string option"
  | PolicyViolationError
  | DelegationError

datatype exc =
    SwarmAuthError swarm_error
  | ValueError
  | TypeError
  | OverflowError
  | OtherError string

fun code :: "swarm_error \<Rightarrow> string" where
  "code MalformedTokenError = ''MALFORMED_TOKEN''"
| "code InvalidSignatureError = ''INVALID_SIGNATURE''"
| "code TokenExpiredError = ''TOKEN_EXPIRED''"
| "code TokenNotYetValidError = ''TOKEN_NOT_YET_VALID''"
| "code TokenRevokedError = ''TOKEN_REVOKED''"
| "code AudienceMismatchError = ''AUDIENCE_MISMATCH''"
| "code UnknownIssuerError = ''UNKNOWN_ISSUER''"
| "code (CapabilityViolationError required granted) = ''CAPABILITY_VIOLATION''"
| "code (ConstraintViolationError constraint) = ''CONSTRAINT_VIOLATION''"
| "code PolicyViolationError = ''POLICY_VIOLATION''"
| "code DelegationError = ''DELEGATION_VIOLATION''"

type_synonym 'a result = "exc + 'a"
type_synonym ('w, 'a) py = "(exc, 'w, 'a) act"

abbreviation swarm :: "swarm_error \<Rightarrow> exc" where
  "swarm \<equiv> SwarmAuthError"

abbreviation coded :: "exc \<Rightarrow> bool" where
  \<comment> \<open>an error of the SwarmAuth hierarchy, with its stable code\<close>
  "coded e \<equiv> \<exists>s. e = SwarmAuthError s"

abbreviation recursion_error :: exc where
  "recursion_error \<equiv> OtherError ''RecursionError''"

abbreviation constraint_violation :: "string \<Rightarrow> exc" where
  "constraint_violation c \<equiv> SwarmAuthError (ConstraintViolationError (Some c))"

section \<open>Limits\<close>

definition MAX_TTL_SECONDS :: int where
  "MAX_TTL_SECONDS = 30"

definition MAX_LEEWAY_SECONDS :: int where
  "MAX_LEEWAY_SECONDS = 2"

definition RETENTION_AFTER_EXP_SECONDS :: int where
  "RETENTION_AFTER_EXP_SECONDS = MAX_LEEWAY_SECONDS + 1"

definition MAX_SAFE_INTEGER :: int where
  \<comment> \<open>\<open>2**53 - 1\<close>, written out at every bound of the sources.\<close>
  "MAX_SAFE_INTEGER = 2 ^ 53 - 1"

lemmas limits_defs = MAX_TTL_SECONDS_def MAX_LEEWAY_SECONDS_def RETENTION_AFTER_EXP_SECONDS_def

section \<open>Time and randomness\<close>

record world =
  clock :: "nat \<Rightarrow> rat"
  ticks :: nat
  entropy :: "nat \<Rightarrow> bytes"
  draws :: nat
  current_token :: "string option"

definition time_time :: "('x world_scheme, rat) py" where
  "time_time = (\<lambda>w. (Inr (clock w (ticks w)), w\<lparr>ticks := Suc (ticks w)\<rparr>))"

definition urandom :: "('x world_scheme, bytes) py" where
  "urandom = (\<lambda>w. (Inr (entropy w (draws w)), w\<lparr>draws := Suc (draws w)\<rparr>))"

definition py_int :: "rat \<Rightarrow> int" where
  \<comment> \<open>\<open>int(x)\<close> of a float truncates towards zero.\<close>
  "py_int x = (if 0 \<le> x then \<lfloor>x\<rfloor> else \<lceil>x\<rceil>)"

lemma time_time_run [simp]:
  "time_time w = (Inr (clock w (ticks w)), w\<lparr>ticks := Suc (ticks w)\<rparr>)"
  by (simp add: time_time_def)

lemma urandom_run [simp]:
  "urandom w = (Inr (entropy w (draws w)), w\<lparr>draws := Suc (draws w)\<rparr>)"
  by (simp add: urandom_def)

lemma raises_only_time [simp]: "raises_only P time_time"
  by (simp add: raises_only_def)

text \<open>
  Verification compares whole seconds, the stores compare the exact reading. This lemma ties
  the two: a reading whose whole second is within \<open>exp + leeway\<close> is before the instant at
  which the stores forget the token.
\<close>

lemma py_int_le_imp_less:
  assumes "py_int t \<le> n"
  shows "t < of_int n + 1"
proof (cases "0 \<le> t")
  case True
  with assms have "\<lfloor>t\<rfloor> \<le> n"
    by (simp add: py_int_def)
  then show ?thesis
    by linarith
next
  case False
  with assms have "\<lceil>t\<rceil> \<le> n"
    by (simp add: py_int_def)
  then show ?thesis
    by linarith
qed

lemma py_int_of_int [simp]: "py_int (of_int n) = n"
  by (simp add: py_int_def)

lemma py_int_numeral [simp]: "py_int (numeral n) = numeral n"
  by (simp add: py_int_def)

lemma py_int_mono:
  assumes "s \<le> t"
  shows "py_int s \<le> py_int t"
proof (cases "0 \<le> s \<or> t < 0")
  case True
  with assms show ?thesis
    by (auto simp: py_int_def floor_mono ceiling_mono)
next
  case False
  then have "\<lceil>s\<rceil> \<le> 0" and "0 \<le> \<lfloor>t\<rfloor>"
    by (auto simp: ceiling_le_iff)
  then have "\<lceil>s\<rceil> \<le> \<lfloor>t\<rfloor>"
    by linarith
  with False show ?thesis
    by (simp add: py_int_def)
qed

section \<open>Relations that time respects\<close>

text \<open>
  Many facts about a component say that it changes the world only in some way: it never turns the
  clock back, it leaves another component's state alone. Such a fact is a relation between the world
  before and after; the contract asks that nothing happening, one thing after another, and a reading
  of the clock respect it. The verifier and the guard then respect it as soon as their collaborators do.
\<close>

locale world_relation =
  fixes R :: "'x world_scheme \<Rightarrow> 'x world_scheme \<Rightarrow> bool"
  assumes refl: "R w w"
    and trans: "R w w' \<Longrightarrow> R w' w'' \<Longrightarrow> R w w''"
    and time: "R w (snd (time_time w))"
begin

lemma orders: "reflp R" "transp R"
  by (simp_all add: reflp_def transp_def refl) (blast intro: trans)

lemma time_preserves: "preserves R time_time"
  using time by (simp add: preserves_def)

lemmas preserving = preserves_basic [OF orders(1)] preserves_abind [OF orders(2)] preserves_catch [OF orders(2)]
  preserves_case time_preserves

end

end
