(* ===== verification/Revocation.thy ===== *)
theory Revocation
  imports Runtime
begin

text \<open>
  \<open>swarmauth/revocation.py\<close>: the \<open>RevocationStore\<close> protocol as the locale
  \<open>revocation_store\<close> and \<open>InMemoryRevocationStore\<close> as its interpretation. The store maps a
  token id to the instant until which the revocation is kept. Each operation reads the clock
  once; its reading is the argument \<open>now\<close>.

  The client theorem \<open>revoked_iff\<close> says what the history of calls means: a token id is
  revoked at \<open>t\<close> exactly when some earlier call revoked it with an expiry whose retention
  time is after \<open>t\<close>.
\<close>

section \<open>The in-memory store\<close>

type_synonym revocations = "string \<rightharpoonup> int"

definition purge_revoked :: "rat \<Rightarrow> revocations \<Rightarrow> revocations" where
  "purge_revoked now revoked =
     (\<lambda>jti. case revoked jti of
        None \<Rightarrow> None
      | Some expires_at \<Rightarrow> if of_int expires_at \<le> now then None else Some expires_at)"

definition revoke_token :: "rat \<Rightarrow> string \<Rightarrow> int \<Rightarrow> revocations \<Rightarrow> revocations" where
  "revoke_token now jti expires_at revoked =
     (let retained_until = expires_at + RETENTION_AFTER_EXP_SECONDS;
          revoked = purge_revoked now revoked
      in if of_int retained_until \<le> now then revoked
         else revoked(jti \<mapsto>
           max retained_until (case revoked jti of None \<Rightarrow> 0 | Some e \<Rightarrow> e)))"

definition is_revoked :: "rat \<Rightarrow> string \<Rightarrow> revocations \<Rightarrow> bool \<times> revocations" where
  "is_revoked now jti revoked =
     (let revoked = purge_revoked now revoked in (revoked jti \<noteq> None, revoked))"

section \<open>The protocol\<close>

datatype revocation_op = RevokeToken string int | IsRevoked string

locale revocation_store =
  fixes empty :: 's
    and revoke :: "rat \<Rightarrow> string \<Rightarrow> int \<Rightarrow> 's \<Rightarrow> 's"
    and query :: "rat \<Rightarrow> string \<Rightarrow> 's \<Rightarrow> bool \<times> 's"
  assumes query_empty: "\<not> fst (query t jti empty)"
    and query_revoke:
      "0 \<le> now \<Longrightarrow> now \<le> t \<Longrightarrow>
         fst (query t jti (revoke now j e s)) \<longleftrightarrow>
           fst (query t jti s) \<or> j = jti \<and> t < of_int (e + RETENTION_AFTER_EXP_SECONDS)"
    and query_query: "now \<le> t \<Longrightarrow> fst (query t jti (snd (query now j s))) = fst (query t jti s)"
begin

fun step :: "rat \<times> revocation_op \<Rightarrow> 's \<Rightarrow> 's" where
  "step (now, RevokeToken j e) s = revoke now j e s"
| "step (now, IsRevoked j) s = snd (query now j s)"

definition run :: "(rat \<times> revocation_op) list \<Rightarrow> 's \<Rightarrow> 's" where
  "run ops s = fold step ops s"

lemma query_run:
  assumes "\<forall>(now, op) \<in> set ops. 0 \<le> now \<and> now \<le> t"
  shows "fst (query t jti (run ops s)) \<longleftrightarrow>
           fst (query t jti s) \<or>
           (\<exists>now e. (now, RevokeToken jti e) \<in> set ops \<and> t < of_int (e + RETENTION_AFTER_EXP_SECONDS))"
  using assms
proof (induction ops arbitrary: s)
  case Nil
  then show ?case by (simp add: run_def)
next
  case (Cons nop ops)
  obtain now op where nop: "nop = (now, op)" by (cases nop)
  with Cons.prems have t: "0 \<le> now" "now \<le> t" by auto
  have "fst (query t jti (run (nop # ops) s)) = fst (query t jti (run ops (step nop s)))"
    by (simp add: run_def)
  also have "\<dots> \<longleftrightarrow> fst (query t jti (step nop s)) \<or>
      (\<exists>now e. (now, RevokeToken jti e) \<in> set ops \<and> t < of_int (e + RETENTION_AFTER_EXP_SECONDS))"
    using Cons by auto
  finally show ?case
    using t by (cases op) (auto simp: nop query_revoke query_query)
qed

lemma revoked_iff:
  assumes "\<forall>(now, op) \<in> set ops. 0 \<le> now \<and> now \<le> t"
  shows "fst (query t jti (run ops empty)) \<longleftrightarrow>
           (\<exists>now e. (now, RevokeToken jti e) \<in> set ops \<and> t < of_int (e + RETENTION_AFTER_EXP_SECONDS))"
  using query_run [OF assms] by (simp add: query_empty)

end

section \<open>The in-memory store keeps the protocol\<close>

definition live :: "rat \<Rightarrow> int option \<Rightarrow> bool" where
  "live t entry = (case entry of None \<Rightarrow> False | Some e \<Rightarrow> t < of_int e)"

lemma fst_is_revoked: "fst (is_revoked t jti s) \<longleftrightarrow> live t (s jti)"
  by (auto simp: is_revoked_def purge_revoked_def live_def Let_def split: option.splits)

lemma live_purge: "now \<le> t \<Longrightarrow> live t (purge_revoked now s jti) = live t (s jti)"
  by (auto simp: live_def purge_revoked_def split: option.splits)

lemma less_max: "t < of_int (max a b) \<longleftrightarrow> t < of_int a \<or> t < (of_int b :: rat)"
  by (simp add: max_def) (meson less_le_trans linear of_int_le_iff)

lemma live_revoke_token:
  assumes "0 \<le> now" "now \<le> t"
  shows "live t (revoke_token now j e s jti) \<longleftrightarrow>
           live t (s jti) \<or> j = jti \<and> t < of_int (e + RETENTION_AFTER_EXP_SECONDS)"
proof (cases "j = jti")
  case False
  then show ?thesis
    using live_purge [OF assms(2)] by (simp add: revoke_token_def Let_def)
next
  case True
  note purged = live_purge [OF assms(2), of s jti]
  show ?thesis
  proof (cases "of_int (e + RETENTION_AFTER_EXP_SECONDS) \<le> now")
    case True
    with assms(2) have "\<not> t < of_int (e + RETENTION_AFTER_EXP_SECONDS)" by simp
    with True purged show ?thesis by (simp add: revoke_token_def Let_def)
  next
    case kept: False
    then have "0 \<le> e + RETENTION_AFTER_EXP_SECONDS"
      using assms(1) by (metis less_le_not_le linorder_not_less of_int_less_0_iff order_trans)
    moreover have "revoke_token now j e s jti =
        Some (max (e + RETENTION_AFTER_EXP_SECONDS)
                  (case purge_revoked now s jti of None \<Rightarrow> 0 | Some e \<Rightarrow> e))"
      using kept True by (simp add: revoke_token_def Let_def)
    ultimately have "live t (revoke_token now j e s jti) \<longleftrightarrow>
        t < of_int (e + RETENTION_AFTER_EXP_SECONDS) \<or> live t (purge_revoked now s jti)"
      by (cases "purge_revoked now s jti") (simp_all only: live_def less_max option.case max_absorb1 simp_thms)
    with purged True show ?thesis by auto
  qed
qed

interpretation memory_revocations: revocation_store Map.empty revoke_token is_revoked
proof unfold_locales
  fix t :: rat and jti
  show "\<not> fst (is_revoked t jti Map.empty)"
    by (simp add: fst_is_revoked live_def)
next
  fix now t :: rat and jti j e s
  assume "0 \<le> now" "now \<le> t"
  then show "fst (is_revoked t jti (revoke_token now j e s)) \<longleftrightarrow>
      fst (is_revoked t jti s) \<or> j = jti \<and> t < of_int (e + RETENTION_AFTER_EXP_SECONDS)"
    by (simp only: fst_is_revoked live_revoke_token)
next
  fix now t :: rat and jti j s
  assume "now \<le> t"
  then show "fst (is_revoked t jti (snd (is_revoked now j s))) = fst (is_revoked t jti s)"
    using live_purge by (simp add: fst_is_revoked) (simp add: is_revoked_def Let_def)
qed

section \<open>The store as a verifier's collaborator\<close>

record store_world = world +
  revoked :: revocations

definition memory_is_revoked :: "string \<Rightarrow> ('x store_world_scheme, bool) py" where
  "memory_is_revoked jti =
     abind time_time (\<lambda>now w.
       case is_revoked now jti (revoked w) of (answer, r) \<Rightarrow> (Inr answer, w\<lparr>revoked := r\<rparr>))"

definition memory_revoke :: "string \<Rightarrow> int \<Rightarrow> ('x store_world_scheme, unit) py" where
  "memory_revoke jti expires_at =
     abind time_time (\<lambda>now w. (Inr (), w\<lparr>revoked := revoke_token now jti expires_at (revoked w)\<rparr>))"

lemma memory_is_revoked_run:
  "memory_is_revoked jti w =
     (Inr (live (clock w (ticks w)) (revoked w jti)),
      w\<lparr>ticks := Suc (ticks w), revoked := purge_revoked (clock w (ticks w)) (revoked w)\<rparr>)"
  using fst_is_revoked [of "clock w (ticks w)" jti "revoked w"]
  by (simp add: memory_is_revoked_def abind_run) (simp add: is_revoked_def Let_def)

section \<open>Properties\<close>

text \<open>C13. The in-memory revocation store refines the history of calls. After any sequence of
  revocations and queries at instants up to \<open>t\<close>, a query at \<open>t\<close> answers that a token is revoked
  exactly when some earlier call revoked it with an expiry whose retention time is after \<open>t\<close>: purging
  never brings a live token back, and a later revocation with an earlier expiry never shortens one.\<close>

theorem revocation_history:
  assumes "\<forall>(now, op) \<in> set ops. 0 \<le> now \<and> now \<le> t"
  shows "fst (is_revoked t token_id (memory_revocations.run ops Map.empty)) \<longleftrightarrow>
     (\<exists>now e. (now, RevokeToken token_id e) \<in> set ops \<and> t < of_int (e + RETENTION_AFTER_EXP_SECONDS))"
  by (rule memory_revocations.revoked_iff [OF assms])

theorem revocation_history_witness:
  "fst (is_revoked 20 ''j'' (memory_revocations.run [(10, RevokeToken ''j'' 18), (11, RevokeToken ''j'' 12)] Map.empty))"
proof -
  have "\<exists>now e. (now, RevokeToken ''j'' e) \<in> set [(10, RevokeToken ''j'' 18), (11, RevokeToken ''j'' 12)] \<and>
      20 < (of_int (e + RETENTION_AFTER_EXP_SECONDS) :: rat)"
    by (intro exI [of _ 10] exI [of _ 18]) (simp add: limits_defs)
  with revocation_history [of "[(10, RevokeToken ''j'' 18), (11, RevokeToken ''j'' 12)]" 20 "''j''"]
  show ?thesis by simp
qed

end
