(* ===== verification/PyFloat.thy ===== *)
theory PyFloat
  imports Runtime
begin

text \<open>
  Python's \<open>float\<close> and \<open>Decimal\<close>, as far as SwarmAuth uses them. A finite float is the
  rational it denotes (the two zeros are not distinguished); rounding to binary64 is
  round-half-even on 53 bits; \<open>repr\<close> is the shortest decimal that rounds back to the float.
  A \<open>Decimal\<close> is the rational it denotes, and addition in a context of precision \<open>p\<close>
  rounds the exact sum to \<open>p\<close> significant digits. The end of the theory shows that for
  binary64 operands the precision chosen by \<open>_decimal_sum\<close> never rounds.
\<close>

section \<open>Floats\<close>

datatype pyfloat = Fin rat | PosInf | NegInf | NaN

fun isfinite :: "pyfloat \<Rightarrow> bool" where
  "isfinite (Fin x) = True"
| "isfinite _ = False"

fun float_less :: "pyfloat \<Rightarrow> pyfloat \<Rightarrow> bool" where
  "float_less (Fin x) (Fin y) = (x < y)"
| "float_less NaN _ = False"
| "float_less _ NaN = False"
| "float_less _ NegInf = False"
| "float_less NegInf _ = True"
| "float_less PosInf _ = False"
| "float_less _ PosInf = True"

fun float_eq :: "pyfloat \<Rightarrow> pyfloat \<Rightarrow> bool" where
  "float_eq (Fin x) (Fin y) = (x = y)"
| "float_eq PosInf PosInf = True"
| "float_eq NegInf NegInf = True"
| "float_eq _ _ = False"

definition is_integer :: "rat \<Rightarrow> bool" where
  "is_integer x = (x = of_int \<lfloor>x\<rfloor>)"

lemma is_integer_of_int [simp]: "is_integer (of_int n)"
  by (simp add: is_integer_def)

lemma is_integer_iff: "is_integer x \<longleftrightarrow> (\<exists>n. x = of_int n)"
  by (auto simp: is_integer_def)

section \<open>Rounding\<close>

definition round_half_even :: "rat \<Rightarrow> int" where
  "round_half_even x =
     (let f = \<lfloor>x\<rfloor>; d = x - of_int f
      in if d < 1/2 then f else if d > 1/2 then f + 1 else if even f then f else f + 1)"

text \<open>The exponent of the leading digit of a positive rational in base \<open>b\<close>.\<close>

function digit_count :: "int \<Rightarrow> int \<Rightarrow> int" where
  "digit_count b n = (if 1 < b \<and> 0 < n then digit_count b (n div b) + 1 else 0)"
  by pat_completeness auto
termination
  by (relation "measure (\<lambda>(b, n). nat n)") (auto intro: int_div_less_self)

declare digit_count.simps [simp del]

definition ilog :: "int \<Rightarrow> rat \<Rightarrow> int" where
  "ilog b x =
     (let (p, q) = quotient_of x;
          k = digit_count b p - digit_count b q
      in if of_int b powi k \<le> x then k else k - 1)"

text \<open>Round to binary64; an overflowing magnitude becomes an infinity.\<close>

definition round_double :: "rat \<Rightarrow> pyfloat" where
  "round_double x =
     (if x = 0 then Fin 0
      else let a = \<bar>x\<bar>;
               e = max (ilog 2 a - 52) (- 1074);
               v = of_int (round_half_even (a / 2 powi e)) * 2 powi e
           in if v \<noteq> 0 \<and> 1024 \<le> ilog 2 v then (if 0 < x then PosInf else NegInf)
              else Fin (sgn x * v))"

definition float_of_int :: "int \<Rightarrow> pyfloat result" where
  \<comment> \<open>\<open>float(n)\<close> raises OverflowError when the rounded value is out of range\<close>
  "float_of_int n =
     (case round_double (of_int n) of Fin x \<Rightarrow> Inr (Fin x) | _ \<Rightarrow> Inl OverflowError)"

section \<open>The shortest decimal\<close>

text \<open>
  \<open>repr_digits x\<close> for a positive \<open>x\<close> is \<open>(c, k)\<close> with \<open>repr(x) = c * 10^k\<close>: the first
  number of digits from 1 to 17 for which a neighbouring decimal rounds back to \<open>x\<close>, and the
  nearer of the two neighbours.
\<close>

definition rounds_to :: "rat \<Rightarrow> int \<Rightarrow> int \<Rightarrow> bool" where
  "rounds_to x c k = (round_double (of_int c * 10 powi k) = Fin x)"

definition repr_at :: "rat \<Rightarrow> int \<Rightarrow> int \<times> bool" where
  \<comment> \<open>the decimal with last digit at \<open>10^k\<close> chosen for \<open>x\<close>, and whether it rounds back\<close>
  "repr_at x k =
     (let lo = \<lfloor>x / 10 powi k\<rfloor>; near = round_half_even (x / 10 powi k);
          far = (if near = lo then lo + 1 else lo)
      in if rounds_to x near k then (near, True)
         else if rounds_to x far k then (far, True)
         else (near, False))"

fun repr_search :: "rat \<Rightarrow> int \<Rightarrow> nat \<Rightarrow> int \<times> int" where
  "repr_search x k 0 = (fst (repr_at x k), k)"
| "repr_search x k (Suc n) =
     (case repr_at x k of
        (c, True) \<Rightarrow> (c, k)
      | (c, False) \<Rightarrow> repr_search x (k - 1) n)"

definition repr_digits :: "rat \<Rightarrow> int \<times> int" where
  "repr_digits x = repr_search x (ilog 10 x) 16"

definition repr_value :: "rat \<Rightarrow> rat" where
  \<comment> \<open>the number that \<open>str(x)\<close> denotes\<close>
  "repr_value x =
     (if x = 0 then 0
      else let (c, k) = repr_digits \<bar>x\<bar> in sgn x * (of_int c * 10 powi k))"

section \<open>Decimals\<close>

definition round_sig :: "nat \<Rightarrow> rat \<Rightarrow> rat" where
  "round_sig p r =
     (if r = 0 then 0
      else let k = ilog 10 \<bar>r\<bar> - (int p - 1)
           in of_int (round_half_even (r / 10 powi k)) * 10 powi k)"

definition decimal_of_float :: "pyfloat \<Rightarrow> rat" where
  \<comment> \<open>\<open>Decimal(str(x))\<close> of a finite float; the callers reject the other floats\<close>
  "decimal_of_float f = (case f of Fin x \<Rightarrow> repr_value x | _ \<Rightarrow> 0)"

definition decimal_sum :: "rat \<Rightarrow> pyfloat \<Rightarrow> rat" where
  "decimal_sum left right = round_sig 1000 (left + decimal_of_float right)"

section \<open>Facts about rounding\<close>

lemma round_half_even_of_int [simp]: "round_half_even (of_int n) = n"
  by (simp add: round_half_even_def)

lemma round_half_even_cases: "round_half_even x = \<lfloor>x\<rfloor> \<or> round_half_even x = \<lfloor>x\<rfloor> + 1"
  by (simp add: round_half_even_def Let_def)

lemma round_half_even_integer: "is_integer x \<Longrightarrow> of_int (round_half_even x) = x"
  by (auto simp: is_integer_iff)

lemma round_half_even_nonneg: "0 \<le> x \<Longrightarrow> 0 \<le> round_half_even x"
  using round_half_even_cases [of x] by (smt (verit) zero_le_floor)

lemma round_half_even_le: "of_int (round_half_even x) \<le> x + 1"
proof -
  have "round_half_even x \<le> \<lfloor>x\<rfloor> + 1"
    using round_half_even_cases [of x] by auto
  then have "of_int (round_half_even x) \<le> (of_int \<lfloor>x\<rfloor> + 1 :: rat)"
    by (metis of_int_1 of_int_add of_int_le_iff)
  also have "\<dots> \<le> x + 1"
    by simp
  finally show ?thesis .
qed

lemma quotient_of_pos:
  assumes "0 < x" "quotient_of x = (p, q)"
  shows "0 < p" "0 < q" "x = of_int p / of_int q"
proof -
  show q: "0 < q"
    using assms(2) by (rule quotient_of_denom_pos)
  show x: "x = of_int p / of_int q"
    using assms(2) by (rule quotient_of_div)
  show "0 < p"
    using assms(1) q by (simp add: x zero_less_divide_iff)
qed

lemma digit_count_bounds:
  assumes "1 < b" "0 < n"
  shows "of_int b powi (digit_count b n - 1) \<le> (of_int n :: rat)"
    and "(of_int n :: rat) < of_int b powi digit_count b n"
proof -
  let ?b = "of_int b :: rat"
  have b1: "1 < ?b" using assms(1) by simp
  have "?b powi (digit_count b n - 1) \<le> of_int n \<and> of_int n < ?b powi digit_count b n"
    using assms(2)
  proof (induction "nat n" arbitrary: n rule: less_induct)
    case less
    let ?q = "n div b" and ?d = "digit_count b (n div b)"
    have step: "digit_count b n = ?d + 1"
      using less.prems assms(1) by (simp add: digit_count.simps [of b n])
    have n: "of_int n = ?b * of_int ?q + of_int (n mod b)"
      by (metis mult_div_mod_eq of_int_add of_int_mult)
    have m: "0 \<le> n mod b" "n mod b < b" using assms(1) by simp_all
    have up: "of_int n < ?b * (of_int ?q + 1)"
      using m by (simp add: n distrib_left)
    have lo: "?b * of_int ?q \<le> of_int n"
      using m by (simp add: n)
    have pw: "?b powi (?d + 1) = ?b * ?b powi ?d"
      using b1 by (simp add: power_int_add)
    show ?case
    proof (cases "0 < ?q")
      case False
      then have "?q = 0"
        using less.prems assms(1) by (simp add: pos_imp_zdiv_nonneg_iff order_antisym)
      moreover from this have "?d = 0"
        by (simp add: digit_count.simps)
      ultimately show ?thesis
        using less.prems up by (simp add: step)
    next
      case True
      have "?q < n" using less.prems assms(1) by (simp add: int_div_less_self)
      with less.hyps [of ?q] less.prems True
      have ih: "?b powi (?d - 1) \<le> of_int ?q" "of_int ?q < ?b powi ?d"
        by simp_all
      have "0 \<le> ?d" 
        by (induction b ?q arbitrary: n rule: digit_count.induct) (subst digit_count.simps, simp)
      have "?b powi ?d = ?b * ?b powi (?d - 1)"
        using b1 by (metis add.commute diff_add_cancel mult.commute of_int_0 of_int_less_iff power_int_add_1 less_trans zero_less_one less_irrefl)
      also have "\<dots> \<le> ?b * of_int ?q"
        using ih(1) b1 by (intro mult_left_mono) auto
      also note lo
      finally have "?b powi ?d \<le> of_int n" .
      moreover have "?b powi ?d = of_int (b ^ nat ?d)"
        using \<open>0 \<le> ?d\<close> by (simp add: power_int_def)
      then have "of_int ?q + 1 \<le> ?b powi ?d"
        using ih(2) by (metis of_int_1 of_int_add of_int_le_iff of_int_less_iff zless_imp_add1_zle add.commute)
      then have "?b * (of_int ?q + 1) \<le> ?b powi (?d + 1)"
        using b1 by (simp add: pw)
      with up have "of_int n < ?b powi (?d + 1)"
        by (rule less_le_trans)
      ultimately show ?thesis by (simp add: step)
    qed
  qed
  then show "?b powi (digit_count b n - 1) \<le> of_int n" "of_int n < ?b powi digit_count b n"
    by simp_all
qed

lemma ilog_bounds:
  assumes b: "1 < b" and x: "0 < x"
  shows "of_int b powi ilog b x \<le> x" and "x < of_int b powi (ilog b x + 1)"
proof -
  obtain p q where pq: "quotient_of x = (p, q)" by fastforce
  note pos = quotient_of_pos [OF x pq]
  let ?lp = "digit_count b p" and ?lq = "digit_count b q" and ?b = "of_int b :: rat"
  have b0: "?b \<noteq> 0" and b1: "1 < ?b" using b by auto
  have p: "?b powi (?lp - 1) \<le> of_int p" "of_int p < ?b powi ?lp"
    using digit_count_bounds [OF b pos(1)] by simp_all
  have q: "?b powi (?lq - 1) \<le> of_int q" "of_int q < ?b powi ?lq"
    using digit_count_bounds [OF b pos(2)] by simp_all
  have upper: "x < ?b powi (?lp - ?lq + 1)"
  proof -
    have "x < ?b powi ?lp / ?b powi (?lq - 1)"
      unfolding pos(3) using p q pos b1 by (intro frac_less) auto
    also have "\<dots> = ?b powi (?lp - (?lq - 1))"
      using b0 by (simp only: power_int_diff simp_thms)
    finally show ?thesis by (simp add: algebra_simps)
  qed
  have lower: "?b powi (?lp - ?lq - 1) \<le> x"
  proof -
    have "?b powi (?lp - 1 - ?lq) = ?b powi (?lp - 1) / ?b powi ?lq"
      using b0 by (simp only: power_int_diff simp_thms)
    also have "\<dots> \<le> x"
      unfolding pos(3) using p q pos b1 by (intro frac_le) auto
    finally show ?thesis by (simp add: algebra_simps)
  qed
  show "?b powi ilog b x \<le> x" "x < ?b powi (ilog b x + 1)"
    using upper lower by (auto simp: ilog_def pq Let_def)
qed

lemma powi_less_cancel: "1 < b \<Longrightarrow> b powi i < b powi j \<Longrightarrow> i < j" for b :: rat
  by (metis linorder_not_less order.strict_trans1 power_int_increasing less_imp_le)

lemma ilog_less: "0 < x \<Longrightarrow> x < 10 powi j \<Longrightarrow> ilog 10 x < j"
  using ilog_bounds(1) [of 10 x] powi_less_cancel [of 10 "ilog 10 x" j] by simp

lemma ilog_ge:
  assumes "0 < x" "10 powi j \<le> x"
  shows "j \<le> ilog 10 x"
proof -
  have "10 powi j < (10 :: rat) powi (ilog 10 x + 1)"
    using ilog_bounds(2) [of 10 x] assms by simp
  then show ?thesis
    using powi_less_cancel [of 10 j "ilog 10 x + 1"] by simp
qed

section \<open>Decimal addition is exact on binary64 operands\<close>

text \<open>A multiple of \<open>10^j\<close>.\<close>

definition on_grid :: "int \<Rightarrow> rat \<Rightarrow> bool" where
  "on_grid j r = is_integer (r / 10 powi j)"

lemma on_grid_iff: "on_grid j r \<longleftrightarrow> (\<exists>a. r = of_int a * 10 powi j)"
  by (auto simp: on_grid_def is_integer_iff field_simps)

lemma on_grid_add: "on_grid j r \<Longrightarrow> on_grid j s \<Longrightarrow> on_grid j (r + s)"
  unfolding on_grid_iff by (metis distrib_right of_int_add)

lemma on_grid_0 [simp]: "on_grid j 0"
  by (simp add: on_grid_def is_integer_def)

lemma on_grid_finer:
  assumes "on_grid j r" "i \<le> j"
  shows "on_grid i r"
proof -
  obtain a where a: "r = of_int a * 10 powi j"
    using assms(1) by (auto simp: on_grid_iff)
  have "(10 :: rat) powi j = 10 powi (j - i) * 10 powi i"
    by (simp add: power_int_add [symmetric])
  also have "(10 :: rat) powi (j - i) = of_int (10 ^ nat (j - i))"
    using assms(2) by (simp add: power_int_def)
  finally have "r = of_int (a * 10 ^ nat (j - i)) * 10 powi i"
    by (simp add: a mult.assoc)
  then show ?thesis
    unfolding on_grid_iff by blast
qed

lemma round_sig_exact:
  assumes "on_grid j r" "\<bar>r\<bar> < 10 powi (j + int p)"
  shows "round_sig p r = r"
proof (cases "r = 0")
  case True
  then show ?thesis by (simp add: round_sig_def)
next
  case False
  then have "ilog 10 \<bar>r\<bar> < j + int p"
    using assms(2) by (intro ilog_less) auto
  then have "on_grid (ilog 10 \<bar>r\<bar> - (int p - 1)) r"
    by (intro on_grid_finer [OF assms(1)]) simp
  then show ?thesis
    using False by (simp add: round_sig_def Let_def on_grid_def round_half_even_integer)
qed

text \<open>
  The decimals of \<open>repr\<close> have their last digit at \<open>10^(ilog 10 x - 16)\<close> or before and are at
  most one unit of it away from \<open>x\<close>.
\<close>

lemma repr_search_exponent:
  "repr_search x k n = (c, k') \<Longrightarrow> k' \<le> k \<and> k - int n \<le> k' \<and> c = fst (repr_at x k')"
  by (induction n arbitrary: k)
     (fastforce split: prod.splits bool.splits)+

lemma repr_at_bounds:
  assumes "repr_at x k = (c, b)" "0 \<le> x"
  shows "0 \<le> c" and "of_int c * 10 powi k \<le> x + 10 powi k"
proof -
  have c: "c = \<lfloor>x / 10 powi k\<rfloor> \<or> c = \<lfloor>x / 10 powi k\<rfloor> + 1"
    using assms(1) round_half_even_cases [of "x / 10 powi k"]
    by (auto simp: repr_at_def Let_def split: if_splits)
  moreover have "0 \<le> \<lfloor>x / 10 powi k\<rfloor>"
    using assms(2) by simp
  ultimately show "0 \<le> c" by auto
  have "of_int c \<le> of_int \<lfloor>x / 10 powi k\<rfloor> + (1 :: rat)"
    using c by auto
  also have "\<dots> \<le> x / 10 powi k + 1"
    by simp
  finally show "of_int c * 10 powi k \<le> x + 10 powi k"
    by (simp add: field_simps)
qed

text \<open>
  The powers that bound binary64 are named, so that the simplifier does not write them out.
\<close>

definition least_double :: rat where
  "least_double = 2 powi (- 1074)"

definition double_limit :: rat where
  "double_limit = 2 powi 1024"

definition decimal_limit :: rat where
  "decimal_limit = 10 powi 600"

definition double_range :: "rat \<Rightarrow> bool" where
  \<comment> \<open>zero, or a magnitude from the least subnormal to the largest finite binary64\<close>
  "double_range x = (x = 0 \<or> least_double \<le> \<bar>x\<bar> \<and> \<bar>x\<bar> < double_limit)"

lemma round_double_range:
  assumes "round_double x = Fin v"
  shows "double_range v"
proof (cases "x = 0")
  case True
  with assms show ?thesis by (simp add: round_double_def double_range_def)
next
  case False
  let ?e = "max (ilog 2 \<bar>x\<bar> - 52) (- 1074)"
  let ?m = "round_half_even (\<bar>x\<bar> / 2 powi ?e)"
  let ?v = "of_int ?m * 2 powi ?e :: rat"
  from False assms have v: "v = sgn x * ?v" and small: "?v = 0 \<or> ilog 2 ?v < 1024"
    by (auto simp: round_double_def Let_def not_le split: if_splits)
  have m: "0 \<le> ?m" by (rule round_half_even_nonneg) simp
  then have abs_v: "\<bar>v\<bar> = ?v"
    using False by (simp add: v abs_mult abs_sgn_eq)
  show ?thesis
  proof (cases "?m = 0")
    case True
    then show ?thesis by (simp add: v double_range_def)
  next
    case m0: False
    have "least_double \<le> 2 powi ?e"
      unfolding least_double_def by (rule power_int_increasing) auto
    also have "\<dots> \<le> ?v"
      using m m0 by simp
    finally have "least_double \<le> ?v" .
    moreover have "?v < double_limit"
    proof -
      have "0 < ?v" using m m0 by simp
      then have "?v < 2 powi (ilog 2 ?v + 1)"
        using ilog_bounds(2) [of 2 ?v] by simp
      also have "\<dots> \<le> double_limit"
        unfolding double_limit_def using small \<open>0 < ?v\<close> by (intro power_int_increasing) auto
      finally show ?thesis .
    qed
    ultimately show ?thesis
      unfolding double_range_def abs_v by blast
  qed
qed

lemma repr_digits_bounds:
  assumes "0 < x" "repr_digits x = (c, k)"
  shows "ilog 10 x - 16 \<le> k" and "0 \<le> c" and "of_int c * 10 powi k \<le> 2 * x"
proof -
  note e = repr_search_exponent [OF assms(2) [unfolded repr_digits_def]]
  then show "ilog 10 x - 16 \<le> k" by simp
  obtain b where at: "repr_at x k = (c, b)"
    using e by (cases "repr_at x k") auto
  show "0 \<le> c"
    using repr_at_bounds(1) [OF at] assms(1) by simp
  have "(10 :: rat) powi k \<le> 10 powi ilog 10 x"
    using e by (intro power_int_increasing) auto
  also have "\<dots> \<le> x"
    using ilog_bounds(1) [of 10 x] assms(1) by simp
  finally show "of_int c * 10 powi k \<le> 2 * x"
    using repr_at_bounds(2) [OF at] assms(1) by simp
qed

lemma power_bounds:
  "10 powi (- 358) \<le> least_double"
  "2 * double_limit < decimal_limit"
  "2 * decimal_limit \<le> 10 powi 626"
proof -
  have pow: "(2 :: rat) ^ (3 * n) \<le> 10 ^ n" for n
    by (simp add: power_mult power_mono)
  have e: "3 * 358 = (1074 :: nat)" "Suc 1024 \<le> 3 * 342" "Suc 600 \<le> 626"
    by simp_all
  have "inverse ((10 :: rat) ^ 358) \<le> inverse (2 ^ (3 * 358))"
    by (rule le_imp_inverse_le [OF pow]) (rule zero_less_power, simp)
  then show "10 powi (- 358) \<le> least_double"
    unfolding least_double_def by (simp only: power_int_minus power_int_numeral e)
  have "2 * (2 :: rat) ^ 1024 = 2 ^ Suc 1024"
    by (rule power_Suc [symmetric])
  also have "\<dots> \<le> 2 ^ (3 * 342)"
    by (rule power_increasing [OF e(2)]) simp
  also note pow [of 342]
  also have "(10 :: rat) ^ 342 < 10 ^ 600"
    by (rule power_strict_increasing) simp_all
  finally show "2 * double_limit < decimal_limit"
    unfolding double_limit_def decimal_limit_def by (simp only: power_int_numeral)
  have "2 * (10 :: rat) ^ 600 \<le> 10 * 10 ^ 600"
    by (rule mult_right_mono) (simp, rule zero_le_power, simp)
  also have "\<dots> = 10 ^ Suc 600"
    by (rule power_Suc [symmetric])
  also have "\<dots> \<le> 10 ^ 626"
    by (rule power_increasing [OF e(3)]) simp
  finally show "2 * decimal_limit \<le> 10 powi 626"
    unfolding decimal_limit_def by (simp only: power_int_numeral)
qed

lemma decimal_limit_pos: "0 < decimal_limit"
  unfolding decimal_limit_def by (rule zero_less_power_int) simp

lemma repr_value_bound:
  assumes "double_range x"
  shows "\<bar>repr_value x\<bar> < decimal_limit"
proof (cases "x = 0")
  case True
  then show ?thesis by (simp add: repr_value_def decimal_limit_pos)
next
  case False
  obtain c k where ck: "repr_digits \<bar>x\<bar> = (c, k)" by fastforce
  have "0 < \<bar>x\<bar>" using False by simp
  note b = repr_digits_bounds [OF this ck]
  have "\<bar>repr_value x\<bar> = of_int c * 10 powi k"
    using b(2) False ck by (simp add: repr_value_def abs_mult abs_sgn_eq)
  also have "\<dots> \<le> 2 * \<bar>x\<bar>" by (rule b(3))
  also have "\<dots> < 2 * double_limit"
    using assms False by (simp add: double_range_def)
  also note power_bounds(2)
  finally show ?thesis .
qed

lemma repr_value_grid:
  assumes "double_range x"
  shows "on_grid (- 374) (repr_value x)"
proof (cases "x = 0")
  case True
  then show ?thesis by (simp add: repr_value_def)
next
  case False
  obtain c k where ck: "repr_digits \<bar>x\<bar> = (c, k)" by fastforce
  have pos: "0 < \<bar>x\<bar>" using False by simp
  have "least_double \<le> \<bar>x\<bar>"
    using assms False by (simp add: double_range_def)
  with power_bounds(1) have "10 powi (- 358) \<le> \<bar>x\<bar>"
    by (rule order.trans)
  from ilog_ge [OF pos this] have k: "- 374 \<le> k"
    using repr_digits_bounds(1) [OF pos ck] by simp
  have "repr_value x = of_int (if 0 < x then c else - c) * 10 powi k"
    using False ck by (simp add: repr_value_def sgn_if)
  then have "on_grid k (repr_value x)"
    unfolding on_grid_iff by blast
  then show ?thesis
    using k by (rule on_grid_finer)
qed

lemma repr_value_nonneg: "0 \<le> x \<Longrightarrow> 0 \<le> repr_value x"
  using repr_digits_bounds(2) [of "\<bar>x\<bar>"]
  by (cases "repr_digits \<bar>x\<bar>") (auto simp: repr_value_def sgn_if)

lemma decimal_sum_exact:
  assumes "on_grid (- 374) l" "\<bar>l\<bar> < decimal_limit" "double_range x"
  shows "decimal_sum l (Fin x) = l + repr_value x"
proof -
  have exp: "- 374 + int 1000 = 626" by simp
  have "\<bar>l + repr_value x\<bar> < 2 * decimal_limit"
    using assms(2) repr_value_bound [OF assms(3)] by linarith
  also note power_bounds(3)
  finally show ?thesis
    using on_grid_add [OF assms(1) repr_value_grid [OF assms(3)]]
      round_sig_exact [of "- 374" _ 1000]
    unfolding decimal_sum_def decimal_of_float_def pyfloat.case
    by (simp only: exp)
qed

end
