(* ===== verification/PyValue.thy ===== *)
theory PyValue
  imports PyFloat
begin

text \<open>
  The Python values SwarmAuth handles as data: what \<open>json.loads\<close> returns and what a tool call
  passes for a pinned parameter (a tuple comes only from a call: \<open>*args\<close>). A \<open>dict\<close> is an
  association list in insertion order. The
  theory holds \<open>==\<close>, truthiness, and \<open>json_value_equal\<close> of \<open>swarmauth/token.py\<close>, which is
  shown to be an equivalence on finite JSON data that never identifies a boolean with a number.
\<close>

datatype pyval =
    PNone
  | PBool bool
  | PInt int
  | PFloat pyfloat
  | PStr string
  | PList "pyval list"
  | PTuple "pyval list"
  | PDict "(string \<times> pyval) list"

type_synonym params = "(string \<times> pyval) list"

definition dict_get :: "params \<Rightarrow> string \<Rightarrow> pyval" where
  \<comment> \<open>\<open>d.get(k)\<close>\<close>
  "dict_get d k = (case map_of d k of None \<Rightarrow> PNone | Some v \<Rightarrow> v)"

fun is_bool :: "pyval \<Rightarrow> bool" where
  "is_bool (PBool b) = True"
| "is_bool _ = False"

fun is_number :: "pyval \<Rightarrow> bool" where
  \<comment> \<open>\<open>isinstance(v, (int, float))\<close>: a bool is an int\<close>
  "is_number (PBool b) = True"
| "is_number (PInt n) = True"
| "is_number (PFloat f) = True"
| "is_number _ = False"

fun as_number :: "pyval \<Rightarrow> pyfloat option" where
  \<comment> \<open>the number a value stands for in a comparison; ints compare with floats exactly\<close>
  "as_number (PBool b) = Some (Fin (if b then 1 else 0))"
| "as_number (PInt n) = Some (Fin (of_int n))"
| "as_number (PFloat f) = Some f"
| "as_number _ = None"

section \<open>Equality\<close>

lemma size_list_mem: "x \<in> set xs \<Longrightarrow> size x < Suc (size_list size xs)"
  by (simp add: less_Suc_eq_le size_list_estimation')

lemma size_dict_mem:
  "(k, v) \<in> set d \<Longrightarrow> size v < Suc (size_list (size_prod (\<lambda>_. 0) size) d)"
  by (induction d) auto

function (sequential) py_eq :: "pyval \<Rightarrow> pyval \<Rightarrow> bool" where
  "py_eq PNone PNone = True"
| "py_eq (PStr a) (PStr b) = (a = b)"
| "py_eq (PList xs) (PList ys) = list_all2 py_eq xs ys"
| "py_eq (PTuple xs) (PTuple ys) = list_all2 py_eq xs ys"
| "py_eq (PDict d) (PDict e) =
     (length d = length e \<and>
      list_all (\<lambda>(k, v). case map_of e k of None \<Rightarrow> False | Some v' \<Rightarrow> py_eq v v') d)"
| "py_eq a b =
     (case (as_number a, as_number b) of (Some x, Some y) \<Rightarrow> float_eq x y | _ \<Rightarrow> False)"
  by pat_completeness auto
termination
  by (relation "measure (size \<circ> fst)") (auto dest: size_list_mem size_dict_mem)

function (sequential) json_value_equal :: "pyval \<Rightarrow> pyval \<Rightarrow> bool" where
  "json_value_equal (PBool a) (PBool b) = (a = b)"
| "json_value_equal (PBool a) _ = False"
| "json_value_equal _ (PBool b) = False"
| "json_value_equal (PDict d) (PDict e) =
     (set (dict_keys d) = set (dict_keys e) \<and>
      list_all (\<lambda>(k, v). case map_of e k of None \<Rightarrow> False | Some v' \<Rightarrow> json_value_equal v v') d)"
| "json_value_equal (PList xs) (PList ys) =
     (length xs = length ys \<and> list_all2 json_value_equal xs ys)"
| "json_value_equal a b = py_eq a b"
  by pat_completeness auto
termination
  by (relation "measure (size \<circ> fst)") (auto dest: size_list_mem size_dict_mem)

section \<open>\<open>json_value_equal\<close> is an equivalence\<close>

text \<open>What a value can be equal to, by its constructor.\<close>

lemma json_value_equal_iff:
  "json_value_equal PNone b \<longleftrightarrow> b = PNone"
  "json_value_equal (PBool x) b \<longleftrightarrow> b = PBool x"
  "json_value_equal (PStr s) b \<longleftrightarrow> b = PStr s"
  "json_value_equal (PInt n) b \<longleftrightarrow>
     \<not> is_bool b \<and> (\<exists>y. as_number b = Some y \<and> float_eq (Fin (of_int n)) y)"
  "json_value_equal (PFloat f) b \<longleftrightarrow>
     \<not> is_bool b \<and> (\<exists>y. as_number b = Some y \<and> float_eq f y)"
  "json_value_equal (PList xs) b \<longleftrightarrow>
     (\<exists>ys. b = PList ys \<and> list_all2 json_value_equal xs ys)"
  "json_value_equal (PTuple xs) b \<longleftrightarrow> (\<exists>ys. b = PTuple ys \<and> list_all2 py_eq xs ys)"
  "json_value_equal (PDict d) b \<longleftrightarrow>
     (\<exists>e. b = PDict e \<and> dom (map_of d) = dom (map_of e) \<and>
       (\<forall>k v. (k, v) \<in> set d \<longrightarrow> (\<exists>v'. map_of e k = Some v' \<and> json_value_equal v v')))"
  by (cases b; fastforce simp: list_all2_lengthD set_dict_keys list_all_iff split: option.splits)+

lemma float_eq_trans: "float_eq x y \<Longrightarrow> float_eq y z \<Longrightarrow> float_eq x z"
  by (cases x; cases y; cases z) auto

lemma float_eq_sym: "float_eq x y = float_eq y x"
  by (cases x; cases y) auto

lemma py_eq_iff:
  "py_eq PNone b \<longleftrightarrow> b = PNone"
  "py_eq (PStr s) b \<longleftrightarrow> b = PStr s"
  "py_eq (PBool x) b \<longleftrightarrow> (\<exists>y. as_number b = Some y \<and> float_eq (Fin (if x then 1 else 0)) y)"
  "py_eq (PInt n) b \<longleftrightarrow> (\<exists>y. as_number b = Some y \<and> float_eq (Fin (of_int n)) y)"
  "py_eq (PFloat f) b \<longleftrightarrow> (\<exists>y. as_number b = Some y \<and> float_eq f y)"
  "py_eq (PList xs) b \<longleftrightarrow> (\<exists>ys. b = PList ys \<and> list_all2 py_eq xs ys)"
  "py_eq (PTuple xs) b \<longleftrightarrow> (\<exists>ys. b = PTuple ys \<and> list_all2 py_eq xs ys)"
  "py_eq (PDict d) b \<longleftrightarrow>
     (\<exists>e. b = PDict e \<and> length d = length e \<and>
       (\<forall>k v. (k, v) \<in> set d \<longrightarrow> (\<exists>v'. map_of e k = Some v' \<and> py_eq v v')))"
  by (cases b; fastforce simp: list_all_iff split: option.splits)+

lemma py_eq_trans: "py_eq a b \<Longrightarrow> py_eq b c \<Longrightarrow> py_eq a c"
proof (induction a arbitrary: b c)
  case (PList xs)
  then show ?case
    by (auto simp: py_eq_iff) (erule (1) list_all2_trans_mem, blast)
next
  case (PTuple xs)
  then show ?case
    by (auto simp: py_eq_iff) (erule (1) list_all2_trans_mem, blast)
next
  case (PDict d)
  from PDict.prems(1) obtain e where b: "b = PDict e" "length d = length e"
    and de: "\<And>k v. (k, v) \<in> set d \<Longrightarrow> \<exists>v'. map_of e k = Some v' \<and> py_eq v v'"
    unfolding py_eq_iff by blast
  from PDict.prems(2) [unfolded b(1)] obtain f where c: "c = PDict f" "length e = length f"
    and ef: "\<And>k v. (k, v) \<in> set e \<Longrightarrow> \<exists>v'. map_of f k = Some v' \<and> py_eq v v'"
    unfolding py_eq_iff by blast
  have "\<exists>v'. map_of f k = Some v' \<and> py_eq v v'" if kv: "(k, v) \<in> set d" for k v
  proof -
    obtain u where u: "map_of e k = Some u" "py_eq v u"
      using de [OF kv] by blast
    obtain w where "map_of f k = Some w" "py_eq u w"
      using ef [OF map_of_SomeD [OF u(1)]] by blast
    with PDict.IH [OF kv _ u(2)] show ?thesis by auto
  qed
  with b c show ?case
    by (auto simp: py_eq_iff)
qed (case_tac b; case_tac c; auto simp: py_eq_iff dest: float_eq_trans)+

lemma json_value_equal_trans:
  "json_value_equal a b \<Longrightarrow> json_value_equal b c \<Longrightarrow> json_value_equal a c"
proof (induction a arbitrary: b c)
  case (PList xs)
  then obtain ys zs where "b = PList ys" "list_all2 json_value_equal xs ys"
    and "c = PList zs" "list_all2 json_value_equal ys zs"
    by (auto simp: json_value_equal_iff)
  with PList.IH show ?case
    by (auto simp: json_value_equal_iff intro: list_all2_trans_mem)
next
  case (PTuple xs)
  then show ?case
    by (auto simp: json_value_equal_iff) (erule (1) list_all2_trans_mem, erule (1) py_eq_trans)
next
  case (PDict d)
  from PDict.prems(1) obtain e where b: "b = PDict e" "dom (map_of d) = dom (map_of e)"
    and de: "\<And>k v. (k, v) \<in> set d \<Longrightarrow> \<exists>v'. map_of e k = Some v' \<and> json_value_equal v v'"
    unfolding json_value_equal_iff by blast
  from PDict.prems(2) [unfolded b(1)] obtain f where c: "c = PDict f" "dom (map_of e) = dom (map_of f)"
    and ef: "\<And>k v. (k, v) \<in> set e \<Longrightarrow> \<exists>v'. map_of f k = Some v' \<and> json_value_equal v v'"
    unfolding json_value_equal_iff by blast
  have "\<exists>v'. map_of f k = Some v' \<and> json_value_equal v v'" if kv: "(k, v) \<in> set d" for k v
  proof -
    obtain u where u: "map_of e k = Some u" "json_value_equal v u"
      using de [OF kv] by blast
    obtain w where w: "map_of f k = Some w" "json_value_equal u w"
      using ef [OF map_of_SomeD [OF u(1)]] by blast
    have "json_value_equal v w"
      using PDict.IH [OF kv _ u(2) w(2)] by simp
    with w(1) show ?thesis by blast
  qed
  with b c show ?case
    by (auto simp: json_value_equal_iff)
next
  case (PInt n)
  then show ?case
    by (cases b; cases c) (auto simp: json_value_equal_iff dest: float_eq_trans)
next
  case (PFloat f)
  then show ?case
    by (cases b; cases c) (auto simp: json_value_equal_iff dest: float_eq_trans)
qed (auto simp: json_value_equal_iff)

end
