(* ===== verification/PyJson.thy ===== *)
theory PyJson
  imports PyValue "HOL-Library.Char_ord" "HOL-Library.List_Lexorder"
begin

text \<open>
  \<open>json.dumps(v, sort_keys=True, separators=(",", ":"), ensure_ascii=True)\<close>, the canonical
  encoder of the protocol, and \<open>json.loads\<close> on text, the standard library's decoder. The
  decoder follows \<open>json.scanner\<close> and \<open>json.decoder\<close> (white space, all escapes, numbers with
  fraction and exponent, the constants \<open>NaN\<close> and \<open>Infinity\<close>, the last of duplicate keys
  wins, at most 4300 digits per integer). Text with code points above U+00FF is outside the
  model and is rejected by it, and the interpreter's recursion limit is not modelled.
\<close>

section \<open>Numbers as text\<close>

function int_digits :: "int \<Rightarrow> string" where
  "int_digits n =
     (if n < 10 then [char_of (48 + n)] else int_digits (n div 10) @ [char_of (48 + n mod 10)])"
  by pat_completeness auto
termination
  by (relation "measure nat") auto

declare int_digits.simps [simp del]

definition int_str :: "int \<Rightarrow> string" where
  "int_str n = (if n < 0 then ''-'' @ int_digits (- n) else int_digits n)"

function strip_zeros :: "int \<Rightarrow> int \<Rightarrow> int \<times> int" where
  "strip_zeros c k = (if 0 < c \<and> c mod 10 = 0 then strip_zeros (c div 10) (k + 1) else (c, k))"
  by pat_completeness auto
termination
  by (relation "measure (\<lambda>(c, k). nat c)") auto

declare strip_zeros.simps [simp del]

definition zeros :: "int \<Rightarrow> string" where
  "zeros n = replicate (nat n) CHR ''0''"

definition layout_digits :: "string \<Rightarrow> int \<Rightarrow> string" where
  \<comment> \<open>the layout of \<open>repr\<close>: \<open>ds\<close> are the digits, the value is \<open>0.ds * 10^decpt\<close>\<close>
  "layout_digits ds decpt =
     (let n = int (length ds); e = decpt - 1
      in if decpt \<le> - 4 \<or> 16 < decpt
         then take 1 ds @ (if n = 1 then [] else ''.'' @ drop 1 ds)
              @ ''e'' @ (if e < 0 then ''-'' else ''+'')
              @ (if \<bar>e\<bar> < 10 then ''0'' else []) @ int_digits \<bar>e\<bar>
         else if decpt \<le> 0 then ''0.'' @ zeros (- decpt) @ ds
         else if n \<le> decpt then ds @ zeros (decpt - n) @ ''.0''
         else take (nat decpt) ds @ ''.'' @ drop (nat decpt) ds)"

definition float_text :: "pyfloat \<Rightarrow> string" where
  "float_text f =
     (case f of
        Fin x \<Rightarrow>
          (if x = 0 then ''0.0''
           else let (c, k) = repr_digits \<bar>x\<bar>; (c, k) = strip_zeros c k; ds = int_digits c
                in (if x < 0 then ''-'' else []) @ layout_digits ds (int (length ds) + k))
      | PosInf \<Rightarrow> ''Infinity''
      | NegInf \<Rightarrow> ''-Infinity''
      | NaN \<Rightarrow> ''NaN'')"

section \<open>Encoding\<close>

definition quote :: char where
  "quote = CHR 0x22"

definition backslash :: char where
  "backslash = CHR 0x5C"

definition hex_digit :: "int \<Rightarrow> char" where
  "hex_digit n = (if n < 10 then char_of (48 + n) else char_of (87 + n))"

definition json_escape :: "char \<Rightarrow> string" where
  "json_escape c =
     (let n = of_char c :: int
      in if c = quote then [backslash, quote]
         else if c = backslash then [backslash, backslash]
         else if n = 8 then [backslash, CHR ''b'']
         else if n = 9 then [backslash, CHR ''t'']
         else if n = 10 then [backslash, CHR ''n'']
         else if n = 12 then [backslash, CHR ''f'']
         else if n = 13 then [backslash, CHR ''r'']
         else if 32 \<le> n \<and> n \<le> 126 then [c]
         else [backslash, CHR ''u'', CHR ''0'', CHR ''0'', hex_digit (n div 16), hex_digit (n mod 16)])"

definition json_string :: "string \<Rightarrow> string" where
  "json_string s = [quote] @ concat (List.map json_escape s) @ [quote]"

fun join_with :: "string \<Rightarrow> string list \<Rightarrow> string" where
  "join_with sep [] = []"
| "join_with sep [s] = s"
| "join_with sep (s # ss) = s @ sep @ join_with sep ss"

function json_text :: "pyval \<Rightarrow> string" where
  "json_text PNone = ''null''"
| "json_text (PBool b) = (if b then ''true'' else ''false'')"
| "json_text (PInt n) = int_str n"
| "json_text (PFloat f) = float_text f"
| "json_text (PStr s) = json_string s"
| "json_text (PList xs) = ''['' @ join_with '','' (List.map json_text xs) @ '']''"
| "json_text (PTuple xs) = ''['' @ join_with '','' (List.map json_text xs) @ '']''"
| "json_text (PDict d) =
     ''{'' @ join_with '',''
       (List.map (\<lambda>(k, v). json_string k @ '':'' @ json_text v) (sort_key fst d)) @ ''}''"
  by pat_completeness auto
termination
  by (relation "measure size") (auto dest: size_list_mem size_dict_mem)

function finite_json :: "pyval \<Rightarrow> bool" where
  "finite_json (PFloat f) = isfinite f"
| "finite_json (PList xs) = list_all finite_json xs"
| "finite_json (PTuple xs) = list_all finite_json xs"
| "finite_json (PDict d) = list_all (\<lambda>(k, v). finite_json v) d"
| "finite_json PNone = True"
| "finite_json (PBool b) = True"
| "finite_json (PInt n) = True"
| "finite_json (PStr s) = True"
  by pat_completeness auto
termination
  by (relation "measure size") (auto dest: size_list_mem size_dict_mem)

definition canonical_json :: "pyval \<Rightarrow> string result" where
  \<comment> \<open>\<open>allow_nan=False\<close> raises on a non-finite number\<close>
  "canonical_json v = (if finite_json v then Inr (json_text v) else Inl ValueError)"

section \<open>Decoding\<close>

definition is_ws :: "char \<Rightarrow> bool" where
  "is_ws c = (c = CHR '' '' \<or> c = CHR 0x09 \<or> c = CHR 0x0A \<or> c = CHR 0x0D)"

definition skip_ws :: "string \<Rightarrow> string" where
  "skip_ws s = dropWhile is_ws s"

definition digit_val :: "char \<Rightarrow> int" where
  "digit_val c = of_char c - 48"

definition is_digit :: "char \<Rightarrow> bool" where
  "is_digit c = (0 \<le> digit_val c \<and> digit_val c \<le> 9)"

definition digits_val :: "string \<Rightarrow> int" where
  "digits_val ds = foldl (\<lambda>n c. 10 * n + digit_val c) 0 ds"

definition hex_val :: "char \<Rightarrow> int option" where
  "hex_val c =
     (let n = of_char c :: int
      in if 48 \<le> n \<and> n \<le> 57 then Some (n - 48)
         else if 97 \<le> n \<and> n \<le> 102 then Some (n - 87)
         else if 65 \<le> n \<and> n \<le> 70 then Some (n - 55)
         else None)"

definition unescape :: "char \<Rightarrow> char option" where
  "unescape c =
     (if c = quote \<or> c = backslash \<or> c = CHR ''/'' then Some c
      else if c = CHR ''b'' then Some (CHR 0x08)
      else if c = CHR ''f'' then Some (CHR 0x0C)
      else if c = CHR ''n'' then Some (CHR 0x0A)
      else if c = CHR ''r'' then Some (CHR 0x0D)
      else if c = CHR ''t'' then Some (CHR 0x09)
      else None)"

definition unescape_hex :: "char \<Rightarrow> char \<Rightarrow> char \<Rightarrow> char \<Rightarrow> char option" where
  \<comment> \<open>four hex digits; only code points below 256 are in the model\<close>
  "unescape_hex a b c d =
     (case (hex_val a, hex_val b, hex_val c, hex_val d) of
        (Some p, Some q, Some m, Some n) \<Rightarrow>
          if p = 0 \<and> q = 0 then Some (char_of (16 * m + n)) else None
      | _ \<Rightarrow> None)"

fun scan_string :: "string \<Rightarrow> (string \<times> string) option" where
  "scan_string [] = None"
| "scan_string (c # s) =
     (if c = quote then Some ([], s)
      else if c = backslash then
        (case s of
           [] \<Rightarrow> None
         | e # s' \<Rightarrow>
             if e = CHR ''u'' then
               (case s' of
                  h1 # h2 # h3 # h4 # s'' \<Rightarrow>
                    (case (unescape_hex h1 h2 h3 h4, scan_string s'') of
                       (Some ch, Some (t, r)) \<Rightarrow> Some (ch # t, r)
                     | _ \<Rightarrow> None)
                | _ \<Rightarrow> None)
             else (case (unescape e, scan_string s') of
                     (Some ch, Some (t, r)) \<Rightarrow> Some (ch # t, r)
                   | _ \<Rightarrow> None))
      else if of_char c < (32 :: int) then None
      else (case scan_string s of Some (t, r) \<Rightarrow> Some (c # t, r) | None \<Rightarrow> None))"

definition scan_frac :: "string \<Rightarrow> string \<times> string" where
  \<comment> \<open>the digits of an optional fraction, and the rest\<close>
  "scan_frac s =
     (case s of
        p # d # r \<Rightarrow>
          if p = CHR ''.'' \<and> is_digit d
          then (takeWhile is_digit (d # r), dropWhile is_digit (d # r)) else ([], s)
      | _ \<Rightarrow> ([], s))"

definition scan_exp_digits :: "string \<Rightarrow> (int \<times> string) option" where
  "scan_exp_digits s =
     (let ds = takeWhile is_digit s
      in if ds = [] then None else Some (digits_val ds, dropWhile is_digit s))"

definition scan_exp :: "string \<Rightarrow> (int \<times> string) option" where
  "scan_exp s =
     (case s of
        [] \<Rightarrow> None
      | e # r \<Rightarrow>
          if e = CHR ''e'' \<or> e = CHR ''E'' then
            (case r of
               [] \<Rightarrow> None
             | g # r' \<Rightarrow>
                 if g = CHR ''+'' then scan_exp_digits r'
                 else if g = CHR ''-'' then map_option (\<lambda>(n, t). (- n, t)) (scan_exp_digits r')
                 else scan_exp_digits r)
          else None)"

definition scan_unsigned :: "string \<Rightarrow> (int \<Rightarrow> pyval \<times> string) option" where
  \<comment> \<open>a number after its optional sign; the argument of the result is the sign\<close>
  "scan_unsigned s =
     (case s of
        [] \<Rightarrow> None
      | d # r \<Rightarrow>
          if \<not> is_digit d then None
          else
            let ip = (if d = CHR ''0'' then [d] else takeWhile is_digit s);
                r1 = (if d = CHR ''0'' then r else dropWhile is_digit s);
                (fd, r2) = scan_frac r1
            in (case scan_exp r2 of
                  None \<Rightarrow>
                    (if fd = [] then
                       (if 4300 < length ip then None
                        else Some (\<lambda>sg. (PInt (sg * digits_val ip), r2)))
                     else Some (\<lambda>sg. (PFloat (round_double
                            (of_int (sg * digits_val (ip @ fd)) * 10 powi (- int (length fd)))), r2)))
                | Some (e, r3) \<Rightarrow>
                    Some (\<lambda>sg. (PFloat (round_double
                       (of_int (sg * digits_val (ip @ fd)) * 10 powi (e - int (length fd)))), r3))))"

definition scan_literal :: "string \<Rightarrow> (pyval \<times> string) option" where
  "scan_literal s =
     (if take 4 s = ''null'' then Some (PNone, drop 4 s)
      else if take 4 s = ''true'' then Some (PBool True, drop 4 s)
      else if take 5 s = ''false'' then Some (PBool False, drop 5 s)
      else if take 1 s = ''-'' then
        (case scan_unsigned (drop 1 s) of
           Some f \<Rightarrow> Some (f (- 1))
         | None \<Rightarrow> if take 9 s = ''-Infinity'' then Some (PFloat NegInf, drop 9 s) else None)
      else
        (case scan_unsigned s of
           Some f \<Rightarrow> Some (f 1)
         | None \<Rightarrow>
             if take 3 s = ''NaN'' then Some (PFloat NaN, drop 3 s)
             else if take 8 s = ''Infinity'' then Some (PFloat PosInf, drop 8 s)
             else None))"

lemma length_skip_ws: "length (skip_ws s) \<le> length s"
  by (simp add: skip_ws_def length_dropWhile_le)

lemma skip_ws_shorter:
  "length r < n \<Longrightarrow> Suc (2 * length (skip_ws r)) \<le> 2 * n"
  "length r \<le> n \<Longrightarrow> 2 * length (skip_ws r) \<le> Suc (2 * n)"
  "length r \<le> n \<Longrightarrow> 2 * length (skip_ws r) \<le> Suc (Suc (2 * n))"
  using length_skip_ws [of r] by linarith+

text \<open>
  The recursive descent. The comparisons of lengths are always true, since every parser
  consumes input; they make the termination evident.
\<close>

function scan_value :: "string \<Rightarrow> (pyval \<times> string) option"
  and scan_elements :: "string \<Rightarrow> (pyval list \<times> string) option"
  and scan_members :: "string \<Rightarrow> ((string \<times> pyval) list \<times> string) option" where
  "scan_value s =
     (case s of
        [] \<Rightarrow> None
      | c # r \<Rightarrow>
          if c = quote then map_option (\<lambda>(t, r'). (PStr t, r')) (scan_string r)
          else if c = CHR ''['' then
            (if take 1 (skip_ws r) = '']'' then Some (PList [], drop 1 (skip_ws r))
             else map_option (\<lambda>(xs, r'). (PList xs, r')) (scan_elements (skip_ws r)))
          else if c = CHR ''{'' then
            (if take 1 (skip_ws r) = ''}'' then Some (PDict [], drop 1 (skip_ws r))
             else map_option (\<lambda>(kvs, r'). (PDict (fold (\<lambda>(k, v). AList.update k v) kvs []), r'))
                    (scan_members (skip_ws r)))
          else scan_literal s)"
| "scan_elements s =
     (case scan_value s of
        None \<Rightarrow> None
      | Some (v, r) \<Rightarrow>
          (case skip_ws r of
             [] \<Rightarrow> None
           | c # r' \<Rightarrow>
               if c = CHR '']'' then Some ([v], r')
               else if c = CHR '','' \<and> length r' < length s then
                 map_option (\<lambda>(vs, t). (v # vs, t)) (scan_elements (skip_ws r'))
               else None))"
| "scan_members s =
     (case s of
        [] \<Rightarrow> None
      | q # r \<Rightarrow>
          if q \<noteq> quote then None
          else
            (case scan_string r of
               None \<Rightarrow> None
             | Some (k, r1) \<Rightarrow>
                 (case skip_ws r1 of
                    [] \<Rightarrow> None
                  | c # r2 \<Rightarrow>
                      if c = CHR '':'' \<and> length r2 < length s then
                        (case scan_value (skip_ws r2) of
                           None \<Rightarrow> None
                         | Some (v, r3) \<Rightarrow>
                             (case skip_ws r3 of
                                [] \<Rightarrow> None
                              | d # r4 \<Rightarrow>
                                  if d = CHR ''}'' then Some ([(k, v)], r4)
                                  else if d = CHR '','' \<and> length r4 < length s then
                                    map_option (\<lambda>(kvs, t). ((k, v) # kvs, t))
                                      (scan_members (skip_ws r4))
                                  else None))
                      else None)))"
  by pat_completeness auto
termination
  by (relation "measure (\<lambda>x. case x of
        Inl s \<Rightarrow> 2 * length s | Inr (Inl s) \<Rightarrow> Suc (2 * length s) | Inr (Inr s) \<Rightarrow> Suc (2 * length s))")
     (simp_all add: length_skip_ws skip_ws_shorter less_Suc_eq_le)

declare scan_value.simps [simp del] scan_elements.simps [simp del] scan_members.simps [simp del]

definition json_loads :: "string \<Rightarrow> pyval option" where
  "json_loads s =
     (case scan_value (skip_ws s) of
        Some (v, r) \<Rightarrow> if skip_ws r = [] then Some v else None
      | None \<Rightarrow> None)"

end
