(* ===== verification/Crypto.thy ===== *)
theory Crypto
  imports PyJson
begin

text \<open>
  \<open>swarmauth/crypto.py\<close>: base64url, key pairs, signatures and token ids. The base64url codec is
  modelled down to the bits, and shown to be a bijection between byte strings and the strings
  \<open>b64url_decode\<close> accepts: a token segment has exactly one spelling.

  The packages outside the repository are the record \<open>ext_lib\<close>, an argument of every
  definition that uses them: \<open>cryptography\<close>'s Ed25519, the scalar coercions of \<open>pydantic\<close>'s
  strict mode, the decoding of JSON bytes to text, and which texts are nested too deeply for the
  interpreter running \<open>json.loads\<close>. What the code relies on is stated by
  the predicates \<open>ed25519_ok\<close>, \<open>pydantic_ok\<close> and \<open>text_ok\<close>; only the theorems that name
  them assume them.
\<close>

section \<open>Code outside the repository\<close>

record ext_lib =
  ed_public :: "bytes \<Rightarrow> bytes"  \<comment> \<open>the raw public key of a raw private key\<close>
  ed_sign :: "bytes \<Rightarrow> bytes \<Rightarrow> bytes"  \<comment> \<open>private key, message\<close>
  ed_public_ok :: "bytes \<Rightarrow> bool"  \<comment> \<open>\<open>Ed25519PublicKey.from_public_bytes\<close> accepts\<close>
  ed_verify :: "bytes \<Rightarrow> bytes \<Rightarrow> bytes \<Rightarrow> bool"  \<comment> \<open>public key, message, signature\<close>
  pyd_str :: "pyval \<Rightarrow> string option"  \<comment> \<open>a strict \<open>str\<close> field\<close>
  pyd_int :: "pyval \<Rightarrow> int option"  \<comment> \<open>a strict \<open>int\<close> field\<close>
  pyd_float :: "pyval \<Rightarrow> pyfloat option"  \<comment> \<open>a strict \<open>float\<close> field\<close>
  text_decode :: "bytes \<Rightarrow> string option"  \<comment> \<open>the text \<open>json.loads\<close> reads from bytes\<close>
  too_deep :: "string \<Rightarrow> bool"  \<comment> \<open>the nesting of the text exhausts the interpreter's recursion limit in \<open>json.loads\<close>\<close>

definition ed25519_ok :: "ext_lib \<Rightarrow> bool" where
  \<comment> \<open>a signature verifies under the public key of the key that made it; public keys are 32 bytes\<close>
  "ed25519_ok L =
     (\<forall>sk. length (ed_public L sk) = 32 \<and> ed_public_ok L (ed_public L sk) \<and>
        (\<forall>m. ed_verify L (ed_public L sk) m (ed_sign L sk m)))"

definition pydantic_ok :: "ext_lib \<Rightarrow> bool" where
  \<comment> \<open>strict mode accepts a value of the declared type unchanged\<close>
  "pydantic_ok L =
     ((\<forall>s. pyd_str L (PStr s) = Some s) \<and> (\<forall>n. pyd_int L (PInt n) = Some n) \<and>
      (\<forall>f. pyd_float L (PFloat f) = Some f))"

definition text_ok :: "ext_lib \<Rightarrow> bool" where
  \<comment> \<open>printable ASCII is its own decoding\<close>
  "text_ok L =
     (\<forall>s. list_all (\<lambda>c. 32 \<le> (of_char c :: nat) \<and> of_char c < (127 :: nat)) s \<longrightarrow>
        text_decode L s = Some s)"

definition read_json :: "ext_lib \<Rightarrow> string \<Rightarrow> pyval result" where
  \<comment> \<open>\<open>json.loads\<close> of a text from outside: a \<open>ValueError\<close>, or the \<open>RecursionError\<close> of deep nesting\<close>
  "read_json L text = (if too_deep L text then Inl recursion_error else of_option ValueError (json_loads text))"

lemma read_json_eq_Inr [py_inv]: "read_json L text = Inr v \<longleftrightarrow> \<not> too_deep L text \<and> json_loads text = Some v"
  by (auto simp: read_json_def py_inv)

lemma read_json_eq_Inl [py_inv]:
  "read_json L text = Inl e \<longleftrightarrow>
     too_deep L text \<and> e = recursion_error \<or> \<not> too_deep L text \<and> json_loads text = None \<and> e = ValueError"
  by (auto simp: read_json_def py_inv)

section \<open>Base64url\<close>

definition b64_char :: "int \<Rightarrow> char" where
  "b64_char n =
     (if n < 26 then char_of (65 + n)
      else if n < 52 then char_of (71 + n)
      else if n < 62 then char_of (n - 4)
      else if n = 62 then CHR ''-'' else CHR ''_'')"

definition b64_val :: "char \<Rightarrow> int option" where
  "b64_val c =
     (let n = of_char c :: int
      in if 65 \<le> n \<and> n \<le> 90 then Some (n - 65)
         else if 97 \<le> n \<and> n \<le> 122 then Some (n - 71)
         else if 48 \<le> n \<and> n \<le> 57 then Some (n + 4)
         else if c = CHR ''-'' then Some 62
         else if c = CHR ''_'' then Some 63
         else None)"

abbreviation byte_val :: "char \<Rightarrow> int" where
  "byte_val c \<equiv> of_char c"

fun urlsafe_b64encode :: "bytes \<Rightarrow> string" where
  "urlsafe_b64encode [] = []"
| "urlsafe_b64encode [a] =
     [b64_char (byte_val a div 4), b64_char (byte_val a mod 4 * 16), CHR ''='', CHR ''='']"
| "urlsafe_b64encode [a, b] =
     [b64_char (byte_val a div 4), b64_char (byte_val a mod 4 * 16 + byte_val b div 16),
      b64_char (byte_val b mod 16 * 4), CHR ''='']"
| "urlsafe_b64encode (a # b # c # r) =
     [b64_char (byte_val a div 4), b64_char (byte_val a mod 4 * 16 + byte_val b div 16),
      b64_char (byte_val b mod 16 * 4 + byte_val c div 64), b64_char (byte_val c mod 64)]
     @ urlsafe_b64encode r"

text \<open>
  The decoder on groups of four, as \<open>b64url_decode\<close> calls it: the characters are in the
  alphabet and the padding is right. Bits that a padded group does not use are dropped.
\<close>

fun urlsafe_b64decode :: "string \<Rightarrow> bytes option" where
  "urlsafe_b64decode [] = Some []"
| "urlsafe_b64decode (w # x # y # z # r) =
     (case (b64_val w, b64_val x) of
        (Some i, Some j) \<Rightarrow>
          (if y = CHR ''='' then
             (if z = CHR ''='' \<and> r = [] then Some [char_of (i * 4 + j div 16)] else None)
           else case b64_val y of
             None \<Rightarrow> None
           | Some k \<Rightarrow>
               (if z = CHR ''='' then
                  (if r = [] then Some [char_of (i * 4 + j div 16), char_of (j mod 16 * 16 + k div 4)]
                   else None)
                else case (b64_val z, urlsafe_b64decode r) of
                  (Some l, Some bs) \<Rightarrow>
                    Some (char_of (i * 4 + j div 16) # char_of (j mod 16 * 16 + k div 4)
                          # char_of (k mod 4 * 64 + l) # bs)
                | _ \<Rightarrow> None))
      | _ \<Rightarrow> None)"
| "urlsafe_b64decode _ = None"

definition rstrip :: "char \<Rightarrow> string \<Rightarrow> string" where
  "rstrip c s = rev (dropWhile (\<lambda>x. x = c) (rev s))"

definition b64url_encode :: "bytes \<Rightarrow> string" where
  "b64url_encode data = rstrip CHR ''='' (urlsafe_b64encode data)"

definition b64url_decode :: "string \<Rightarrow> bytes result" where
  "b64url_decode data =
     (if \<not> list_all (\<lambda>c. b64_val c \<noteq> None) data \<or> length data mod 4 = 1 then Inl ValueError
      else
        let padding = replicate ((4 - length data mod 4) mod 4) CHR ''=''
        in (case urlsafe_b64decode (data @ padding) of
              None \<Rightarrow> Inl ValueError
            | Some decoded \<Rightarrow>
                (if b64url_encode decoded \<noteq> data then Inl ValueError else Inr decoded)))"

section \<open>Keys and signatures\<close>

record key_pair =
  private_key :: bytes
  public_key :: bytes

definition key_pair_of :: "ext_lib \<Rightarrow> bytes \<Rightarrow> key_pair" where
  \<comment> \<open>\<open>cls(private_key=k, public_key=k.public_key())\<close>, the end of every constructor\<close>
  "key_pair_of L sk = \<lparr>private_key = sk, public_key = ed_public L sk\<rparr>"

definition generate :: "ext_lib \<Rightarrow> ('w, bytes) py \<Rightarrow> ('w, key_pair) py" where
  \<comment> \<open>\<open>KeyPair.generate\<close>; drawing a private key is an action of the package\<close>
  "generate L new_key = abind new_key (\<lambda>sk. ret (key_pair_of L sk))"

definition from_private_bytes :: "ext_lib \<Rightarrow> bytes \<Rightarrow> key_pair result" where
  \<comment> \<open>every string of 32 bytes is an Ed25519 private key\<close>
  "from_private_bytes L raw = (if length raw = 32 then Inr (key_pair_of L raw) else Inl ValueError)"

datatype loaded_key = Ed25519_key bytes | Other_key

definition export_private_pem :: "(bytes \<Rightarrow> bytes) \<Rightarrow> key_pair \<Rightarrow> bytes" where
  \<comment> \<open>the PKCS8 text of a raw private key is a parameter\<close>
  "export_private_pem pem_of kp = pem_of (private_key kp)"

definition load_private_pem :: "ext_lib \<Rightarrow> (bytes \<Rightarrow> loaded_key result) \<Rightarrow> bytes \<Rightarrow> key_pair result" where
  \<comment> \<open>\<open>load_pem_private_key\<close> is a parameter; it may return a key of another algorithm\<close>
  "load_private_pem L load_pem pem_data =
     rbind (load_pem pem_data) (\<lambda>k.
     case k of Ed25519_key sk \<Rightarrow> Inr (key_pair_of L sk) | Other_key \<Rightarrow> Inl ValueError)"

definition public_key_id :: "key_pair \<Rightarrow> string" where
  "public_key_id kp = b64url_encode (public_key kp)"

definition sign :: "ext_lib \<Rightarrow> key_pair \<Rightarrow> bytes \<Rightarrow> bytes" where
  "sign L kp data = ed_sign L (private_key kp) data"

lemma pem_round_trip:
  assumes "load_pem (pem_of sk) = Inr (Ed25519_key sk)"
  shows "load_private_pem L load_pem (export_private_pem pem_of (key_pair_of L sk)) = Inr (key_pair_of L sk)"
  using assms by (simp add: load_private_pem_def export_private_pem_def key_pair_of_def)

definition verify_signature :: "ext_lib \<Rightarrow> bytes \<Rightarrow> bytes \<Rightarrow> bytes \<Rightarrow> unit result" where
  "verify_signature L pk data signature =
     rbind (ensure (ed_public_ok L pk) ValueError) (\<lambda>_.
     ensure (ed_verify L pk data signature) (swarm InvalidSignatureError))"

definition generate_jti :: "('x world_scheme, string) py" where
  "generate_jti = abind urandom (\<lambda>bs. ret (b64url_encode bs))"

section \<open>The codec is a bijection\<close>

lemma byte_val_range [simp]: "0 \<le> byte_val c" "byte_val c < 256"
  by (simp_all add: of_char_def)

lemma char_of_byte [simp]: "n = byte_val c \<Longrightarrow> char_of n = c"
  by simp

lemma char_of_eq_const:
  "0 \<le> n \<Longrightarrow> n < 256 \<Longrightarrow> (char_of n = c) = (n = byte_val c)" for n :: int
  by (auto simp: char_of_eq_iff take_bit_eq_mod)

lemma b64_char_cases:
  assumes "0 \<le> n" "n < 64"
  shows "b64_val (b64_char n) = Some n" and "b64_char n \<noteq> CHR ''=''" and "b64_char n \<noteq> CHR ''.''"
    and "byte_val (b64_char n) < 128" and "32 < byte_val (b64_char n)"
  using assms by (auto simp: b64_val_def b64_char_def Let_def char_of_eq_const)

lemma b64_val_range:
  assumes "b64_val c = Some n"
  shows "0 \<le> n" "n < 64" "b64_char n = c"
  using assms byte_val_range [of c]
  by (auto simp: b64_val_def b64_char_def Let_def split: if_splits)

lemma rstrip_append:
  assumes "xs \<noteq> []" "last xs \<noteq> c"
  shows "rstrip c (xs @ ys) = xs @ rstrip c ys"
proof -
  obtain zs z where xs: "xs = zs @ [z]" using assms(1) by (cases xs rule: rev_cases) auto
  with assms(2) show ?thesis
    by (cases "\<forall>y \<in> set ys. y = c") (auto simp: rstrip_def dropWhile_append)
qed

lemma rstrip_no_pad: "xs \<noteq> [] \<Longrightarrow> last xs \<noteq> c \<Longrightarrow> rstrip c xs = xs"
  using rstrip_append [of xs c "[]"] by (simp add: rstrip_def)

text \<open>The sextets of up to three bytes.\<close>

lemma sextet_range:
  "0 \<le> byte_val a div 4" "byte_val a div 4 < 64"
  "0 \<le> byte_val a mod 4 * 16" "byte_val a mod 4 * 16 < 64"
  "0 \<le> byte_val a mod 4 * 16 + byte_val b div 16" "byte_val a mod 4 * 16 + byte_val b div 16 < 64"
  "0 \<le> byte_val b mod 16 * 4" "byte_val b mod 16 * 4 < 64"
  "0 \<le> byte_val b mod 16 * 4 + byte_val c div 64" "byte_val b mod 16 * 4 + byte_val c div 64 < 64"
  "0 \<le> byte_val c mod 64" "byte_val c mod 64 < 64"
  using byte_val_range [of a] byte_val_range [of b] byte_val_range [of c] by linarith+

lemmas sextet_chars [simp] = b64_char_cases [OF sextet_range(1,2)] b64_char_cases [OF sextet_range(3,4)]
  b64_char_cases [OF sextet_range(5,6)] b64_char_cases [OF sextet_range(7,8)]
  b64_char_cases [OF sextet_range(9,10)] b64_char_cases [OF sextet_range(11,12)]

lemma high_bits [simp]: "byte_val b div 16 div 16 = 0" "byte_val c div 64 div 4 = 0"
  using byte_val_range [of b] byte_val_range [of c] by linarith+

lemma joined_bits [simp]:
  "byte_val b div 16 mod 16 * 16 + byte_val b mod 16 = byte_val b"
  "byte_val c div 64 mod 4 * 64 + byte_val c mod 64 = byte_val c"
proof -
  have "byte_val b div 16 mod 16 = byte_val b div 16" "byte_val c div 64 mod 4 = byte_val c div 64"
    by (rule mod_pos_pos_trivial; use byte_val_range [of b] byte_val_range [of c] in linarith)+
  then show "byte_val b div 16 mod 16 * 16 + byte_val b mod 16 = byte_val b"
      "byte_val c div 64 mod 4 * 64 + byte_val c mod 64 = byte_val c"
    by (simp_all only: div_mult_mod_eq)
qed

lemma b64url_encode_simps [simp]:
  "b64url_encode [] = []"
  "b64url_encode [a] = [b64_char (byte_val a div 4), b64_char (byte_val a mod 4 * 16)]"
  "b64url_encode [a, b] =
     [b64_char (byte_val a div 4), b64_char (byte_val a mod 4 * 16 + byte_val b div 16),
      b64_char (byte_val b mod 16 * 4)]"
  "b64url_encode (a # b # c # r) =
     [b64_char (byte_val a div 4), b64_char (byte_val a mod 4 * 16 + byte_val b div 16),
      b64_char (byte_val b mod 16 * 4 + byte_val c div 64), b64_char (byte_val c mod 64)]
     @ b64url_encode r"
proof -
  show "b64url_encode (a # b # c # r) =
     [b64_char (byte_val a div 4), b64_char (byte_val a mod 4 * 16 + byte_val b div 16),
      b64_char (byte_val b mod 16 * 4 + byte_val c div 64), b64_char (byte_val c mod 64)]
     @ b64url_encode r"
    unfolding b64url_encode_def urlsafe_b64encode.simps by (rule rstrip_append) simp_all
qed (simp_all add: b64url_encode_def rstrip_def)

lemma b64url_encode_alphabet:
  "c \<in> set (b64url_encode bs) \<Longrightarrow> b64_val c \<noteq> None"
  by (induction bs rule: urlsafe_b64encode.induct) auto

lemma b64url_encode_text:
  "c \<in> set (b64url_encode bs) \<Longrightarrow> c \<noteq> CHR ''.'' \<and> 32 < byte_val c \<and> byte_val c < 128"
  by (induction bs rule: urlsafe_b64encode.induct) auto

lemma length_plus_four [simp]: "Suc (Suc (Suc (Suc n))) mod 4 = n mod 4"
  by presburger

lemma b64url_padded:
  "b64url_encode bs @ replicate ((4 - length (b64url_encode bs) mod 4) mod 4) CHR ''='' = urlsafe_b64encode bs
   \<and> length (b64url_encode bs) mod 4 \<noteq> 1"
proof (induction bs rule: urlsafe_b64encode.induct)
  case (2 a)
  show ?case by (simp add: numeral_2_eq_2)
qed simp_all

lemma urlsafe_b64decode_encode: "urlsafe_b64decode (urlsafe_b64encode bs) = Some bs"
  by (induction bs rule: urlsafe_b64encode.induct) simp_all

lemma b64url_decode_encode [simp]: "b64url_decode (b64url_encode bs) = Inr bs"
  using b64url_padded [of bs] b64url_encode_alphabet [of _ bs]
  by (simp add: b64url_decode_def Let_def urlsafe_b64decode_encode list_all_iff)

lemma b64url_encode_decode: "b64url_decode s = Inr bs \<Longrightarrow> b64url_encode bs = s"
  by (auto simp: b64url_decode_def Let_def split: if_splits option.splits)

lemma b64url_decode_iff: "b64url_decode s = Inr bs \<longleftrightarrow> s = b64url_encode bs"
  using b64url_encode_decode by auto

lemma b64url_decode_error: "b64url_decode s = Inl e \<Longrightarrow> e = ValueError"
  by (auto simp: b64url_decode_def Let_def split: if_splits option.splits)

lemma b64url_encode_inj: "b64url_encode a = b64url_encode b \<Longrightarrow> a = b"
  by (metis b64url_decode_encode sum.inject(2))

section \<open>Properties\<close>

text \<open>C15. Base64url has one spelling per byte string. \<open>b64url_decode\<close> accepts exactly the strings
  \<open>b64url_encode\<close> writes and inverts it, so a token segment or a key id cannot be respelled (padding,
  foreign characters, unused bits) and still be accepted.\<close>

theorem base64url_one_spelling: "b64url_decode s = Inr bs \<longleftrightarrow> s = b64url_encode bs"
  by (rule b64url_decode_iff)

end
