(* ===== verification/Samples.thy ===== *)
theory Samples
  imports Revocation Crypto
begin

text \<open>
  Concrete arguments on which the theorems of the development are applied: a signature scheme and
  coercions that keep the documented behaviour \<open>ed25519_ok\<close>, \<open>pydantic_ok\<close> and \<open>text_ok\<close>, and a
  world whose clock counts up from an instant in whole seconds.
\<close>

definition sample_public :: "bytes \<Rightarrow> bytes" where
  "sample_public sk = take 32 (sk @ replicate 32 CHR ''p'')"

definition sample_lib :: ext_lib where
  "sample_lib =
     \<lparr>ed_public = sample_public,
      ed_sign = (\<lambda>sk m. sample_public sk @ m),
      ed_public_ok = (\<lambda>pk. length pk = 32),
      ed_verify = (\<lambda>pk m s. s = pk @ m),
      pyd_str = (\<lambda>v. case v of PStr s \<Rightarrow> Some s | _ \<Rightarrow> None),
      pyd_int = (\<lambda>v. case v of PInt n \<Rightarrow> Some n | _ \<Rightarrow> None),
      pyd_float = (\<lambda>v. case v of PFloat f \<Rightarrow> Some f | PInt n \<Rightarrow> Some (Fin (of_int n)) | _ \<Rightarrow> None),
      text_decode = Some, too_deep = (\<lambda>_. False)\<rparr>"

lemma sample_public_length: "length (sample_public sk) = 32"
  by (simp add: sample_public_def min_def)

lemma sample_lib_ok [simp]: "ed25519_ok sample_lib" "pydantic_ok sample_lib" "text_ok sample_lib"
  using sample_public_length
  by (simp_all add: ed25519_ok_def pydantic_ok_def text_ok_def sample_lib_def)

definition sample_world :: "int \<Rightarrow> world" where
  \<comment> \<open>the clock starts at the given second; the bytes of \<open>os.urandom\<close> are distinct\<close>
  "sample_world start =
     \<lparr>clock = (\<lambda>i. of_int start + of_nat i), ticks = 0, entropy = (\<lambda>i. replicate (Suc i) CHR ''r''), draws = 0,
      current_token = None\<rparr>"

definition sample_usd :: rat where
  "sample_usd = 2"

end
