(* ===== verification/Claims.thy ===== *)
theory Claims
  imports Crypto
begin

text \<open>
  The data model of \<open>swarmauth/token.py\<close>: \<open>Constraints\<close> and \<open>CapabilityClaims\<close>, their
  validators, and the JSON object that is signed. \<open>constraints_ok\<close> and \<open>claims_ok\<close> are the
  declared field bounds and the model's own validators; the \<open>validate_\<close> functions read an
  untrusted JSON value against the declarations (unknown keys are refused, an absent optional
  key takes its default), with the type of a scalar decided by the coercions of \<open>ext_lib\<close>.
\<close>

section \<open>Constraints\<close>

record constraints =
  max_calls :: "int option"
  max_amount_usd :: "pyfloat option"
  rate_limit_per_min :: "int option"
  allowed_params :: params
  shared_budget :: "string option"

definition no_constraints :: constraints where
  \<comment> \<open>\<open>Constraints()\<close>\<close>
  "no_constraints = \<lparr>max_calls = None, max_amount_usd = None, rate_limit_per_min = None,
     allowed_params = [], shared_budget = None\<rparr>"

function json_params_valid :: "pyval \<Rightarrow> bool" where
  "json_params_valid PNone = True"
| "json_params_valid (PStr s) = True"
| "json_params_valid (PBool b) = True"
| "json_params_valid (PInt n) = (\<bar>n\<bar> \<le> MAX_SAFE_INTEGER)"
| "json_params_valid (PFloat f) =
     (case f of
        Fin x \<Rightarrow> \<not> is_integer x \<or> \<bar>x\<bar> \<le> of_int MAX_SAFE_INTEGER
      | _ \<Rightarrow> False)"
| "json_params_valid (PList xs) = list_all json_params_valid xs"
| "json_params_valid (PTuple xs) = False"
| "json_params_valid (PDict d) = list_all (\<lambda>(k, v). json_params_valid v) d"
  by pat_completeness auto
termination
  by (relation "measure size") (auto dest: size_list_mem size_dict_mem)

definition safe_minor :: "pyval \<Rightarrow> int option" where
  \<comment> \<open>the pinned \<open>amount_minor\<close>: a non-negative safe integer, possibly written as a float\<close>
  "safe_minor v =
     (case v of
        PInt n \<Rightarrow> if 0 \<le> n \<and> n \<le> MAX_SAFE_INTEGER then Some n else None
      | PFloat (Fin x) \<Rightarrow>
          if 0 \<le> x \<and> x \<le> of_int MAX_SAFE_INTEGER \<and> is_integer x then Some \<lfloor>x\<rfloor> else None
      | _ \<Rightarrow> None)"

definition is_upper :: "char \<Rightarrow> bool" where
  "is_upper c = (CHR ''A'' \<le> c \<and> c \<le> CHR ''Z'')"

definition currency_code :: "pyval \<Rightarrow> bool" where
  "currency_code v = (case v of PStr s \<Rightarrow> length s = 3 \<and> list_all is_upper s | _ \<Rightarrow> False)"

definition budget_pins :: "constraints \<Rightarrow> bool" where
  "budget_pins c =
     (case shared_budget c of
        None \<Rightarrow> True
      | Some b \<Rightarrow>
          py_eq (dict_get (allowed_params c) ''budget_id'') (PStr b) \<and>
          safe_minor (dict_get (allowed_params c) ''amount_minor'') \<noteq> None \<and>
          currency_code (dict_get (allowed_params c) ''currency''))"

definition count_limit_ok :: "int \<Rightarrow> bool" where
  "count_limit_ok n = (1 \<le> n \<and> n \<le> MAX_SAFE_INTEGER)"

definition amount_limit_ok :: "pyfloat \<Rightarrow> bool" where
  "amount_limit_ok f = (case f of Fin x \<Rightarrow> 0 \<le> x | _ \<Rightarrow> False)"

definition constraints_ok :: "constraints \<Rightarrow> bool" where
  "constraints_ok c =
     (pred_option count_limit_ok (max_calls c) \<and>
      pred_option amount_limit_ok (max_amount_usd c) \<and>
      pred_option count_limit_ok (rate_limit_per_min c) \<and>
      json_params_valid (PDict (allowed_params c)) \<and>
      pred_option (\<lambda>b. b \<noteq> []) (shared_budget c) \<and>
      budget_pins c)"

definition make_constraints :: "constraints \<Rightarrow> constraints result" where
  \<comment> \<open>\<open>Constraints(...)\<close> with arguments of the declared types\<close>
  "make_constraints c = rbind (ensure (constraints_ok c) ValueError) (\<lambda>_. Inr c)"

definition optional_field :: "(pyval \<Rightarrow> 'a option) \<Rightarrow> params \<Rightarrow> string \<Rightarrow> 'a option result" where
  \<comment> \<open>a field \<open>Optional[T] = None\<close>\<close>
  "optional_field coerce d k =
     (case map_of d k of
        None \<Rightarrow> Inr None
      | Some PNone \<Rightarrow> Inr None
      | Some v \<Rightarrow> (case coerce v of None \<Rightarrow> Inl ValueError | Some x \<Rightarrow> Inr (Some x)))"

definition required_field :: "(pyval \<Rightarrow> 'a option) \<Rightarrow> params \<Rightarrow> string \<Rightarrow> 'a result" where
  "required_field coerce d k =
     (case map_of d k of
        None \<Rightarrow> Inl ValueError
      | Some v \<Rightarrow> of_option ValueError (coerce v))"

definition forbid_extra :: "string list \<Rightarrow> params \<Rightarrow> unit result" where
  "forbid_extra names d = ensure (list_all (\<lambda>k. k \<in> set names) (dict_keys d)) ValueError"

definition validate_constraints :: "ext_lib \<Rightarrow> pyval \<Rightarrow> constraints result" where
  "validate_constraints L v =
     (case v of
        PDict d \<Rightarrow>
          rbind (forbid_extra [''max_calls'', ''max_amount_usd'', ''rate_limit_per_min'',
                   ''allowed_params'', ''shared_budget''] d) (\<lambda>_.
          rbind (optional_field (pyd_int L) d ''max_calls'') (\<lambda>calls.
          rbind (optional_field (pyd_float L) d ''max_amount_usd'') (\<lambda>amount.
          rbind (optional_field (pyd_int L) d ''rate_limit_per_min'') (\<lambda>rate.
          rbind (case map_of d ''allowed_params'' of
                   None \<Rightarrow> Inr []
                 | Some (PDict p) \<Rightarrow> Inr p
                 | Some _ \<Rightarrow> Inl ValueError) (\<lambda>pins.
          rbind (optional_field (pyd_str L) d ''shared_budget'') (\<lambda>budget.
          make_constraints \<lparr>max_calls = calls, max_amount_usd = amount, rate_limit_per_min = rate,
            allowed_params = pins, shared_budget = budget\<rparr>))))))
      | _ \<Rightarrow> Inl ValueError)"

section \<open>Claims\<close>

record capability_claims =
  iss :: string
  sub :: string
  capabilities :: "string list"
  constraints :: constraints
  iat :: int
  exp_at :: int  \<comment> \<open>\<open>exp\<close>\<close>
  jti :: string
  dlg :: "string option"
  prf_token :: "string option"  \<comment> \<open>\<open>prf\<close>\<close>

definition timestamp_ok :: "int \<Rightarrow> bool" where
  "timestamp_ok n = (- MAX_SAFE_INTEGER \<le> n \<and> n \<le> MAX_SAFE_INTEGER)"

definition claims_ok :: "capability_claims \<Rightarrow> bool" where
  "claims_ok c =
     (iss c \<noteq> [] \<and> sub c \<noteq> [] \<and>
      capabilities c \<noteq> [] \<and> list_all (\<lambda>k. k \<noteq> []) (capabilities c) \<and>
      timestamp_ok (iat c) \<and> timestamp_ok (exp_at c) \<and> jti c \<noteq> [] \<and>
      pred_option (\<lambda>d. d \<noteq> []) (dlg c) \<and> pred_option (\<lambda>p. p \<noteq> []) (prf_token c) \<and>
      iat c < exp_at c)"

definition make_claims :: "capability_claims \<Rightarrow> capability_claims result" where
  \<comment> \<open>\<open>CapabilityClaims(...)\<close> with arguments of the declared types\<close>
  "make_claims c = rbind (ensure (claims_ok c) ValueError) (\<lambda>_. Inr c)"

definition string_list :: "ext_lib \<Rightarrow> pyval \<Rightarrow> string list option" where
  "string_list L v =
     (case v of
        PList xs \<Rightarrow>
          (case traverse (\<lambda>x. of_option () (pyd_str L x)) xs of
             Inl _ \<Rightarrow> None | Inr ys \<Rightarrow> Some ys)
      | _ \<Rightarrow> None)"

definition validate_claims :: "ext_lib \<Rightarrow> pyval \<Rightarrow> capability_claims result" where
  \<comment> \<open>\<open>CapabilityClaims.model_validate(payload)\<close>, for a payload that has \<open>jti\<close>\<close>
  "validate_claims L v =
     (case v of
        PDict d \<Rightarrow>
          rbind (forbid_extra [''iss'', ''sub'', ''capabilities'', ''constraints'', ''iat'', ''exp'',
                   ''jti'', ''dlg'', ''prf''] d) (\<lambda>_.
          rbind (required_field (pyd_str L) d ''iss'') (\<lambda>issuer.
          rbind (required_field (pyd_str L) d ''sub'') (\<lambda>subject.
          rbind (required_field (string_list L) d ''capabilities'') (\<lambda>caps.
          rbind (case map_of d ''constraints'' of
                   None \<Rightarrow> Inr no_constraints
                 | Some c \<Rightarrow> validate_constraints L c) (\<lambda>limits.
          rbind (required_field (pyd_int L) d ''iat'') (\<lambda>issued.
          rbind (required_field (pyd_int L) d ''exp'') (\<lambda>expires.
          rbind (required_field (pyd_str L) d ''jti'') (\<lambda>token_id.
          rbind (optional_field (pyd_str L) d ''dlg'') (\<lambda>delegate.
          rbind (optional_field (pyd_str L) d ''prf'') (\<lambda>proof.
          make_claims \<lparr>iss = issuer, sub = subject, capabilities = caps, constraints = limits,
            iat = issued, exp_at = expires, jti = token_id, dlg = delegate, prf_token = proof\<rparr>))))))))))
      | _ \<Rightarrow> Inl ValueError)"

section \<open>The signed JSON object\<close>

definition opt_value :: "('a \<Rightarrow> pyval) \<Rightarrow> 'a option \<Rightarrow> pyval" where
  "opt_value f x = (case x of None \<Rightarrow> PNone | Some y \<Rightarrow> f y)"

definition opt_entry :: "string \<Rightarrow> string option \<Rightarrow> params" where
  \<comment> \<open>an entry that is dropped when it is None\<close>
  "opt_entry k x = (case x of None \<Rightarrow> [] | Some s \<Rightarrow> [(k, PStr s)])"

definition constraints_wire_dict :: "constraints \<Rightarrow> pyval" where
  "constraints_wire_dict c =
     PDict ([(''max_calls'', opt_value PInt (max_calls c)),
             (''max_amount_usd'', opt_value PFloat (max_amount_usd c)),
             (''rate_limit_per_min'', opt_value PInt (rate_limit_per_min c)),
             (''allowed_params'', PDict (allowed_params c))]
            @ opt_entry ''shared_budget'' (shared_budget c))"

definition claims_wire_dict :: "capability_claims \<Rightarrow> pyval" where
  "claims_wire_dict c =
     PDict ([(''iss'', PStr (iss c)), (''sub'', PStr (sub c)),
             (''capabilities'', PList (List.map PStr (capabilities c))),
             (''constraints'', constraints_wire_dict (constraints c)),
             (''iat'', PInt (iat c)), (''exp'', PInt (exp_at c)), (''jti'', PStr (jti c))]
            @ opt_entry ''dlg'' (dlg c) @ opt_entry ''prf'' (prf_token c))"

section \<open>What validation establishes\<close>

lemma make_constraints_eq_Inr [py_inv]: "make_constraints c = Inr c' \<longleftrightarrow> c' = c \<and> constraints_ok c"
  by (auto simp: make_constraints_def py_inv)

lemma make_claims_eq_Inr [py_inv]: "make_claims c = Inr c' \<longleftrightarrow> c' = c \<and> claims_ok c"
  by (auto simp: make_claims_def py_inv)

lemma no_constraints_ok [simp]: "constraints_ok no_constraints"
  by (simp add: constraints_ok_def no_constraints_def budget_pins_def)

lemma validate_constraints_ok: "validate_constraints L v = Inr c \<Longrightarrow> constraints_ok c"
  by (cases v) (auto simp: validate_constraints_def py_inv)

lemma validate_claims_ok:
  "validate_claims L v = Inr c \<Longrightarrow> claims_ok c \<and> constraints_ok (constraints c)"
  by (cases v) (auto simp: validate_claims_def py_inv split: option.splits dest: validate_constraints_ok)

section \<open>Round trip through the signed object\<close>

lemma validate_wire_constraints:
  assumes "pydantic_ok L" "constraints_ok c"
  shows "validate_constraints L (constraints_wire_dict c) = Inr c"
proof (cases c)
  case (fields calls amount rate pins budget)
  with assms show ?thesis
    by (cases calls; cases amount; cases rate; cases budget)
       (simp_all add: validate_constraints_def constraints_wire_dict_def forbid_extra_def dict_keys_def
         optional_field_def opt_value_def opt_entry_def pydantic_ok_def make_constraints_def)
qed

lemma traverse_strings:
  "pydantic_ok L \<Longrightarrow>
   traverse (\<lambda>x. of_option () (pyd_str L x)) (List.map PStr ss) = Inr ss"
  by (induction ss) (simp_all add: pydantic_ok_def)

lemma validate_wire_claims:
  assumes "pydantic_ok L" "claims_ok c" "constraints_ok (constraints c)"
  shows "validate_claims L (claims_wire_dict c) = Inr c"
proof (cases c)
  case (fields i s caps l ia e j d p)
  have "string_list L (PList (List.map PStr caps)) = Some caps"
    using traverse_strings [OF assms(1)] by (simp add: string_list_def)
  with fields show ?thesis
    using assms validate_wire_constraints [OF assms(1,3)]
    by (cases d; cases p)
       (simp_all add: validate_claims_def claims_wire_dict_def forbid_extra_def dict_keys_def
         required_field_def optional_field_def opt_entry_def pydantic_ok_def make_claims_def)
qed

end
