(* ===== verification/Registry.thy ===== *)
theory Registry
  imports Runtime
begin

text \<open>
  \<open>swarmauth/registry.py\<close>: the verifier's trust store. Root keys and holder keys live in two
  dictionaries from an agent id to its keys, newest first. Both dictionaries offer the same
  contract to the verifier (add a key, drop a key, list the keys), which is the locale
  \<open>key_store\<close>; it is interpreted once on the root keys (with \<open>rotate=True\<close>) and once on
  the holder keys. The whole registry refines a log: a key is trusted exactly when the last
  operation on it that matters added it.
\<close>

section \<open>State and operations\<close>

record key_registry =
  root_keys :: "string \<rightharpoonup> bytes list"
  holder_keys :: "string \<rightharpoonup> bytes list"

definition empty_registry :: key_registry where
  "empty_registry = \<lparr>root_keys = Map.empty, holder_keys = Map.empty\<rparr>"

definition get_keys :: "(string \<rightharpoonup> bytes list) \<Rightarrow> string \<Rightarrow> bytes list" where
  \<comment> \<open>\<open>d.get(iss, [])\<close>\<close>
  "get_keys d iss = (case d iss of None \<Rightarrow> [] | Some ks \<Rightarrow> ks)"

definition register :: "string \<Rightarrow> bytes \<Rightarrow> bool \<Rightarrow> key_registry \<Rightarrow> key_registry" where
  "register iss public_key rot R =
     (case root_keys R iss of
        Some ks \<Rightarrow>
          (if rot
           then R\<lparr>root_keys := (root_keys R)(iss \<mapsto> public_key # filter (\<lambda>k. k \<noteq> public_key) ks)\<rparr>
           else R\<lparr>root_keys := (root_keys R)(iss \<mapsto> [public_key])\<rparr>)
      | None \<Rightarrow> R\<lparr>root_keys := (root_keys R)(iss \<mapsto> [public_key])\<rparr>)"

definition drop_key ::
  "string \<Rightarrow> bytes \<Rightarrow> (string \<rightharpoonup> bytes list) \<Rightarrow> (string \<rightharpoonup> bytes list)" where
  \<comment> \<open>the common body of \<open>revoke\<close> and \<open>revoke_holder\<close>\<close>
  "drop_key iss public_key d =
     (let remaining = filter (\<lambda>k. k \<noteq> public_key) (get_keys d iss)
      in if remaining \<noteq> [] then d(iss \<mapsto> remaining) else d(iss := None))"

definition revoke :: "string \<Rightarrow> bytes \<Rightarrow> key_registry \<Rightarrow> key_registry" where
  "revoke iss public_key R = R\<lparr>root_keys := drop_key iss public_key (root_keys R)\<rparr>"

definition revoke_issuer :: "string \<Rightarrow> key_registry \<Rightarrow> key_registry" where
  "revoke_issuer iss R =
     R\<lparr>root_keys := (root_keys R)(iss := None), holder_keys := (holder_keys R)(iss := None)\<rparr>"

definition register_holder :: "string \<Rightarrow> bytes \<Rightarrow> key_registry \<Rightarrow> key_registry" where
  "register_holder iss public_key R =
     (let existing = filter (\<lambda>k. k \<noteq> public_key) (get_keys (holder_keys R) iss)
      in R\<lparr>holder_keys := (holder_keys R)(iss \<mapsto> public_key # existing)\<rparr>)"

definition revoke_holder :: "string \<Rightarrow> bytes \<Rightarrow> key_registry \<Rightarrow> key_registry" where
  "revoke_holder iss public_key R = R\<lparr>holder_keys := drop_key iss public_key (holder_keys R)\<rparr>"

definition keys_for :: "key_registry \<Rightarrow> string \<Rightarrow> bytes list result" where
  "keys_for R iss =
     (let keys = get_keys (root_keys R) iss
      in if keys = [] then Inl (swarm UnknownIssuerError) else Inr keys)"

definition holder_keys_for :: "key_registry \<Rightarrow> string \<Rightarrow> bytes list result" where
  "holder_keys_for R iss =
     (let keys = get_keys (holder_keys R) iss
      in if keys = [] then Inl (swarm UnknownIssuerError) else Inr keys)"

definition is_known :: "key_registry \<Rightarrow> string \<Rightarrow> bool" where
  "is_known R iss = (case root_keys R iss of None \<Rightarrow> False | Some ks \<Rightarrow> ks \<noteq> [])"

section \<open>The registry invariant\<close>

text \<open>No agent maps to an empty or repeating key list.\<close>

definition keys_wf :: "(string \<rightharpoonup> bytes list) \<Rightarrow> bool" where
  "keys_wf d = (\<forall>iss ks. d iss = Some ks \<longrightarrow> ks \<noteq> [] \<and> distinct ks)"

definition registry_wf :: "key_registry \<Rightarrow> bool" where
  "registry_wf R = (keys_wf (root_keys R) \<and> keys_wf (holder_keys R))"

lemma get_keys_simps [simp]:
  "d iss = None \<Longrightarrow> get_keys d iss = []"
  "d iss = Some ks \<Longrightarrow> get_keys d iss = ks"
  by (simp_all add: get_keys_def)

lemma get_keys_upd [simp]:
  "get_keys (d(iss := v)) iss' = (if iss' = iss then (case v of None \<Rightarrow> [] | Some ks \<Rightarrow> ks) else get_keys d iss')"
  by (simp add: get_keys_def)

lemma keys_wf_upd: "keys_wf d \<Longrightarrow> ks \<noteq> [] \<Longrightarrow> distinct ks \<Longrightarrow> keys_wf (d(iss \<mapsto> ks))"
  by (auto simp: keys_wf_def)

lemma keys_wf_del: "keys_wf d \<Longrightarrow> keys_wf (d(iss := None))"
  by (auto simp: keys_wf_def)

lemma keys_wf_distinct: "keys_wf d \<Longrightarrow> distinct (get_keys d iss)"
  by (cases "d iss") (auto simp: keys_wf_def)

lemma keys_wf_nonempty: "keys_wf d \<Longrightarrow> get_keys d iss = [] \<longleftrightarrow> d iss = None"
  by (cases "d iss") (auto simp: keys_wf_def)

lemma keys_wf_drop_key: "keys_wf d \<Longrightarrow> keys_wf (drop_key iss k d)"
  by (simp add: drop_key_def Let_def keys_wf_upd keys_wf_del keys_wf_distinct)

lemma set_drop_key:
  "set (get_keys (drop_key iss k d) iss') =
     (if iss' = iss then set (get_keys d iss) - {k} else set (get_keys d iss'))"
  by (auto simp: drop_key_def Let_def filter_empty_conv split: if_splits)

section \<open>Operation logs\<close>

datatype registry_op =
    Register string bytes bool
  | Revoke string bytes
  | RevokeIssuer string
  | RegisterHolder string bytes
  | RevokeHolder string bytes

fun registry_step :: "registry_op \<Rightarrow> key_registry \<Rightarrow> key_registry" where
  "registry_step (Register iss k rot) R = register iss k rot R"
| "registry_step (Revoke iss k) R = revoke iss k R"
| "registry_step (RevokeIssuer iss) R = revoke_issuer iss R"
| "registry_step (RegisterHolder iss k) R = register_holder iss k R"
| "registry_step (RevokeHolder iss k) R = revoke_holder iss k R"

definition registry_run :: "registry_op list \<Rightarrow> key_registry \<Rightarrow> key_registry" where
  "registry_run ops R = fold registry_step ops R"

lemma registry_step_wf: "registry_wf R \<Longrightarrow> registry_wf (registry_step op R)"
proof (cases op)
  case (Register iss k rot)
  assume "registry_wf R"
  with Register show ?thesis
    by (auto simp: registry_wf_def register_def split: option.splits
        intro!: keys_wf_upd dest: keys_wf_distinct[where iss = iss])
qed (auto simp: registry_wf_def revoke_def revoke_issuer_def register_holder_def revoke_holder_def
    Let_def keys_wf_drop_key keys_wf_del keys_wf_distinct intro!: keys_wf_upd)

lemma registry_run_wf: "registry_wf R \<Longrightarrow> registry_wf (registry_run ops R)"
  unfolding registry_run_def by (induction ops arbitrary: R) (auto simp: registry_step_wf)

lemma empty_registry_wf: "registry_wf empty_registry"
  by (simp add: registry_wf_def keys_wf_def empty_registry_def)

text \<open>
  The abstract specification: what one operation decides about one root key (\<open>Some True\<close>
  trusted, \<open>Some False\<close> not trusted, \<open>None\<close> no decision), and about one holder key.
\<close>

fun root_verdict :: "string \<Rightarrow> bytes \<Rightarrow> registry_op \<Rightarrow> bool option" where
  "root_verdict iss k (Register iss' k' rot) =
     (if iss' \<noteq> iss then None
      else if k' = k then Some True
      else if rot then None else Some False)"
| "root_verdict iss k (Revoke iss' k') = (if iss' = iss \<and> k' = k then Some False else None)"
| "root_verdict iss k (RevokeIssuer iss') = (if iss' = iss then Some False else None)"
| "root_verdict iss k (RegisterHolder iss' k') = None"
| "root_verdict iss k (RevokeHolder iss' k') = None"

fun holder_verdict :: "string \<Rightarrow> bytes \<Rightarrow> registry_op \<Rightarrow> bool option" where
  "holder_verdict iss k (Register iss' k' rot) = None"
| "holder_verdict iss k (Revoke iss' k') = None"
| "holder_verdict iss k (RevokeIssuer iss') = (if iss' = iss then Some False else None)"
| "holder_verdict iss k (RegisterHolder iss' k') =
     (if iss' = iss \<and> k' = k then Some True else None)"
| "holder_verdict iss k (RevokeHolder iss' k') =
     (if iss' = iss \<and> k' = k then Some False else None)"

definition trusted_by_log :: "('op \<Rightarrow> bool option) \<Rightarrow> 'op list \<Rightarrow> bool \<Rightarrow> bool" where
  "trusted_by_log verdict ops before =
     fold (\<lambda>op b. case verdict op of None \<Rightarrow> b | Some b' \<Rightarrow> b') ops before"

lemma root_step:
  "k \<in> set (get_keys (root_keys (registry_step op R)) iss) \<longleftrightarrow>
     (case root_verdict iss k op of None \<Rightarrow> k \<in> set (get_keys (root_keys R) iss) | Some b \<Rightarrow> b)"
  by (cases op) (auto simp: register_def revoke_def revoke_issuer_def register_holder_def
      revoke_holder_def set_drop_key Let_def split: option.splits if_splits)

lemma holder_step:
  "k \<in> set (get_keys (holder_keys (registry_step op R)) iss) \<longleftrightarrow>
     (case holder_verdict iss k op of None \<Rightarrow> k \<in> set (get_keys (holder_keys R) iss) | Some b \<Rightarrow> b)"
  by (cases op) (auto simp: register_def revoke_def revoke_issuer_def register_holder_def
      revoke_holder_def set_drop_key Let_def split: option.splits if_splits)

lemma log_run:
  assumes step: "\<And>op R. P (registry_step op R) \<longleftrightarrow> (case verdict op of None \<Rightarrow> P R | Some b \<Rightarrow> b)"
  shows "P (registry_run ops R) \<longleftrightarrow> trusted_by_log verdict ops (P R)"
  unfolding registry_run_def trusted_by_log_def
proof (induction ops arbitrary: R)
  case Nil
  then show ?case by simp
next
  case (Cons op ops)
  have "P (fold registry_step (op # ops) R) \<longleftrightarrow>
      fold (\<lambda>op b. case verdict op of None \<Rightarrow> b | Some b' \<Rightarrow> b') ops (P (registry_step op R))"
    using Cons by simp
  then show ?case by (simp add: step)
qed

lemma keys_for_eq_Inr:
  "keys_for R iss = Inr ks \<longleftrightarrow> ks = get_keys (root_keys R) iss \<and> ks \<noteq> []"
  by (auto simp: keys_for_def Let_def)

lemma holder_keys_for_eq_Inr:
  "holder_keys_for R iss = Inr ks \<longleftrightarrow> ks = get_keys (holder_keys R) iss \<and> ks \<noteq> []"
  by (auto simp: holder_keys_for_def Let_def)

section \<open>The contract of one key dictionary\<close>

locale key_store =
  fixes add :: "string \<Rightarrow> bytes \<Rightarrow> 's \<Rightarrow> 's"
    and del :: "string \<Rightarrow> bytes \<Rightarrow> 's \<Rightarrow> 's"
    and lookup :: "'s \<Rightarrow> string \<Rightarrow> bytes list result"
    and wf :: "'s \<Rightarrow> bool"
  assumes lookup_add_new:
      "wf s \<Longrightarrow> lookup s iss = Inl e \<Longrightarrow> lookup (add iss k s) iss = Inr [k]"
    and lookup_add_more:
      "wf s \<Longrightarrow> lookup s iss = Inr ks \<Longrightarrow>
         lookup (add iss k s) iss = Inr (k # filter (\<lambda>k'. k' \<noteq> k) ks)"
    and lookup_add_other: "iss' \<noteq> iss \<Longrightarrow> lookup (add iss k s) iss' = lookup s iss'"
    and lookup_del:
      "wf s \<Longrightarrow> lookup s iss = Inr ks \<Longrightarrow>
         lookup (del iss k s) iss =
           (if filter (\<lambda>k'. k' \<noteq> k) ks = [] then Inl (swarm UnknownIssuerError)
            else Inr (filter (\<lambda>k'. k' \<noteq> k) ks))"
    and lookup_del_other: "iss' \<noteq> iss \<Longrightarrow> lookup (del iss k s) iss' = lookup s iss'"
    and wf_add: "wf s \<Longrightarrow> wf (add iss k s)"
    and wf_del: "wf s \<Longrightarrow> wf (del iss k s)"
begin

text \<open>
  A rollover: the new key is added in front, both keys are listed until the old one is
  dropped, and dropping the old key leaves the new one first in line.
\<close>

lemma rollover:
  assumes "wf s" "lookup s iss = Inr ks" "old \<in> set ks" "fresh \<noteq> old"
  shows "\<exists>during after.
           lookup (add iss fresh s) iss = Inr (fresh # during) \<and> old \<in> set during \<and>
           lookup (del iss old (add iss fresh s)) iss = Inr (fresh # after) \<and>
           old \<notin> set after \<and> set after \<subseteq> set ks"
proof -
  let ?during = "filter (\<lambda>k'. k' \<noteq> fresh) ks"
  have d: "lookup (add iss fresh s) iss = Inr (fresh # ?during)"
    using assms by (simp add: lookup_add_more)
  have "lookup (del iss old (add iss fresh s)) iss =
      Inr (fresh # filter (\<lambda>k'. k' \<noteq> old) ?during)"
    using assms d by (simp add: lookup_del wf_add)
  with d assms(3,4) show ?thesis by auto
qed

lemma del_last_key_unknown:
  assumes "wf s" "lookup s iss = Inr [k]"
  shows "lookup (del iss k s) iss = Inl (swarm UnknownIssuerError)"
  using assms by (simp add: lookup_del)

end

lemma keys_for_drop_key:
  "keys_for R iss = Inr ks \<Longrightarrow>
   keys_for (R\<lparr>root_keys := drop_key iss k (root_keys R)\<rparr>) iss =
     (if filter (\<lambda>k'. k' \<noteq> k) ks = [] then Inl (swarm UnknownIssuerError)
      else Inr (filter (\<lambda>k'. k' \<noteq> k) ks))"
  by (auto simp: keys_for_def Let_def drop_key_def split: if_splits)

lemma holder_keys_for_drop_key:
  "holder_keys_for R iss = Inr ks \<Longrightarrow>
   holder_keys_for (R\<lparr>holder_keys := drop_key iss k (holder_keys R)\<rparr>) iss =
     (if filter (\<lambda>k'. k' \<noteq> k) ks = [] then Inl (swarm UnknownIssuerError)
      else Inr (filter (\<lambda>k'. k' \<noteq> k) ks))"
  by (auto simp: holder_keys_for_def Let_def drop_key_def split: if_splits)

interpretation roots: key_store "\<lambda>iss k. register iss k True" revoke keys_for registry_wf
proof unfold_locales
  fix R :: key_registry and iss e k
  assume "registry_wf R" "keys_for R iss = Inl e"
  then show "keys_for (register iss k True R) iss = Inr [k]"
    by (cases "root_keys R iss")
       (auto simp: keys_for_def register_def Let_def registry_wf_def keys_wf_def)
next
  fix R :: key_registry and iss ks k
  assume "keys_for R iss = Inr ks"
  then show "keys_for (register iss k True R) iss = Inr (k # filter (\<lambda>k'. k' \<noteq> k) ks)"
    by (cases "root_keys R iss") (auto simp: keys_for_def register_def Let_def split: if_splits)
next
  fix R :: key_registry and iss k
  assume "registry_wf R"
  then show "registry_wf (register iss k True R)" "registry_wf (revoke iss k R)"
    using registry_step_wf [of R "Register iss k True"] registry_step_wf [of R "Revoke iss k"]
    by simp_all
qed (auto simp: revoke_def keys_for_drop_key keys_for_def Let_def register_def drop_key_def
    split: option.splits if_splits)

interpretation holders: key_store register_holder revoke_holder holder_keys_for registry_wf
proof unfold_locales
  fix R :: key_registry and iss k
  assume "registry_wf R"
  then show "registry_wf (register_holder iss k R)" "registry_wf (revoke_holder iss k R)"
    using registry_step_wf [of R "RegisterHolder iss k"] registry_step_wf [of R "RevokeHolder iss k"]
    by simp_all
qed (auto simp: revoke_holder_def register_holder_def holder_keys_for_drop_key
    holder_keys_for_def Let_def drop_key_def split: if_splits)

section \<open>Properties\<close>

text \<open>C12. Trust follows the log of operations. After any sequence of registry operations on an empty
  registry, \<open>keys_for\<close> lists a key for an agent exactly when the last operation that decides about
  that key trusts it (a registration of it, against a revocation of it or of the agent, or the
  registration of another key without rotation); \<open>holder_keys_for\<close> does the same for holder keys,
  and neither kind of key ever passes for the other.\<close>

theorem keys_follow_log:
  "((\<exists>ks. keys_for (registry_run ops empty_registry) agent = Inr ks \<and> key \<in> set ks) \<longleftrightarrow>
      trusted_by_log (root_verdict agent key) ops False) \<and>
   ((\<exists>ks. holder_keys_for (registry_run ops empty_registry) agent = Inr ks \<and> key \<in> set ks) \<longleftrightarrow>
      trusted_by_log (holder_verdict agent key) ops False)"
proof -
  have "key \<in> set (get_keys (root_keys empty_registry) agent) \<longleftrightarrow> False"
      "key \<in> set (get_keys (holder_keys empty_registry) agent) \<longleftrightarrow> False"
    by (simp_all add: empty_registry_def)
  with log_run [of "\<lambda>R. key \<in> set (get_keys (root_keys R) agent)" "root_verdict agent key" ops empty_registry,
      OF root_step]
    log_run [of "\<lambda>R. key \<in> set (get_keys (holder_keys R) agent)" "holder_verdict agent key" ops empty_registry,
      OF holder_step]
  show ?thesis by (auto simp: keys_for_eq_Inr holder_keys_for_eq_Inr)
qed

text \<open>Key rollover. Registering a new root key with rotation puts it first and keeps the old key
  trusted; revoking the old key afterwards leaves the new key first and the old one untrusted. At no
  point in between is the agent unknown.\<close>

theorem root_rollover:
  assumes "keys_for (registry_run ops empty_registry) agent = Inr ks" "old \<in> set ks" "new \<noteq> old"
  shows "\<exists>during after.
     keys_for (registry_run (ops @ [Register agent new True]) empty_registry) agent = Inr (new # during) \<and>
     old \<in> set during \<and>
     keys_for (registry_run (ops @ [Register agent new True, Revoke agent old]) empty_registry) agent =
       Inr (new # after) \<and>
     old \<notin> set after \<and> set after \<subseteq> set ks"
proof -
  have "registry_wf (registry_run ops empty_registry)"
    by (rule registry_run_wf [OF empty_registry_wf])
  from roots.rollover [OF this assms] show ?thesis by (simp add: registry_run_def)
qed

theorem root_rollover_witness:
  "\<exists>during after.
     keys_for (registry_run ([Register ''a'' ''k1'' False] @ [Register ''a'' ''k2'' True]) empty_registry) ''a'' =
       Inr (''k2'' # during) \<and> ''k1'' \<in> set during \<and>
     keys_for (registry_run ([Register ''a'' ''k1'' False] @ [Register ''a'' ''k2'' True, Revoke ''a'' ''k1''])
       empty_registry) ''a'' = Inr (''k2'' # after) \<and> ''k1'' \<notin> set after \<and> set after \<subseteq> {''k1''}"
  using root_rollover [of "[Register ''a'' ''k1'' False]" "''a''" "[''k1'']" "''k1''" "''k2''"]
  by (simp add: registry_run_def empty_registry_def register_def revoke_def drop_key_def keys_for_def get_keys_def)

end
