(* ===== verification/Token.thy ===== *)
theory Token
  imports Samples Claims Registry "HOL-Library.Sublist"
begin

text \<open>
  The functions of \<open>swarmauth/token.py\<close>: capability matching, attenuation rules, signing,
  parsing, verification and delegation. The verifier is an action on the world, since it reads
  the clock and asks the revocation store; the store is any object with an \<open>is_revoked\<close>
  method, given as that method.
\<close>

section \<open>Capabilities and limits\<close>

fun capability_covered :: "string \<Rightarrow> string list \<Rightarrow> bool" where
  "capability_covered capability [] = False"
| "capability_covered capability (item # granted) =
     (if capability = item then True
      else if suffix '':*'' item \<and> prefix (butlast item) capability then True
      else capability_covered capability granted)"

definition limit_is_wider :: "pyfloat option \<Rightarrow> pyfloat option \<Rightarrow> bool" where
  "limit_is_wider child parent =
     (case parent of
        None \<Rightarrow> False
      | Some p \<Rightarrow>
          (case child of
             None \<Rightarrow> True
           | Some c \<Rightarrow> if \<not> isfinite c then True else float_less p c))"

definition int_limit :: "int option \<Rightarrow> pyfloat option" where
  \<comment> \<open>an integer limit as the number it is compared as\<close>
  "int_limit n = map_option (\<lambda>i. Fin (of_int i)) n"

definition require_ttl :: "pyval \<Rightarrow> int result" where
  "require_ttl ttl_seconds =
     (case ttl_seconds of
        PInt n \<Rightarrow> if n \<le> 0 \<or> MAX_TTL_SECONDS < n then Inl ValueError else Inr n
      | _ \<Rightarrow> Inl ValueError)"

definition truthy :: "string option \<Rightarrow> bool" where
  "truthy s = (case s of None \<Rightarrow> False | Some t \<Rightarrow> t \<noteq> [])"

definition pin_holds :: "params \<Rightarrow> string \<times> pyval \<Rightarrow> bool" where
  \<comment> \<open>\<open>key in params and json_value_equal(params[key], expected)\<close>\<close>
  "pin_holds params pin =
     (case map_of params (fst pin) of None \<Rightarrow> False | Some v \<Rightarrow> json_value_equal v (snd pin))"

section \<open>Signing and parsing\<close>

definition TOKEN_TYPE :: string where
  "TOKEN_TYPE = ''JCT''"

definition ALG :: string where
  "ALG = ''EdDSA''"

definition token_header :: "key_pair \<Rightarrow> pyval" where
  "token_header kp =
     PDict [(''alg'', PStr ALG), (''typ'', PStr TOKEN_TYPE), (''kid'', PStr (public_key_id kp))]"

definition sign_claims :: "ext_lib \<Rightarrow> key_pair \<Rightarrow> capability_claims \<Rightarrow> string result" where
  "sign_claims L issuer_keypair claims =
     rbind (canonical_json (token_header issuer_keypair)) (\<lambda>header.
     rbind (canonical_json (claims_wire_dict claims)) (\<lambda>payload.
     let header_b64 = b64url_encode header;
         payload_b64 = b64url_encode payload;
         signing_input = header_b64 @ ''.'' @ payload_b64;
         signature = sign L issuer_keypair signing_input
     in Inr (header_b64 @ ''.'' @ payload_b64 @ ''.'' @ b64url_encode signature)))"

fun split_dots :: "string \<Rightarrow> string list" where
  \<comment> \<open>\<open>s.split(".")\<close>\<close>
  "split_dots [] = [[]]"
| "split_dots (c # s) =
     (if c = CHR ''.'' then [] # split_dots s
      else case split_dots s of [] \<Rightarrow> [[c]] | p # ps \<Rightarrow> (c # p) # ps)"

definition segment_json :: "ext_lib \<Rightarrow> string \<Rightarrow> pyval result" where
  \<comment> \<open>\<open>json.loads(b64url_decode(segment))\<close>; a failure to decode the text is a ValueError too\<close>
  "segment_json L segment =
     rbind (b64url_decode segment) (\<lambda>bs.
     rbind (of_option ValueError (text_decode L bs)) (\<lambda>text.
     read_json L text))"

definition as_malformed :: "'a result \<Rightarrow> 'a result" where
  \<comment> \<open>\<open>except (ValueError, UnicodeDecodeError)\<close>: any other exception goes on\<close>
  "as_malformed r = (case r of Inl ValueError \<Rightarrow> Inl (swarm MalformedTokenError) | _ \<Rightarrow> r)"

definition header_ok :: "pyval \<Rightarrow> bool" where
  "header_ok header =
     (case header of
        PDict d \<Rightarrow> py_eq (dict_get d ''typ'') (PStr TOKEN_TYPE) \<and> py_eq (dict_get d ''alg'') (PStr ALG)
      | _ \<Rightarrow> False)"

definition payload_claims :: "ext_lib \<Rightarrow> pyval \<Rightarrow> capability_claims result" where
  "payload_claims L payload =
     (case payload of
        PDict d \<Rightarrow>
          if map_of d ''jti'' = None then Inl (swarm MalformedTokenError)
          else (case validate_claims L payload of
                  Inl _ \<Rightarrow> Inl (swarm MalformedTokenError)
                | Inr claims \<Rightarrow> Inr claims)
      | _ \<Rightarrow> Inl (swarm MalformedTokenError))"

definition parse :: "ext_lib \<Rightarrow> string \<Rightarrow> (pyval \<times> capability_claims \<times> bytes) result" where
  "parse L token =
     (case split_dots token of
        [header_b64, payload_b64, sig_b64] \<Rightarrow>
          rbind (as_malformed
                   (rbind (segment_json L header_b64) (\<lambda>header.
                    rbind (segment_json L payload_b64) (\<lambda>payload.
                    rbind (b64url_decode sig_b64) (\<lambda>_.
                    Inr (header, payload)))))) (\<lambda>(header, payload).
          rbind (ensure (header_ok header) (swarm MalformedTokenError)) (\<lambda>_.
          rbind (payload_claims L payload) (\<lambda>claims.
          Inr (header, claims, header_b64 @ ''.'' @ payload_b64))))
      | _ \<Rightarrow> Inl (swarm MalformedTokenError))"

section \<open>Verification\<close>

definition kid_bytes :: "pyval \<Rightarrow> bytes result" where
  "kid_bytes header =
     (case header of
        PDict d \<Rightarrow>
          (case dict_get d ''kid'' of
             PStr kid \<Rightarrow>
               (if kid = [] then Inl (swarm MalformedTokenError)
                else case b64url_decode kid of
                  Inl _ \<Rightarrow> Inl (swarm MalformedTokenError)
                | Inr raw \<Rightarrow>
                    if length raw \<noteq> 32 then Inl (swarm MalformedTokenError) else Inr raw)
           | _ \<Rightarrow> Inl (swarm MalformedTokenError))
      | _ \<Rightarrow> Inl (swarm MalformedTokenError))"

definition verify_kid_and_signature ::
  "ext_lib \<Rightarrow> pyval \<Rightarrow> capability_claims \<Rightarrow> bytes \<Rightarrow> bytes \<Rightarrow>
   bytes option \<Rightarrow> key_registry option \<Rightarrow> bool \<Rightarrow> unit result" where
  "verify_kid_and_signature L header claims signing_input signature issuer_public_key registry holder =
     rbind (kid_bytes header) (\<lambda>kid.
     case registry of
       Some R \<Rightarrow>
         rbind (if holder then holder_keys_for R (iss claims) else keys_for R (iss claims)) (\<lambda>trusted.
         rbind (ensure (kid \<in> set trusted) (swarm InvalidSignatureError)) (\<lambda>_.
         verify_signature L kid signing_input signature))
     | None \<Rightarrow>
         if holder then Inl (swarm DelegationError)
         else (case issuer_public_key of
                 None \<Rightarrow> Inl ValueError
               | Some pk \<Rightarrow>
                   rbind (ensure (kid = pk) (swarm InvalidSignatureError)) (\<lambda>_.
                   verify_signature L pk signing_input signature)))"

text \<open>An object with a method \<open>is_revoked(jti)\<close>.\<close>

type_synonym 'w revocation_check = "string \<Rightarrow> ('w, bool) py"

definition leeway_of :: "pyval \<Rightarrow> int result" where
  "leeway_of v =
     (case v of
        PInt n \<Rightarrow> if 0 \<le> n \<and> n \<le> MAX_LEEWAY_SECONDS then Inr n else Inl ValueError
      | _ \<Rightarrow> Inl ValueError)"

definition signature_segment :: "string \<Rightarrow> bytes result" where
  \<comment> \<open>\<open>b64url_decode(token.split(".")[2])\<close>\<close>
  "signature_segment token =
     (case split_dots token of _ # _ # s # _ \<Rightarrow> b64url_decode s | _ \<Rightarrow> Inl (OtherError ''IndexError''))"

definition verify_core ::
  "ext_lib \<Rightarrow> bytes option \<Rightarrow> key_registry option \<Rightarrow> 'x world_scheme revocation_check option \<Rightarrow>
   pyval \<Rightarrow> bool \<Rightarrow> string \<Rightarrow> ('x world_scheme, capability_claims) py" where
  "verify_core L issuer_public_key registry store leeway_seconds holder token =
     abind (lift (leeway_of leeway_seconds)) (\<lambda>leeway.
     abind (lift (ensure ((issuer_public_key = None) \<noteq> (registry = None)) ValueError)) (\<lambda>_.
     abind (lift (parse L token)) (\<lambda>(header, claims, signing_input).
     abind (lift (signature_segment token)) (\<lambda>signature.
     abind (lift (verify_kid_and_signature L header claims signing_input signature
                    issuer_public_key registry holder)) (\<lambda>_.
     abind (lift (ensure (exp_at claims - iat claims \<le> MAX_TTL_SECONDS) (swarm TokenExpiredError))) (\<lambda>_.
     abind time_time (\<lambda>t.
     let now = py_int t in
     abind (lift (ensure (iat claims - leeway \<le> now) (swarm TokenNotYetValidError))) (\<lambda>_.
     abind (lift (ensure (now \<le> exp_at claims + leeway) (swarm TokenExpiredError))) (\<lambda>_.
     case store of
       None \<Rightarrow> ret claims
     | Some ask \<Rightarrow>
         abind (ask (jti claims)) (\<lambda>revoked.
         if revoked then raise (swarm TokenRevokedError) else ret claims))))))))))"

definition assert_constraints_not_wider :: "constraints \<Rightarrow> constraints \<Rightarrow> unit result" where
  "assert_constraints_not_wider parent child =
     rbind (ensure (shared_budget parent = None \<or> shared_budget child = shared_budget parent)
              (swarm DelegationError)) (\<lambda>_.
     rbind (each (\<lambda>(parent_limit, child_limit).
              ensure (\<not> limit_is_wider child_limit parent_limit) (swarm DelegationError))
            [(int_limit (max_calls parent), int_limit (max_calls child)),
             (max_amount_usd parent, max_amount_usd child),
             (int_limit (rate_limit_per_min parent), int_limit (rate_limit_per_min child))]) (\<lambda>_.
     each (\<lambda>pin. ensure (pin_holds (allowed_params child) pin) (swarm DelegationError))
       (allowed_params parent)))"

definition assert_attenuated :: "capability_claims \<Rightarrow> capability_claims \<Rightarrow> unit result" where
  "assert_attenuated parent child =
     rbind (ensure (jti parent \<noteq> jti child) (swarm DelegationError)) (\<lambda>_.
     rbind (ensure (\<not> truthy (prf_token parent)) (swarm DelegationError)) (\<lambda>_.
     rbind (ensure (truthy (dlg parent) \<and> dlg parent = Some (iss child)) (swarm DelegationError)) (\<lambda>_.
     rbind (ensure (\<not> truthy (dlg child)) (swarm DelegationError)) (\<lambda>_.
     rbind (ensure (sub child = sub parent) (swarm DelegationError)) (\<lambda>_.
     rbind (ensure (\<not> (iat child < iat parent \<or> exp_at parent < exp_at child))
              (swarm DelegationError)) (\<lambda>_.
     rbind (each (\<lambda>capability.
              ensure (capability_covered capability (capabilities parent)) (swarm DelegationError))
            (capabilities child)) (\<lambda>_.
     assert_constraints_not_wider (constraints parent) (constraints child))))))))"

definition verify ::
  "ext_lib \<Rightarrow> bytes option \<Rightarrow> key_registry option \<Rightarrow> 'x world_scheme revocation_check option \<Rightarrow>
   string option \<Rightarrow> pyval \<Rightarrow> string \<Rightarrow> ('x world_scheme, capability_claims) py" where
  "verify L issuer_public_key registry store audience leeway_seconds token =
     abind (lift (parse L token)) (\<lambda>(_, preview, _).
     abind (lift (ensure (\<not> (truthy (prf_token preview) \<and> registry = None)) (swarm DelegationError))) (\<lambda>_.
     abind (verify_core L issuer_public_key registry store leeway_seconds
              (prf_token preview \<noteq> None) token) (\<lambda>claims.
     abind (lift (ensure (audience = None \<or> audience = Some (sub claims)) (swarm AudienceMismatchError))) (\<lambda>_.
     if truthy (prf_token claims) then
       abind (lift (parse L (the (prf_token claims)))) (\<lambda>(_, parent_preview, _).
       abind (lift (ensure (\<not> truthy (prf_token parent_preview)) (swarm DelegationError))) (\<lambda>_.
       abind (verify_core L issuer_public_key registry store leeway_seconds False
                (the (prf_token claims))) (\<lambda>parent.
       abind (lift (assert_attenuated parent claims)) (\<lambda>_.
       ret claims))))
     else if truthy (dlg claims) then raise (swarm DelegationError)
     else ret claims))))"

section \<open>Issuing and attenuating\<close>

definition resolve_constraints :: "constraints option \<Rightarrow> constraints" where
  \<comment> \<open>\<open>constraints or Constraints()\<close>\<close>
  "resolve_constraints c = (case c of None \<Rightarrow> no_constraints | Some x \<Rightarrow> x)"

definition issue_token ::
  "ext_lib \<Rightarrow> key_pair \<Rightarrow> string \<Rightarrow> string \<Rightarrow> string list \<Rightarrow> constraints option \<Rightarrow> pyval \<Rightarrow>
   string option \<Rightarrow> ('x world_scheme, string) py" where
  "issue_token L issuer_keypair issuer subject caps limits ttl_seconds delegate =
     abind (lift (require_ttl ttl_seconds)) (\<lambda>ttl.
     abind time_time (\<lambda>t.
     let now = py_int t in
     abind generate_jti (\<lambda>token_id.
     abind (lift (make_claims \<lparr>iss = issuer, sub = subject, capabilities = caps,
              constraints = resolve_constraints limits, iat = now, exp_at = now + ttl,
              jti = token_id, dlg = delegate, prf_token = None\<rparr>)) (\<lambda>claims.
     lift (sign_claims L issuer_keypair claims)))))"

definition attenuate_token ::
  "ext_lib \<Rightarrow> key_pair \<Rightarrow> string \<Rightarrow> string \<Rightarrow> string list \<Rightarrow> constraints option \<Rightarrow> pyval \<Rightarrow>
   ('x world_scheme, string) py" where
  "attenuate_token L issuer_keypair parent issuer caps limits ttl_seconds =
     abind (lift (require_ttl ttl_seconds)) (\<lambda>ttl.
     abind (lift (parse L parent)) (\<lambda>(_, parent_claims, _).
     abind (lift (ensure (exp_at parent_claims - iat parent_claims \<le> MAX_TTL_SECONDS)
                    (swarm TokenExpiredError))) (\<lambda>_.
     abind time_time (\<lambda>t.
     let now = py_int t in
     abind (lift (ensure (iat parent_claims \<le> now) (swarm TokenNotYetValidError))) (\<lambda>_.
     abind (lift (ensure (now \<le> exp_at parent_claims) (swarm TokenExpiredError))) (\<lambda>_.
     abind generate_jti (\<lambda>token_id.
     abind (lift (make_claims \<lparr>iss = issuer, sub = sub parent_claims, capabilities = caps,
              constraints = resolve_constraints limits, iat = now, exp_at = now + ttl,
              jti = token_id, dlg = None, prf_token = Some parent\<rparr>)) (\<lambda>child.
     abind (lift (assert_attenuated parent_claims child)) (\<lambda>_.
     lift (sign_claims L issuer_keypair child))))))))))"

section \<open>Checks against a call\<close>

definition check_capability :: "capability_claims \<Rightarrow> string \<Rightarrow> unit result" where
  "check_capability claims required =
     (if capability_covered required (capabilities claims) then Inr ()
      else Inl (swarm (CapabilityViolationError (Some required) (capabilities claims))))"

definition check_params :: "capability_claims \<Rightarrow> params \<Rightarrow> unit result" where
  "check_params claims params =
     each (\<lambda>pin. ensure (pin_holds params pin) (constraint_violation ''allowed_params''))
       (allowed_params (constraints claims))"

section \<open>What the checks mean\<close>

definition grants :: "string list \<Rightarrow> string \<Rightarrow> bool" where
  \<comment> \<open>the grant semantics: an exact entry, or an entry \<open>p:*\<close> for a capability below \<open>p:\<close>\<close>
  "grants caps required \<longleftrightarrow>
     required \<in> set caps \<or> (\<exists>p. p @ '':*'' \<in> set caps \<and> prefix (p @ '':'') required)"

definition within_limit :: "pyfloat option \<Rightarrow> pyfloat option \<Rightarrow> bool" where
  "within_limit child parent \<longleftrightarrow>
     (\<forall>p. parent = Some p \<longrightarrow> (\<exists>x. child = Some (Fin x) \<and> \<not> float_less p (Fin x)))"

definition constraints_within :: "constraints \<Rightarrow> constraints \<Rightarrow> bool" where
  "constraints_within parent child \<longleftrightarrow>
     (shared_budget parent = None \<or> shared_budget child = shared_budget parent) \<and>
     within_limit (int_limit (max_calls child)) (int_limit (max_calls parent)) \<and>
     within_limit (max_amount_usd child) (max_amount_usd parent) \<and>
     within_limit (int_limit (rate_limit_per_min child)) (int_limit (rate_limit_per_min parent)) \<and>
     (\<forall>pin \<in> set (allowed_params parent). pin_holds (allowed_params child) pin)"

definition narrower :: "capability_claims \<Rightarrow> capability_claims \<Rightarrow> bool" where
  \<comment> \<open>the child is a single-hop attenuation of the parent\<close>
  "narrower parent child \<longleftrightarrow>
     jti parent \<noteq> jti child \<and> prf_token parent = None \<and>
     dlg parent = Some (iss child) \<and> dlg child = None \<and> sub child = sub parent \<and>
     iat parent \<le> iat child \<and> exp_at child \<le> exp_at parent \<and>
     (\<forall>capability \<in> set (capabilities child). grants (capabilities parent) capability) \<and>
     constraints_within (constraints parent) (constraints child)"

lemma suffix_star: "suffix '':*'' item \<longleftrightarrow> (\<exists>p. item = p @ '':*'')"
  by (auto simp: suffix_def)

lemma capability_covered_iff: "capability_covered capability granted \<longleftrightarrow> grants granted capability"
proof (induction granted)
  case (Cons item granted)
  have "butlast (p @ '':*'') = p @ '':''" for p
    by (simp add: butlast_append)
  then have "suffix '':*'' item \<and> prefix (butlast item) capability \<longleftrightarrow>
      (\<exists>p. item = p @ '':*'' \<and> prefix (p @ '':'') capability)"
    by (auto simp: suffix_star)
  with Cons show ?case by (auto simp: grants_def)
qed (simp add: grants_def)

lemma wildcard_prefix: "prefix (q @ '':'') (p @ '':*'') \<Longrightarrow> prefix (q @ '':'') (p @ '':'')"
  using prefix_snoc [of "q @ '':''" "p @ '':''" "CHR ''*''"] by auto

lemma grants_trans:
  assumes "\<forall>capability \<in> set child. grants parent capability" "grants child required"
  shows "grants parent required"
proof -
  from assms(2) consider "required \<in> set child"
    | p where "p @ '':*'' \<in> set child" "prefix (p @ '':'') required"
    by (auto simp: grants_def)
  then show ?thesis
  proof cases
    case 2
    with assms(1) have "grants parent (p @ '':*'')" by blast
    with 2 show ?thesis
      unfolding grants_def by (meson prefix_order.trans wildcard_prefix)
  qed (use assms(1) in blast)
qed

lemma limit_is_wider_iff: "limit_is_wider child parent \<longleftrightarrow> \<not> within_limit child parent"
  by (cases parent; cases child)
     (auto simp: limit_is_wider_def within_limit_def split: if_splits elim: isfinite.elims)

lemma constraints_not_wider_iff [py_inv]:
  "assert_constraints_not_wider parent child = Inr u \<longleftrightarrow> constraints_within parent child"
  by (auto simp: assert_constraints_not_wider_def constraints_within_def limit_is_wider_iff py_inv)

lemma truthy_claims:
  assumes "claims_ok c"
  shows "truthy (dlg c) \<longleftrightarrow> dlg c \<noteq> None" "truthy (prf_token c) \<longleftrightarrow> prf_token c \<noteq> None"
  using assms by (auto simp: claims_ok_def truthy_def split: option.splits)

lemma assert_attenuated_iff:
  assumes "claims_ok parent" "claims_ok child"
  shows "assert_attenuated parent child = Inr u \<longleftrightarrow> narrower parent child"
  using truthy_claims [OF assms(1)] truthy_claims [OF assms(2)]
  by (auto simp: assert_attenuated_def narrower_def capability_covered_iff py_inv)

lemma assert_attenuated_error: "assert_attenuated parent child = Inl e \<Longrightarrow> e = swarm DelegationError"
  by (auto simp: assert_attenuated_def assert_constraints_not_wider_def py_inv each_ensure_first split_def split: if_splits)

lemma check_capability_iff: "check_capability c required = Inr u \<longleftrightarrow> grants (capabilities c) required"
  by (simp add: check_capability_def capability_covered_iff)

lemma check_params_iff:
  "check_params c params = Inr u \<longleftrightarrow> (\<forall>pin \<in> set (allowed_params (constraints c)). pin_holds params pin)"
  by (simp add: check_params_def py_inv)

lemma pin_holds_trans:
  assumes "pin_holds mid (k, v)" "\<forall>pin \<in> set mid. pin_holds params pin"
  shows "pin_holds params (k, v)"
proof -
  from assms(1) obtain u where u: "map_of mid k = Some u" "json_value_equal u v"
    by (auto simp: pin_holds_def split: option.splits)
  with assms(2) have "pin_holds params (k, u)"
    using map_of_SomeD by fastforce
  with u show ?thesis
    by (auto simp: pin_holds_def split: option.splits intro: json_value_equal_trans)
qed

lemma narrower_authority:
  assumes "narrower parent child"
  shows "check_capability child required = Inr () \<Longrightarrow> check_capability parent required = Inr ()"
    and "check_params child params = Inr () \<Longrightarrow> check_params parent params = Inr ()"
proof -
  show "check_capability parent required = Inr ()" if "check_capability child required = Inr ()"
    using assms that grants_trans by (auto simp: narrower_def check_capability_iff)
  show "check_params parent params = Inr ()" if "check_params child params = Inr ()"
    using assms that pin_holds_trans
    unfolding narrower_def constraints_within_def check_params_iff by fast
qed

section \<open>Parsing\<close>

lemma split_dots_nonempty: "split_dots s \<noteq> []"
  by (induction s) (auto split: list.splits)

lemma split_dots_no_dot: "CHR ''.'' \<notin> set s \<Longrightarrow> split_dots s = [s]"
  by (induction s) auto

lemma split_dots_append: "CHR ''.'' \<notin> set a \<Longrightarrow> split_dots (a @ CHR ''.'' # s) = a # split_dots s"
  by (induction a) auto

lemma split_dots_join:
  "split_dots s = ps \<Longrightarrow> s = concat (List.map (\<lambda>p. p @ ''.'') (butlast ps)) @ last ps"
proof (induction s arbitrary: ps)
  case (Cons c s)
  then show ?case
    using split_dots_nonempty [of s] by (cases "split_dots s") (auto split: if_splits)
qed simp

lemma payload_claims_ok:
  "payload_claims L v = Inr c \<Longrightarrow> claims_ok c \<and> constraints_ok (constraints c)"
  by (cases v) (auto simp: payload_claims_def split: if_splits sum.splits dest: validate_claims_ok)

lemma payload_claims_error: "payload_claims L v = Inl e \<Longrightarrow> e = swarm MalformedTokenError"
  by (cases v) (auto simp: payload_claims_def split: if_splits sum.splits)

lemma as_malformed_simps [simp]: "as_malformed (Inr x) = Inr x" "as_malformed (Inl recursion_error) = Inl recursion_error"
  by (simp_all add: as_malformed_def)

lemma as_malformed_eq_Inr [py_inv]: "as_malformed r = Inr x \<longleftrightarrow> r = Inr x"
  by (auto simp: as_malformed_def split: sum.splits exc.splits)

lemma as_malformed_eq_Inl [py_inv]:
  "as_malformed r = Inl e \<longleftrightarrow> r = Inl ValueError \<and> e = swarm MalformedTokenError \<or> r = Inl e \<and> e \<noteq> ValueError"
  by (auto simp: as_malformed_def split: sum.splits exc.splits)

definition segment_overflows :: "ext_lib \<Rightarrow> string \<Rightarrow> bool" where
  \<comment> \<open>the segment is the encoding of a text too deeply nested for \<open>json.loads\<close>\<close>
  "segment_overflows L segment =
     (case b64url_decode segment of
        Inl _ \<Rightarrow> False
      | Inr bs \<Rightarrow> (case text_decode L bs of None \<Rightarrow> False | Some text \<Rightarrow> too_deep L text))"

definition overflows :: "ext_lib \<Rightarrow> string \<Rightarrow> bool" where
  \<comment> \<open>the header or the payload of the token does\<close>
  "overflows L token = list_ex (segment_overflows L) (take 2 (split_dots token))"

lemma sample_lib_shallow [simp]: "\<not> overflows sample_lib token"
  by (auto simp: overflows_def list_ex_iff segment_overflows_def sample_lib_def split: sum.splits)

lemma segment_json_error:
  "segment_json L segment = Inl e \<Longrightarrow> e = ValueError \<or> e = recursion_error \<and> segment_overflows L segment"
  by (auto simp: segment_json_def segment_overflows_def py_inv dest: b64url_decode_error split: sum.splits)

lemma parse_shape:
  assumes "parse L token = Inr (header, claims, signing_input)"
  obtains h p s where "token = b64url_encode h @ ''.'' @ b64url_encode p @ ''.'' @ b64url_encode s"
    and "signing_input = b64url_encode h @ ''.'' @ b64url_encode p"
    and "signature_segment token = Inr s"
    and "header_ok header" and "claims_ok claims" and "constraints_ok (constraints claims)"
proof -
  from assms obtain h' p' s' where split: "split_dots token = [h', p', s']"
    by (auto simp: parse_def split: list.splits)
  from assms obtain h p s where dec: "b64url_decode h' = Inr h" "b64url_decode p' = Inr p" "b64url_decode s' = Inr s"
    and rest: "signing_input = h' @ ''.'' @ p'" "header_ok header" "\<exists>v. payload_claims L v = Inr claims"
    by (auto simp: parse_def split segment_json_def py_inv split: sum.splits option.splits)
  from rest(3) have "claims_ok claims" "constraints_ok (constraints claims)"
    using payload_claims_ok by blast+
  moreover have "signature_segment token = Inr s"
    using dec(3) by (simp add: signature_segment_def split)
  ultimately show ?thesis
    using that [of h p s] split_dots_join [OF split] dec rest by (simp add: b64url_decode_iff)
qed

lemma parse_ok:
  "parse L token = Inr (header, claims, signing_input) \<Longrightarrow> claims_ok claims \<and> constraints_ok (constraints claims)"
  by (erule parse_shape) simp

lemma parse_error:
  assumes "parse L token = Inl e"
  shows "e = swarm MalformedTokenError \<or> e = recursion_error \<and> overflows L token"
proof (cases "\<exists>h p s. split_dots token = [h, p, s]")
  case True
  then obtain h p s where split: "split_dots token = [h, p, s]" by blast
  then have "overflows L token \<longleftrightarrow> segment_overflows L h \<or> segment_overflows L p"
    by (simp add: overflows_def)
  with assms split show ?thesis
    using payload_claims_error segment_json_error [of L h e] segment_json_error [of L p e] b64url_decode_error [of s e]
    by (auto simp: parse_def py_inv)
qed (use assms in \<open>auto simp: parse_def split: list.splits\<close>)

section \<open>What verification accepts\<close>

definition trusts :: "bytes option \<Rightarrow> key_registry option \<Rightarrow> bool \<Rightarrow> string \<Rightarrow> bytes \<Rightarrow> bool" where
  \<comment> \<open>the verifier's configuration lets this key sign as this agent\<close>
  "trusts issuer_public_key registry holder agent key \<longleftrightarrow>
     (case registry of
        Some R \<Rightarrow> (\<exists>ks. (if holder then holder_keys_for R agent else keys_for R agent) = Inr ks \<and> key \<in> set ks)
      | None \<Rightarrow> \<not> holder \<and> issuer_public_key = Some key)"

definition authentic ::
  "ext_lib \<Rightarrow> bytes option \<Rightarrow> key_registry option \<Rightarrow> bool \<Rightarrow> string \<Rightarrow> capability_claims \<Rightarrow> bool" where
  \<comment> \<open>the token carries these claims, under a signature by the trusted key its header names\<close>
  "authentic L issuer_public_key registry holder token claims \<longleftrightarrow>
     (\<exists>header signing_input signature key.
        parse L token = Inr (header, claims, signing_input) \<and>
        token = signing_input @ ''.'' @ b64url_encode signature \<and>
        kid_bytes header = Inr key \<and>
        trusts issuer_public_key registry holder (iss claims) key \<and>
        ed_public_ok L key \<and> ed_verify L key signing_input signature)"

definition in_lifetime :: "int \<Rightarrow> capability_claims \<Rightarrow> rat \<Rightarrow> bool" where
  "in_lifetime leeway claims now \<longleftrightarrow>
     exp_at claims - iat claims \<le> MAX_TTL_SECONDS \<and>
     iat claims - leeway \<le> py_int now \<and> py_int now \<le> exp_at claims + leeway"

definition not_revoked ::
  "'x world_scheme revocation_check option \<Rightarrow> string \<Rightarrow> 'x world_scheme \<Rightarrow> 'x world_scheme \<Rightarrow> bool" where
  \<comment> \<open>the store, if there is one, answers that the token is not revoked\<close>
  "not_revoked store token_id w w' \<longleftrightarrow>
     (case store of None \<Rightarrow> w' = w | Some ask \<Rightarrow> ask token_id w = (Inr False, w'))"

definition core_accepts ::
  "ext_lib \<Rightarrow> bytes option \<Rightarrow> key_registry option \<Rightarrow> 'x world_scheme revocation_check option \<Rightarrow>
   int \<Rightarrow> bool \<Rightarrow> string \<Rightarrow> capability_claims \<Rightarrow> 'x world_scheme \<Rightarrow> 'x world_scheme \<Rightarrow> bool" where
  "core_accepts L issuer_public_key registry store leeway holder token claims w w' \<longleftrightarrow>
     authentic L issuer_public_key registry holder token claims \<and>
     in_lifetime leeway claims (clock w (ticks w)) \<and>
     not_revoked store (jti claims) (w\<lparr>ticks := Suc (ticks w)\<rparr>) w'"

lemma verify_kid_and_signature_iff:
  "verify_kid_and_signature L header claims m s pk R holder = Inr u \<longleftrightarrow>
     (\<exists>key. kid_bytes header = Inr key \<and> trusts pk R holder (iss claims) key \<and>
        ed_public_ok L key \<and> ed_verify L key m s)"
  by (cases R) (auto simp: verify_kid_and_signature_def verify_signature_def trusts_def py_inv split: option.splits)

lemma authentic_iff:
  "authentic L pk R holder token claims \<longleftrightarrow>
     (\<exists>header m s. parse L token = Inr (header, claims, m) \<and> signature_segment token = Inr s \<and>
        verify_kid_and_signature L header claims m s pk R holder = Inr ())"
  (is "?l \<longleftrightarrow> ?r")
proof -
  have "token = m @ ''.'' @ b64url_encode s \<longleftrightarrow> signature_segment token = Inr s"
    if "parse L token = Inr (header, claims, m)" for header m s
    using that by (rule parse_shape) (auto dest: b64url_encode_inj)
  then show ?thesis
    unfolding authentic_def verify_kid_and_signature_iff by blast
qed

lemma authentic_ok: "authentic L pk R holder token claims \<Longrightarrow> claims_ok claims \<and> constraints_ok (constraints claims)"
  by (auto simp: authentic_def dest: parse_ok)

lemma authentic_parse: "authentic L pk R holder token claims \<Longrightarrow> \<exists>h m. parse L token = Inr (h, claims, m)"
  by (auto simp: authentic_def)

lemma authentic_fun: "authentic L pk R holder token c \<Longrightarrow> authentic L pk' R' holder' token c' \<Longrightarrow> c = c'"
  by (auto simp: authentic_def)

lemma verify_core_iff:
  "verify_core L pk R store leeway_seconds holder token w = (Inr claims, w') \<longleftrightarrow>
     (\<exists>leeway. leeway_of leeway_seconds = Inr leeway \<and> (pk = None) \<noteq> (R = None) \<and>
        core_accepts L pk R store leeway holder token claims w w')"
  unfolding core_accepts_def authentic_iff
  by (cases store)
     (auto simp: verify_core_def py_inv in_lifetime_def not_revoked_def Let_def split: if_splits)

definition accepts ::
  "ext_lib \<Rightarrow> bytes option \<Rightarrow> key_registry option \<Rightarrow> 'x world_scheme revocation_check option \<Rightarrow>
   string option \<Rightarrow> int \<Rightarrow> string \<Rightarrow> capability_claims \<Rightarrow> 'x world_scheme \<Rightarrow> 'x world_scheme \<Rightarrow> bool" where
  \<comment> \<open>the specification of \<open>verify\<close>: a root token for this audience that may be presented, or a
    narrower token of a delegate together with its root token\<close>
  "accepts L issuer_public_key registry store audience leeway token claims w w' \<longleftrightarrow>
     (audience = None \<or> audience = Some (sub claims)) \<and>
     (case prf_token claims of
        None \<Rightarrow>
          dlg claims = None \<and> core_accepts L issuer_public_key registry store leeway False token claims w w'
      | Some proof \<Rightarrow>
          (\<exists>parent w1. core_accepts L issuer_public_key registry store leeway True token claims w w1 \<and>
             core_accepts L issuer_public_key registry store leeway False proof parent w1 w' \<and>
             narrower parent claims))"

lemma holder_needs_registry: "authentic L pk R True token claims \<Longrightarrow> R \<noteq> None"
  by (auto simp: authentic_def trusts_def split: option.splits)

lemma verify_core_parse:
  "verify_core L pk R store leeway_seconds holder token w = (Inr claims, w') \<Longrightarrow>
   \<exists>header m. parse L token = Inr (header, claims, m)"
  by (auto simp: verify_core_iff core_accepts_def dest: authentic_parse)

lemma verify_parse:
  assumes "verify L pk R store audience leeway_seconds token w = (Inr claims, w')"
  shows "\<exists>header m. parse L token = Inr (header, claims, m)"
proof -
  from assms obtain holder c w1 where "verify_core L pk R store leeway_seconds holder token w = (Inr c, w1)"
      and "c = claims"
    by (auto simp: verify_def py_inv split: if_splits)
  then show ?thesis
    using verify_core_parse by blast
qed

lemma accepts_parse:
  assumes "accepts L pk R store audience leeway token claims w w'"
  shows "\<exists>header m. parse L token = Inr (header, claims, m)"
  using assms by (auto simp: accepts_def core_accepts_def split: option.splits dest: authentic_parse)

lemma verify_root:
  assumes "parse L token = Inr (header, claims, m)" "prf_token claims = None"
  shows "verify L pk R store audience leeway_seconds token w = (Inr claims, w') \<longleftrightarrow>
     (\<exists>leeway. leeway_of leeway_seconds = Inr leeway \<and> (pk = None) \<noteq> (R = None) \<and>
        accepts L pk R store audience leeway token claims w w')"
  using assms truthy_claims [of claims] parse_ok [OF assms(1)]
  by (auto simp: verify_def py_inv verify_core_iff accepts_def dest: verify_core_parse split: if_splits)

lemma verify_delegated:
  assumes "parse L token = Inr (header, claims, m)" "prf_token claims = Some parent_token"
  shows "verify L pk R store audience leeway_seconds token w = (Inr claims, w') \<longleftrightarrow>
     (\<exists>leeway. leeway_of leeway_seconds = Inr leeway \<and> (pk = None) \<noteq> (R = None) \<and>
        accepts L pk R store audience leeway token claims w w')"
  (is "?run \<longleftrightarrow> ?spec")
proof
  have ok: "claims_ok claims" "truthy (prf_token claims)"
    using assms parse_ok [OF assms(1)] truthy_claims [of claims] by simp_all
  {
    assume ?run
    with assms ok obtain parent w1 where "audience = None \<or> audience = Some (sub claims)"
        "verify_core L pk R store leeway_seconds True token w = (Inr claims, w1)"
        "verify_core L pk R store leeway_seconds False parent_token w1 = (Inr parent, w')"
        "assert_attenuated parent claims = Inr ()"
      by (auto simp: verify_def py_inv dest: verify_core_parse split: if_splits)
    moreover from this have "claims_ok parent"
      using verify_core_parse parse_ok by blast
    ultimately show ?spec
      using assms(2) ok by (fastforce simp: verify_core_iff accepts_def assert_attenuated_iff)
  }
  assume ?spec
  then obtain leeway parent w1 where core: "leeway_of leeway_seconds = Inr leeway" "(pk = None) \<noteq> (R = None)"
      "audience = None \<or> audience = Some (sub claims)"
      "core_accepts L pk R store leeway True token claims w w1"
      "core_accepts L pk R store leeway False parent_token parent w1 w'" "narrower parent claims"
    using assms by (auto simp: accepts_def)
  then have auth: "authentic L pk R True token claims" "authentic L pk R False parent_token parent"
    by (simp_all add: core_accepts_def)
  then obtain header' m' where parent: "parse L parent_token = Inr (header', parent, m')"
    using authentic_parse by blast
  then have "assert_attenuated parent claims = Inr ()" "\<not> truthy (prf_token parent)"
    using core(6) ok parse_ok [OF parent] by (simp_all add: assert_attenuated_iff narrower_def truthy_def)
  moreover have "verify_core L pk R store leeway_seconds True token w = (Inr claims, w1)"
      "verify_core L pk R store leeway_seconds False parent_token w1 = (Inr parent, w')"
    using core by (auto simp: verify_core_iff)
  ultimately show ?run
    using assms core(3) ok parent holder_needs_registry [OF auth(1)]
    by (simp add: verify_def abind_run abind_lift)
qed

lemma verify_iff:
  "verify L pk R store audience leeway_seconds token w = (Inr claims, w') \<longleftrightarrow>
     (\<exists>leeway. leeway_of leeway_seconds = Inr leeway \<and> (pk = None) \<noteq> (R = None) \<and>
        accepts L pk R store audience leeway token claims w w')"
proof (cases "\<exists>header m. parse L token = Inr (header, claims, m)")
  case True
  then obtain header m where "parse L token = Inr (header, claims, m)" by blast
  then show ?thesis
    by (cases "prf_token claims") (rule verify_root verify_delegated; assumption)+
next
  case False
  then show ?thesis
    by (auto dest: verify_parse accepts_parse)
qed

section \<open>What verification does to the world\<close>

context world_relation
begin

lemma verify_core_preserves:
  assumes "\<And>ask j. store = Some ask \<Longrightarrow> preserves R (ask j)"
  shows "preserves R (verify_core L pk reg store leeway_seconds holder token)"
  unfolding verify_core_def Let_def by (intro preserving assms)

lemma verify_preserves:
  assumes "\<And>ask j. store = Some ask \<Longrightarrow> preserves R (ask j)"
  shows "preserves R (verify L pk reg store aud leeway_seconds token)"
  unfolding verify_def by (intro preserving verify_core_preserves assms)

end

section \<open>Which errors verification raises\<close>

definition sound_keys :: "ext_lib \<Rightarrow> bytes option \<Rightarrow> key_registry option \<Rightarrow> bool" where
  \<comment> \<open>one source of keys, and every trusted key is an Ed25519 public key\<close>
  "sound_keys L pk R \<longleftrightarrow>
     (pk = None) \<noteq> (R = None) \<and> (\<forall>holder agent key. trusts pk R holder agent key \<longrightarrow> ed_public_ok L key)"

definition store_answers :: "'x world_scheme revocation_check option \<Rightarrow> bool" where
  "store_answers store \<longleftrightarrow> (\<forall>ask j w. store = Some ask \<longrightarrow> (\<exists>b w'. ask j w = (Inr b, w')))"

lemma swarm_error_keys: "keys_for R agent = Inl e \<Longrightarrow> \<exists>s. e = SwarmAuthError s"
  "holder_keys_for R agent = Inl e \<Longrightarrow> \<exists>s. e = SwarmAuthError s"
  by (auto simp: keys_for_def holder_keys_for_def Let_def split: if_splits)

lemma verify_kid_and_signature_error:
  assumes "sound_keys L pk R" "verify_kid_and_signature L header claims m s pk R holder = Inl e"
  shows "\<exists>x. e = SwarmAuthError x"
proof (cases "kid_bytes header")
  case (Inl x)
  then show ?thesis
    using assms(2) by (auto simp: verify_kid_and_signature_def kid_bytes_def split: pyval.splits if_splits sum.splits)
next
  case (Inr key)
  have ok: "trusts pk R holder (iss claims) key \<Longrightarrow> ed_public_ok L key"
    using assms(1) by (auto simp: sound_keys_def)
  show ?thesis
  proof (cases R)
    case None
    with assms(1) obtain k where "pk = Some k" by (auto simp: sound_keys_def)
    with None Inr assms(2) ok show ?thesis
      by (auto simp: verify_kid_and_signature_def verify_signature_def trusts_def py_inv split: if_splits)
  next
    case (Some reg)
    with Inr assms(2) ok show ?thesis
      using swarm_error_keys
      by (auto simp: verify_kid_and_signature_def verify_signature_def trusts_def py_inv split: if_splits)
  qed
qed

lemma verify_core_error:
  assumes "sound_keys L pk R" "store_answers store" "leeway_of leeway_seconds = Inr leeway"
  shows "raises_only (\<lambda>e. coded e \<or> e = recursion_error \<and> overflows L token)
    (verify_core L pk R store leeway_seconds holder token)"
proof -
  have "raises_only (\<lambda>e. coded e \<or> e = recursion_error \<and> overflows L token) (case store of None \<Rightarrow> ret claims
     | Some ask \<Rightarrow> abind (ask j) (\<lambda>revoked. if revoked then raise (swarm TokenRevokedError) else ret claims))" for claims j
    using assms(2)
    by (auto simp: store_answers_def raises_only_def py_inv split: option.split if_splits; metis Inl_Inr_False prod.inject)
  moreover have "(pk = None) \<noteq> (R = None)" using assms(1) by (simp add: sound_keys_def)
  moreover have "\<exists>s. signature_segment token = Inr s" if "parse L token = Inr (h, c, m)" for h c m
    using that by (rule parse_shape) simp
  ultimately show ?thesis
    unfolding verify_core_def Let_def
    using verify_kid_and_signature_error [OF assms(1)]
    by (intro raises_only_abind)
       (auto simp: assms(3) py_inv intro!: raises_only_abind split: prod.split dest!: parse_error)
qed

definition presented_overflows :: "ext_lib \<Rightarrow> string \<Rightarrow> bool" where
  \<comment> \<open>the token, or the proof inside it, is nested too deeply for \<open>json.loads\<close>\<close>
  "presented_overflows L token =
     (overflows L token \<or>
      (case parse L token of
         Inl _ \<Rightarrow> False
       | Inr (_, claims, _) \<Rightarrow> (case prf_token claims of None \<Rightarrow> False | Some parent \<Rightarrow> overflows L parent)))"

lemma raises_only_mono: "raises_only P m \<Longrightarrow> (\<And>e. P e \<Longrightarrow> Q e) \<Longrightarrow> raises_only Q m"
  by (auto simp: raises_only_def)

lemma verify_error:
  assumes "sound_keys L pk R" "store_answers store" "leeway_of leeway_seconds = Inr leeway"
  shows "raises_only (\<lambda>e. coded e \<or> e = recursion_error \<and> presented_overflows L token)
    (verify L pk R store aud leeway_seconds token)"
proof -
  have top: "overflows L token \<Longrightarrow> presented_overflows L token"
    by (simp add: presented_overflows_def)
  have parent: "overflows L (the (prf_token c)) \<Longrightarrow> presented_overflows L token"
    if "verify_core L pk R store leeway_seconds holder token w = (Inr c, w')" "truthy (prf_token c)" for c w w' holder
    using verify_core_parse [OF that(1)] that(2)
    by (auto simp: presented_overflows_def truthy_def split: option.splits)
  note core = raises_only_mono [OF verify_core_error [OF assms]]
  show ?thesis
    unfolding verify_def
    by (intro raises_only_abind)
       (auto simp: py_inv top parent intro!: raises_only_abind core split: prod.split
          dest!: parse_error assert_attenuated_error)
qed

section \<open>Properties\<close>

text \<open>C1. \<open>verify\<close> decides its specification. It returns claims exactly when the leeway and the key
  configuration are valid and the token is accepted: correctly signed by a trusted key, within its
  lifetime and the 30-second ceiling, not revoked, for the requested audience, and, for a delegated
  token, presented by a registered holder together with an accepted root token that it narrows.\<close>

theorem verify_decides:
  "verify L pk R store aud leeway_seconds token w = (Inr claims, w') \<longleftrightarrow>
     (\<exists>leeway. leeway_of leeway_seconds = Inr leeway \<and> (pk = None) \<noteq> (R = None) \<and>
        accepts L pk R store aud leeway token claims w w')"
  by (rule verify_iff)

text \<open>C8. \<open>verify\<close> fails closed, with one exception it lets through. With one source of keys, all of them
  Ed25519 keys, and a store that answers, a token makes \<open>verify\<close> raise an error of the SwarmAuth hierarchy,
  or else the \<open>RecursionError\<close> of \<open>json.loads\<close>, and that only when the header or the payload of the token, or
  of the proof inside it, is nested too deeply for the interpreter: \<open>parse\<close> catches no \<open>RecursionError\<close>.\<close>

theorem verify_fails_closed:
  assumes "sound_keys L pk R" "store_answers store" "verify L pk R store aud (PInt 2) token w = (Inl e, w')"
  shows "(\<exists>s. e = SwarmAuthError s) \<or> e = recursion_error \<and> presented_overflows L token"
proof -
  have "leeway_of (PInt 2) = Inr 2" by (simp add: leeway_of_def MAX_LEEWAY_SECONDS_def)
  from verify_error [OF assms(1,2) this] assms(3) show ?thesis by (simp add: raises_only_def) blast
qed

theorem verify_fails_closed_witness:
  "(\<exists>s. verify sample_lib (Some (replicate 32 CHR ''k'')) None None (Some ''t'') (PInt 2) ''a.b.c'' (sample_world 100) =
     (Inl (SwarmAuthError s), sample_world 100)) \<and>
   presented_overflows (sample_lib\<lparr>too_deep := \<lambda>_. True\<rparr>) ''e30.e30.e30'' \<and>
   verify (sample_lib\<lparr>too_deep := \<lambda>_. True\<rparr>) (Some (replicate 32 CHR ''k'')) None None (Some ''t'') (PInt 2) ''e30.e30.e30''
     (sample_world 100) = (Inl recursion_error, sample_world 100)"
proof -
  let ?k = "Some (replicate 32 CHR ''k'')" and ?L = "sample_lib\<lparr>too_deep := \<lambda>_. True\<rparr>"
  have "parse sample_lib ''a.b.c'' = Inl (swarm MalformedTokenError)" by code_simp
  then have run: "verify sample_lib ?k None None (Some ''t'') (PInt 2) ''a.b.c'' (sample_world 100) =
     (Inl (swarm MalformedTokenError), sample_world 100)"
    by (simp add: verify_def)
  have "parse ?L ''e30.e30.e30'' = Inl recursion_error" by code_simp
  then have deep: "verify ?L ?k None None (Some ''t'') (PInt 2) ''e30.e30.e30'' (sample_world 100) =
     (Inl recursion_error, sample_world 100)"
    by (simp add: verify_def)
  have keys: "sound_keys sample_lib ?k None" "sound_keys ?L ?k None"
    by (auto simp: sound_keys_def trusts_def sample_lib_def)
  have "presented_overflows ?L ''e30.e30.e30''"
    using verify_fails_closed [OF keys(2) _ deep] by (auto simp: store_answers_def)
  with verify_fails_closed [OF keys(1) _ run] run deep show ?thesis by (auto simp: store_answers_def)
qed

end
