(* ===== verification/Usage.thy ===== *)
theory Usage
  imports Token
begin

text \<open>
  Usage accounting of \<open>swarmauth/middleware.py\<close>: \<open>_validated_amount\<close> and \<open>UsageTracker\<close>.

  A tracker promises that its verdicts are those of a \<^emph>\<open>ledger\<close> that remembers every accepted
  reservation and never forgets one (\<open>allows\<close>). The promise is the locale \<open>usage_backend\<close>;
  in it the bounds that make a tracker useful are proved once: calls, spent amount and rate
  stay within the limits of every token. \<open>UsageTracker\<close>, which drops the record of a token some
  seconds after its expiry, is an interpretation: what it forgets cannot matter any more.

  Instants are exact: the additions and subtractions of small integers to a clock reading that
  the code does in floating point are done on rationals.
\<close>

section \<open>Amounts\<close>

definition validated_amount :: "pyval \<Rightarrow> pyfloat result" where
  "validated_amount amount =
     rbind (case amount of
              PInt n \<Rightarrow> float_of_int n
            | PFloat f \<Rightarrow> Inr f
            | _ \<Rightarrow> Inl (constraint_violation ''max_amount_usd'')) (\<lambda>parsed.
     if \<not> isfinite parsed \<or> float_less parsed (Fin 0) then Inl (constraint_violation ''max_amount_usd'')
     else Inr parsed)"

section \<open>The in-memory tracker\<close>

record token_usage =
  call_count :: int
  spent_amount :: rat
  call_timestamps :: "rat list"
  expires_at :: rat

definition new_usage :: token_usage where
  "new_usage = \<lparr>call_count = 0, spent_amount = 0, call_timestamps = [], expires_at = 0\<rparr>"

type_synonym usage_state = "string \<rightharpoonup> token_usage"

definition usage_get :: "usage_state \<Rightarrow> string \<Rightarrow> token_usage" where
  \<comment> \<open>\<open>self._usage.get(jti, _TokenUsage())\<close>\<close>
  "usage_get U j = (case U j of None \<Rightarrow> new_usage | Some u \<Rightarrow> u)"

definition purge_expired :: "rat \<Rightarrow> usage_state \<Rightarrow> usage_state" where
  "purge_expired now U =
     (\<lambda>j. case U j of None \<Rightarrow> None | Some u \<Rightarrow> if expires_at u \<le> now then None else Some u)"

definition retention_over :: "rat \<Rightarrow> capability_claims \<Rightarrow> bool" where
  \<comment> \<open>\<open>now >= claims.exp + RETENTION_AFTER_EXP_SECONDS\<close>\<close>
  "retention_over now claims = (of_int (exp_at claims + RETENTION_AFTER_EXP_SECONDS) \<le> now)"

definition recent_calls :: "rat \<Rightarrow> rat list \<Rightarrow> rat list" where
  "recent_calls now stamps = filter (\<lambda>t. now - 60 \<le> t) stamps"

definition check_usage ::
  "rat \<Rightarrow> pyfloat \<Rightarrow> usage_state \<Rightarrow> capability_claims \<Rightarrow>
   (capability_claims \<times> token_usage \<times> rat list) result" where
  \<comment> \<open>the body of the first loop: one entry of \<open>pending\<close>, or a violation\<close>
  "check_usage now amount U claims =
     (let usage = usage_get U (jti claims);
          limits = constraints claims;
          recent = recent_calls now (call_timestamps usage)
      in rbind (ensure (pred_option (\<lambda>n. call_count usage + 1 \<le> n) (max_calls limits))
                  (constraint_violation ''max_calls'')) (\<lambda>_.
         rbind (ensure (pred_option (\<lambda>f. decimal_sum (spent_amount usage) amount \<le> decimal_of_float f)
                    (max_amount_usd limits))
                  (constraint_violation ''max_amount_usd'')) (\<lambda>_.
         rbind (ensure (pred_option (\<lambda>n. int (length recent) + 1 \<le> n) (rate_limit_per_min limits))
                  (constraint_violation ''rate_limit_per_min'')) (\<lambda>_.
         Inr (claims, usage, recent)))))"

definition record_usage ::
  "rat \<Rightarrow> pyfloat \<Rightarrow> capability_claims \<times> token_usage \<times> rat list \<Rightarrow> usage_state \<Rightarrow> usage_state" where
  \<comment> \<open>the body of the second loop\<close>
  "record_usage now amount entry U =
     (case entry of (claims, usage, recent) \<Rightarrow>
        U(jti claims \<mapsto>
          usage\<lparr>call_count := call_count usage + 1,
                spent_amount := decimal_sum (spent_amount usage) amount,
                call_timestamps := recent @ [now],
                expires_at := max (expires_at usage)
                  (of_int (exp_at claims + RETENTION_AFTER_EXP_SECONDS))\<rparr>))"

definition reserve ::
  "rat \<Rightarrow> capability_claims list \<Rightarrow> pyfloat \<Rightarrow> usage_state \<Rightarrow> unit result \<times> usage_state" where
  \<comment> \<open>what \<open>check_and_record_chain\<close> does under its lock, after reading the clock\<close>
  "reserve now chain amount U =
     (if list_ex (retention_over now) chain then (Inl (swarm TokenExpiredError), U)
      else
        let U = purge_expired now U
        in (case traverse (check_usage now amount U) chain of
              Inl e \<Rightarrow> (Inl e, U)
            | Inr pending \<Rightarrow> (Inr (), fold (record_usage now amount) pending U)))"

definition chain_ids_ok :: "capability_claims list \<Rightarrow> bool" where
  "chain_ids_ok chain = (chain \<noteq> [] \<and> distinct (List.map jti chain))"

record usage_world = store_world +
  usage :: usage_state

definition tracker_record_chain ::
  "capability_claims list \<Rightarrow> pyval \<Rightarrow> ('x usage_world_scheme, unit) py" where
  \<comment> \<open>\<open>UsageTracker.check_and_record_chain\<close>\<close>
  "tracker_record_chain chain amount =
     abind (lift (validated_amount amount)) (\<lambda>amount.
     abind (lift (ensure (chain_ids_ok chain) (constraint_violation ''max_calls''))) (\<lambda>_.
     abind time_time (\<lambda>now w.
       case reserve now chain amount (usage w) of (r, U) \<Rightarrow> (r, w\<lparr>usage := U\<rparr>))))"

definition tracker_record :: "capability_claims \<Rightarrow> pyval \<Rightarrow> ('x usage_world_scheme, unit) py" where
  \<comment> \<open>\<open>UsageTracker.check_and_record\<close>\<close>
  "tracker_record claims amount = tracker_record_chain [claims] amount"

section \<open>The ledger\<close>

text \<open>An accepted reservation: its instant, its chain, and the amount charged to each token.\<close>

type_synonym reservation = "rat \<times> capability_claims list \<times> rat"

definition charged :: "string \<Rightarrow> reservation \<Rightarrow> bool" where
  "charged j r = (case r of (t, chain, a) \<Rightarrow> j \<in> jti ` set chain)"

definition calls_of :: "reservation list \<Rightarrow> string \<Rightarrow> int" where
  "calls_of h j = int (length (filter (charged j) h))"

definition spent_of :: "reservation list \<Rightarrow> string \<Rightarrow> rat" where
  "spent_of h j = sum_list (List.map (\<lambda>(t, chain, a). a) (filter (charged j) h))"

definition times_of :: "reservation list \<Rightarrow> string \<Rightarrow> rat list" where
  "times_of h j = List.map fst (filter (charged j) h)"

definition allows :: "reservation list \<Rightarrow> rat \<Rightarrow> rat \<Rightarrow> capability_claims \<Rightarrow> bool" where
  \<comment> \<open>one more call at \<open>now\<close> for amount \<open>a\<close> is within the limits of the token\<close>
  "allows h now a c =
     (now < of_int (exp_at c + RETENTION_AFTER_EXP_SECONDS) \<and>
      pred_option (\<lambda>n. calls_of h (jti c) + 1 \<le> n) (max_calls (constraints c)) \<and>
      pred_option (\<lambda>f. spent_of h (jti c) + a \<le> decimal_of_float f) (max_amount_usd (constraints c)) \<and>
      pred_option (\<lambda>n. int (length (recent_calls now (times_of h (jti c)))) + 1 \<le> n)
        (rate_limit_per_min (constraints c)))"

text \<open>
  A backend may ask for more than the limits of the tokens (a shared budget); what it asks of a chain
  is its \<^emph>\<open>admission\<close>.
\<close>

type_synonym admission = "reservation list \<Rightarrow> rat \<Rightarrow> capability_claims list \<Rightarrow> bool"

abbreviation any_chain :: admission where
  "any_chain \<equiv> \<lambda>h now chain. True"

definition ledger_step :: "admission \<Rightarrow> reservation \<Rightarrow> reservation list \<Rightarrow> reservation list" where
  "ledger_step admit r h =
     (case r of (now, chain, a) \<Rightarrow>
        if admit h now chain \<and> list_all (allows h now a) chain then h @ [(now, chain, a)] else h)"

lemma ledger_simps [simp]:
  "calls_of [] j = 0" "spent_of [] j = 0" "times_of [] j = []"
  "calls_of (h @ [(t, chain, a)]) j = calls_of h j + (if j \<in> jti ` set chain then 1 else 0)"
  "spent_of (h @ [(t, chain, a)]) j = spent_of h j + (if j \<in> jti ` set chain then a else 0)"
  "times_of (h @ [(t, chain, a)]) j = times_of h j @ (if j \<in> jti ` set chain then [t] else [])"
  by (simp_all add: calls_of_def spent_of_def times_of_def charged_def)

text \<open>
  The tokens of a deployment: token ids identify tokens, and budgets are floats. A request
  names such tokens and charges a finite, non-negative float.
\<close>

definition token_pool :: "capability_claims set \<Rightarrow> bool" where
  "token_pool K \<longleftrightarrow>
     inj_on jti K \<and>
     (\<forall>c \<in> K. \<forall>f. max_amount_usd (constraints c) = Some f \<longrightarrow> (\<exists>x. f = Fin x \<and> double_range x))"

definition amount_ok :: "pyfloat \<Rightarrow> bool" where
  "amount_ok f \<longleftrightarrow> (\<exists>x. f = Fin x \<and> 0 \<le> x \<and> double_range x)"

definition request_ok :: "capability_claims set \<Rightarrow> capability_claims list \<times> pyfloat \<Rightarrow> bool" where
  "request_ok K r \<longleftrightarrow> (case r of (chain, f) \<Rightarrow> set chain \<subseteq> K \<and> chain_ids_ok chain \<and> amount_ok f)"

type_synonym request = "rat \<times> capability_claims list \<times> pyfloat"

definition requests_ok :: "capability_claims set \<Rightarrow> request list \<Rightarrow> bool" where
  \<comment> \<open>well-formed requests at instants that never decrease\<close>
  "requests_ok K rs \<longleftrightarrow>
     token_pool K \<and> sorted (List.map fst rs) \<and> (\<forall>(now, r) \<in> set rs. request_ok K r)"

definition ledger_request :: "request \<Rightarrow> reservation" where
  "ledger_request r = (case r of (now, chain, f) \<Rightarrow> (now, chain, decimal_of_float f))"

definition ledger :: "admission \<Rightarrow> request list \<Rightarrow> reservation list" where
  \<comment> \<open>the accepted reservations of a sequence of requests\<close>
  "ledger admit rs = fold (\<lambda>r. ledger_step admit (ledger_request r)) rs []"

section \<open>The contract of a usage backend\<close>

locale usage_backend =
  fixes init :: 's
    and record_chain :: "rat \<Rightarrow> capability_claims list \<Rightarrow> pyfloat \<Rightarrow> 's \<Rightarrow> unit result \<times> 's"
    and rep :: "capability_claims set \<Rightarrow> rat \<Rightarrow> reservation list \<Rightarrow> 's \<Rightarrow> bool"
    and admit :: admission
  assumes rep_init: "rep K t [] init"
    and rep_record: "token_pool K \<Longrightarrow> rep K t h s \<Longrightarrow> t \<le> now \<Longrightarrow> request_ok K (chain, f) \<Longrightarrow>
        rep K now (ledger_step admit (ledger_request (now, chain, f)) h) (snd (record_chain now chain f s))"
    and verdict: "token_pool K \<Longrightarrow> rep K t h s \<Longrightarrow> t \<le> now \<Longrightarrow> request_ok K (chain, f) \<Longrightarrow>
        fst (record_chain now chain f s) = Inr () \<longleftrightarrow> admit h now chain \<and> list_all (allows h now (decimal_of_float f)) chain"
begin

definition run :: "request list \<Rightarrow> 's \<Rightarrow> 's" where
  "run rs s = fold (\<lambda>(now, chain, f) s. snd (record_chain now chain f s)) rs s"

lemma rep_run:
  assumes "token_pool K" "rep K t h s" "sorted (t # List.map fst rs)" "\<forall>(now, r) \<in> set rs. request_ok K r"
  shows "rep K (last (t # List.map fst rs)) (fold (\<lambda>r. ledger_step admit (ledger_request r)) rs h) (run rs s)"
  using assms
proof (induction rs arbitrary: t h s)
  case Nil
  then show ?case by (simp add: run_def)
next
  case (Cons r rs)
  obtain now chain f where r: "r = (now, chain, f)" by (cases r)
  with Cons.prems have "rep K now (ledger_step admit (ledger_request r) h) (snd (record_chain now chain f s))"
    by (auto intro: rep_record)
  from Cons.IH [OF Cons.prems(1) this] Cons.prems show ?case
    by (simp add: r run_def)
qed

lemma run_verdict:
  assumes "requests_ok K (rs @ [(now, chain, f)])"
  shows "fst (record_chain now chain f (run rs init)) = Inr () \<longleftrightarrow>
           admit (ledger admit rs) now chain \<and> list_all (allows (ledger admit rs) now (decimal_of_float f)) chain"
proof -
  from assms have K: "token_pool K" "request_ok K (chain, f)" "\<forall>(now, r) \<in> set rs. request_ok K r"
    and le: "sorted (List.map fst rs)" "\<forall>u \<in> set (List.map fst rs). u \<le> now"
    by (simp_all add: requests_ok_def sorted_append)
  define t0 where "t0 = (case rs of [] \<Rightarrow> now | r # _ \<Rightarrow> fst r)"
  have t0: "sorted (t0 # List.map fst rs)" "t0 \<le> now"
    using le unfolding t0_def by (cases rs; simp)+
  have last: "last (t0 # List.map fst rs) \<le> now"
    using le(2) t0(2) last_in_set [of "t0 # List.map fst rs"] by auto
  have "rep K (last (t0 # List.map fst rs)) (ledger admit rs) (run rs init)"
    using rep_run [OF K(1) rep_init t0(1) K(3)] by (simp add: ledger_def)
  then show ?thesis
    by (rule verdict [OF K(1) _ last K(2)])
qed

end

section \<open>What the ledger guarantees\<close>

definition ledger_within :: "capability_claims set \<Rightarrow> reservation list \<Rightarrow> bool" where
  "ledger_within K h \<longleftrightarrow>
     (\<forall>c \<in> K. calls_of h (jti c) = 0 \<or>
        pred_option (\<lambda>n. calls_of h (jti c) \<le> n) (max_calls (constraints c)) \<and>
        pred_option (\<lambda>f. spent_of h (jti c) \<le> decimal_of_float f) (max_amount_usd (constraints c)) \<and>
        pred_option (\<lambda>n. \<forall>ts t. prefix (ts @ [t]) (times_of h (jti c)) \<longrightarrow>
            int (length (recent_calls t (ts @ [t]))) \<le> n) (rate_limit_per_min (constraints c)))"

lemma calls_times: "calls_of h j = int (length (times_of h j))"
  by (simp add: calls_of_def times_of_def)

lemma allowed_within:
  assumes "allows h now a c" "ledger_within {c} h" "c \<in> set chain"
  shows "ledger_within {c} (h @ [(now, chain, a)])"
proof -
  have "int (length (recent_calls t (ts @ [t]))) \<le> n"
    if "rate_limit_per_min (constraints c) = Some n" "prefix (ts @ [t]) (times_of h (jti c) @ [now])" for n ts t
  proof -
    from that(2) consider "ts @ [t] = times_of h (jti c) @ [now]" | "prefix (ts @ [t]) (times_of h (jti c))"
      by (auto simp: prefix_snoc)
    then show ?thesis
    proof cases
      case 1
      with assms(1) that(1) show ?thesis
        by (simp add: allows_def recent_calls_def)
    next
      case 2
      then have "calls_of h (jti c) \<noteq> 0" by (auto simp: calls_times)
      with 2 assms(2) that(1) show ?thesis by (simp add: ledger_within_def)
    qed
  qed
  moreover have "jti c \<in> jti ` set chain" using assms(3) by simp
  ultimately show ?thesis
    using assms(1) by (auto simp: ledger_within_def allows_def option.pred_set)
qed

lemma ledger_step_within:
  assumes "inj_on jti K" "set chain \<subseteq> K" "ledger_within K h"
  shows "ledger_within K (ledger_step admit (now, chain, a) h)"
proof (cases "admit h now chain \<and> list_all (allows h now a) chain")
  case True
  have "ledger_within {c} (h @ [(now, chain, a)])" if "c \<in> K" for c
  proof (cases "jti c \<in> jti ` set chain")
    case charged: True
    with that assms(1,2) have "c \<in> set chain" by (auto dest: inj_onD)
    moreover from this True have "allows h now a c" by (auto simp: list_all_iff)
    ultimately show ?thesis
      using assms(3) that by (intro allowed_within) (auto simp: ledger_within_def)
  next
    case False
    with assms(3) that show ?thesis by (simp add: ledger_within_def)
  qed
  with True show ?thesis by (simp add: ledger_step_def ledger_within_def)
qed (use assms(3) in \<open>auto simp: ledger_step_def\<close>)

lemma ledger_snoc: "ledger admit (rs @ [r]) = ledger_step admit (ledger_request r) (ledger admit rs)"
  by (simp add: ledger_def)

lemma ledger_bounds:
  assumes "inj_on jti K" "\<forall>(now, chain, f) \<in> set rs. set chain \<subseteq> K"
  shows "ledger_within K (ledger admit rs)"
  using assms(2)
proof (induction rs rule: rev_induct)
  case Nil
  then show ?case by (simp add: ledger_def ledger_within_def)
next
  case (snoc r rs)
  then show ?case
    using assms(1) by (cases r) (simp add: ledger_snoc ledger_request_def ledger_step_within)
qed

section \<open>The in-memory tracker keeps the contract\<close>

definition usage_matches :: "rat \<Rightarrow> reservation list \<Rightarrow> capability_claims \<Rightarrow> token_usage \<Rightarrow> bool" where
  \<comment> \<open>the counters of a token are those of the ledger; timestamps as far as they still count\<close>
  "usage_matches t h c u \<longleftrightarrow>
     call_count u = calls_of h (jti c) \<and>
     (max_amount_usd (constraints c) \<noteq> None \<longrightarrow>
        spent_amount u = spent_of h (jti c) \<and> 0 \<le> spent_amount u \<and>
        spent_amount u < decimal_limit \<and> on_grid (- 374) (spent_amount u)) \<and>
     (\<forall>s \<ge> t. recent_calls s (call_timestamps u) = recent_calls s (times_of h (jti c)))"

definition usage_rep ::
  "capability_claims set \<Rightarrow> rat \<Rightarrow> reservation list \<Rightarrow> usage_state \<Rightarrow> bool" where
  "usage_rep K t h U \<longleftrightarrow>
     (\<forall>c \<in> K. case U (jti c) of
        None \<Rightarrow> calls_of h (jti c) = 0 \<or> retention_over t c
      | Some u \<Rightarrow> usage_matches t h c u \<and> of_int (exp_at c + RETENTION_AFTER_EXP_SECONDS) \<le> expires_at u)"

lemma recent_calls_later: "t \<le> s \<Longrightarrow> recent_calls s (recent_calls t ts) = recent_calls s ts"
  by (auto simp: recent_calls_def intro: filter_cong)

lemma recent_calls_append: "recent_calls s (xs @ ys) = recent_calls s xs @ recent_calls s ys"
  by (simp add: recent_calls_def)

lemma usage_matches_other:
  "jti c \<notin> jti ` set chain \<Longrightarrow> usage_matches t (h @ [(now, chain, a)]) c u = usage_matches t h c u"
  by (simp add: usage_matches_def)

lemma retention_over_later: "retention_over t c \<Longrightarrow> t \<le> now \<Longrightarrow> retention_over now c"
  by (simp add: retention_over_def)

lemma usage_matches_later: "usage_matches t h c u \<Longrightarrow> t \<le> now \<Longrightarrow> usage_matches now h c u"
  by (auto simp: usage_matches_def)

lemma usage_rep_purge:
  assumes "usage_rep K t h U" "t \<le> now"
  shows "usage_rep K now h (purge_expired now U)"
  unfolding usage_rep_def
proof
  fix c
  assume "c \<in> K"
  with assms(1) have "case U (jti c) of
        None \<Rightarrow> calls_of h (jti c) = 0 \<or> retention_over t c
      | Some u \<Rightarrow> usage_matches t h c u \<and> of_int (exp_at c + RETENTION_AFTER_EXP_SECONDS) \<le> expires_at u"
    by (simp add: usage_rep_def)
  then show "case purge_expired now U (jti c) of
        None \<Rightarrow> calls_of h (jti c) = 0 \<or> retention_over now c
      | Some u \<Rightarrow> usage_matches now h c u \<and> of_int (exp_at c + RETENTION_AFTER_EXP_SECONDS) \<le> expires_at u"
    using assms(2)
    by (auto simp: purge_expired_def intro: retention_over_later usage_matches_later split: option.splits)
       (simp add: retention_over_def)
qed

lemma usage_get_matches:
  assumes "usage_rep K now h U" "c \<in> K" "\<not> retention_over now c"
  shows "usage_matches now h c (usage_get U (jti c))"
proof (cases "U (jti c)")
  case None
  with assms have none: "calls_of h (jti c) = 0" by (fastforce simp: usage_rep_def)
  then have "filter (charged (jti c)) h = []" by (simp add: calls_of_def)
  then have "times_of h (jti c) = []" "spent_of h (jti c) = 0" by (simp_all add: times_of_def spent_of_def)
  with none None show ?thesis
    by (simp add: usage_get_def new_usage_def usage_matches_def recent_calls_def decimal_limit_pos)
next
  case (Some u)
  with assms show ?thesis by (force simp: usage_rep_def usage_get_def)
qed

lemma matched_sum:
  assumes "usage_matches now h c u" "max_amount_usd (constraints c) \<noteq> None" "amount_ok f"
  shows "decimal_sum (spent_amount u) f = spent_of h (jti c) + decimal_of_float f"
  using assms decimal_sum_exact by (auto simp: usage_matches_def amount_ok_def decimal_of_float_def)

lemma check_usage_iff:
  assumes "usage_rep K now h U" "c \<in> K" "\<not> retention_over now c" "amount_ok f"
  shows "check_usage now f U c = Inr p \<longleftrightarrow>
           allows h now (decimal_of_float f) c \<and>
           p = (c, usage_get U (jti c), recent_calls now (call_timestamps (usage_get U (jti c))))"
proof -
  let ?u = "usage_get U (jti c)"
  note m = usage_get_matches [OF assms(1-3)]
  have "pred_option (\<lambda>g. decimal_sum (spent_amount ?u) f \<le> decimal_of_float g) (max_amount_usd (constraints c))
      \<longleftrightarrow> pred_option (\<lambda>g. spent_of h (jti c) + decimal_of_float f \<le> decimal_of_float g) (max_amount_usd (constraints c))"
    using matched_sum [OF m _ assms(4)] by (cases "max_amount_usd (constraints c)") auto
  moreover have "recent_calls now (call_timestamps ?u) = recent_calls now (times_of h (jti c))"
      "call_count ?u = calls_of h (jti c)"
    using m by (simp_all add: usage_matches_def)
  ultimately show ?thesis
    using assms(3) by (auto simp: check_usage_def Let_def allows_def retention_over_def py_inv)
qed

lemma recorded_matches:
  assumes "token_pool K" "c \<in> K" "usage_matches now h c u" "amount_ok f"
    and "allows h now (decimal_of_float f) c" "c \<in> set chain"
  shows "usage_matches now (h @ [(now, chain, decimal_of_float f)]) c
           (u\<lparr>call_count := call_count u + 1, spent_amount := decimal_sum (spent_amount u) f,
              call_timestamps := recent_calls now (call_timestamps u) @ [now], expires_at := e\<rparr>)"
proof -
  let ?s = "decimal_sum (spent_amount u) f"
  have "?s = spent_of h (jti c) + decimal_of_float f \<and> 0 \<le> ?s \<and> ?s < decimal_limit \<and> on_grid (- 374) ?s"
    if m: "max_amount_usd (constraints c) \<noteq> None"
  proof -
    note s = matched_sum [OF assms(3) m assms(4)]
    obtain x where f: "f = Fin x" "0 \<le> x" "double_range x"
      using assms(4) by (auto simp: amount_ok_def)
    obtain y where y: "max_amount_usd (constraints c) = Some (Fin y)" "double_range y"
      using m assms(1,2) by (force simp: token_pool_def)
    then have "?s \<le> repr_value y"
      using assms(5) s by (simp add: allows_def decimal_of_float_def)
    then have "?s < decimal_limit"
      using repr_value_bound [OF y(2)] by linarith
    moreover have "0 \<le> ?s" "on_grid (- 374) ?s"
      using s f assms(3) m repr_value_nonneg [OF f(2)] repr_value_grid [OF f(3)]
      by (auto simp: usage_matches_def decimal_of_float_def intro: on_grid_add)
    ultimately show ?thesis using s by simp
  qed
  with assms(3,6) show ?thesis
    by (auto simp: usage_matches_def recent_calls_later recent_calls_append)
qed

lemma fold_record_usage:
  assumes "distinct (List.map jti cs)"
  shows "fold (record_usage now f) (List.map (\<lambda>c. (c, g c, r c)) cs) U j =
     (case find (\<lambda>c. jti c = j) cs of
        None \<Rightarrow> U j
      | Some c \<Rightarrow> record_usage now f (c, g c, r c) Map.empty j)"
  using assms
proof (induction cs arbitrary: U)
  case (Cons c cs)
  then have "find (\<lambda>d. jti d = jti c) cs = None"
    by (auto simp: find_None_iff image_iff)
  with Cons show ?case
    by (auto simp: record_usage_def split: option.splits)
qed simp

abbreviation pending_entry ::
  "rat \<Rightarrow> usage_state \<Rightarrow> capability_claims \<Rightarrow> capability_claims \<times> token_usage \<times> rat list" where
  "pending_entry now U \<equiv> \<lambda>c. (c, usage_get U (jti c), recent_calls now (call_timestamps (usage_get U (jti c))))"

lemma reserve_checked:
  assumes "usage_rep K now h U" "set chain \<subseteq> K" "amount_ok f" "\<not> list_ex (retention_over now) chain"
  shows "traverse (check_usage now f U) chain = Inr pending \<longleftrightarrow>
     list_all (allows h now (decimal_of_float f)) chain \<and>
     pending = List.map (pending_entry now U) chain"
  using assms(2,4)
proof (induction chain arbitrary: pending)
  case (Cons c chain)
  then have "c \<in> K" "\<not> retention_over now c" by auto
  from check_usage_iff [OF assms(1) this assms(3)] Cons show ?case
    by (auto simp: py_inv)
qed auto

lemma allows_in_time: "allows h now a c \<Longrightarrow> \<not> retention_over now c"
  by (simp add: allows_def retention_over_def)

lemma reserve_cases:
  assumes "usage_rep K t h U" "t \<le> now" "set chain \<subseteq> K" "amount_ok f"
  obtains (accepted) "list_all (allows h now (decimal_of_float f)) chain"
      "reserve now chain f U = (Inr (), fold (record_usage now f) (List.map (pending_entry now (purge_expired now U)) chain) (purge_expired now U))"
    | (rejected) e where "\<not> list_all (allows h now (decimal_of_float f)) chain"
      "reserve now chain f U = (Inl e, U) \<or> reserve now chain f U = (Inl e, purge_expired now U)"
proof (cases "list_ex (retention_over now) chain")
  case True
  then have "\<not> list_all (allows h now (decimal_of_float f)) chain"
    using allows_in_time by (force simp: list_all_iff list_ex_iff)
  with True rejected [of "swarm TokenExpiredError"] show ?thesis by (simp add: reserve_def)
next
  case False
  note checked = reserve_checked [OF usage_rep_purge [OF assms(1,2)] assms(3,4) False]
  show ?thesis
  proof (cases "traverse (check_usage now f (purge_expired now U)) chain")
    case (Inl e)
    with checked False rejected show ?thesis by (auto simp: reserve_def Let_def)
  next
    case (Inr pending)
    with checked [of pending] have "list_all (allows h now (decimal_of_float f)) chain" and
      "pending = List.map (pending_entry now (purge_expired now U)) chain"
      by blast+
    with Inr False accepted show ?thesis by (simp add: reserve_def Let_def)
  qed
qed

lemma usage_rep_record:
  assumes "token_pool K" "usage_rep K now h U" "set chain \<subseteq> K" "distinct (List.map jti chain)" "amount_ok f"
    and "list_all (allows h now (decimal_of_float f)) chain"
  shows "usage_rep K now (h @ [(now, chain, decimal_of_float f)])
     (fold (record_usage now f) (List.map (pending_entry now U) chain) U)"
  unfolding usage_rep_def
proof
  fix c
  assume c: "c \<in> K"
  show "case fold (record_usage now f) (List.map (pending_entry now U) chain) U (jti c) of
        None \<Rightarrow> calls_of (h @ [(now, chain, decimal_of_float f)]) (jti c) = 0 \<or> retention_over now c
      | Some u \<Rightarrow> usage_matches now (h @ [(now, chain, decimal_of_float f)]) c u \<and>
          of_int (exp_at c + RETENTION_AFTER_EXP_SECONDS) \<le> expires_at u"
  proof (cases "find (\<lambda>d. jti d = jti c) chain")
    case None
    then have "jti c \<notin> jti ` set chain" by (force simp: find_None_iff)
    moreover from assms(2) c have "case U (jti c) of
        None \<Rightarrow> calls_of h (jti c) = 0 \<or> retention_over now c
      | Some u \<Rightarrow> usage_matches now h c u \<and> of_int (exp_at c + RETENTION_AFTER_EXP_SECONDS) \<le> expires_at u"
      by (simp add: usage_rep_def)
    ultimately show ?thesis
      by (cases "U (jti c)") (simp_all add: fold_record_usage [OF assms(4)] None usage_matches_other)
  next
    case (Some d)
    then have "d \<in> set chain" "jti d = jti c"
      by (auto simp: find_Some_iff)
    with c assms(1,3) have mem: "d = c" "c \<in> set chain"
      by (auto simp: token_pool_def dest: inj_onD)
    with assms(6) have allowed: "allows h now (decimal_of_float f) c" by (auto simp: list_all_iff)
    note m = usage_get_matches [OF assms(2) c allows_in_time [OF allowed]]
    show ?thesis
      using Some mem recorded_matches [OF assms(1) c m assms(5) allowed mem(2)]
      by (simp add: fold_record_usage [OF assms(4)] record_usage_def)
  qed
qed

interpretation memory_usage: usage_backend Map.empty reserve usage_rep any_chain
proof unfold_locales
  fix K t
  show "usage_rep K t [] Map.empty" by (simp add: usage_rep_def)
next
  fix K t h U now chain f
  assume a: "token_pool K" "usage_rep K t h U" "t \<le> now" "request_ok K (chain, f)"
  then have r: "set chain \<subseteq> K" "distinct (List.map jti chain)" "amount_ok f"
    by (auto simp: request_ok_def chain_ids_ok_def)
  note purged = usage_rep_purge [OF a(2,3)]
  from a(2,3) r(1,3)
  show "usage_rep K now (ledger_step any_chain (ledger_request (now, chain, f)) h) (snd (reserve now chain f U))"
  proof (cases rule: reserve_cases)
    case accepted
    then show ?thesis
      using usage_rep_record [OF a(1) purged r] by (simp add: ledger_step_def ledger_request_def)
  next
    case (rejected e)
    moreover have "usage_rep K now h U"
      using a(2,3) by (auto simp: usage_rep_def intro: retention_over_later usage_matches_later split: option.splits)
    ultimately show ?thesis
      using purged by (auto simp: ledger_step_def ledger_request_def)
  qed
  from a(2,3) r(1,3)
  show "fst (reserve now chain f U) = Inr () \<longleftrightarrow> True \<and> list_all (allows h now (decimal_of_float f)) chain"
    by (cases rule: reserve_cases) auto
qed

section \<open>Accepted requests\<close>

text \<open>The requests a backend accepted, in order.\<close>

fun accepted :: "(rat \<Rightarrow> capability_claims list \<Rightarrow> pyfloat \<Rightarrow> 's \<Rightarrow> unit result \<times> 's) \<Rightarrow> 's \<Rightarrow> request list \<Rightarrow> request list" where
  "accepted chg s [] = []"
| "accepted chg s ((now, chain, f) # rs) =
     (case chg now chain f s of
        (Inr _, s') \<Rightarrow> (now, chain, f) # accepted chg s' rs
      | (Inl _, s') \<Rightarrow> accepted chg s' rs)"

lemma accepted_append:
  "accepted chg s (xs @ [(now, chain, f)]) =
     accepted chg s xs @
     (if fst (chg now chain f (fold (\<lambda>(now, chain, f) s. snd (chg now chain f s)) xs s)) = Inr ()
      then [(now, chain, f)] else [])"
  by (induction chg s xs rule: accepted.induct) (auto split: sum.split prod.split)

context usage_backend begin

lemma requests_ok_prefix: "requests_ok K (rs @ [r]) \<Longrightarrow> requests_ok K rs"
  by (auto simp: requests_ok_def sorted_append)

lemma accepted_ledger:
  assumes "requests_ok K rs"
  shows "List.map ledger_request (accepted record_chain init rs) = ledger admit rs"
  using assms
proof (induction rs rule: rev_induct)
  case Nil
  then show ?case by (simp add: ledger_def)
next
  case (snoc r rs)
  obtain now chain f where r: "r = (now, chain, f)" by (cases r)
  with snoc.prems run_verdict [of K rs now chain f]
  have "fst (record_chain now chain f (run rs init)) = Inr () \<longleftrightarrow>
      admit (ledger admit rs) now chain \<and> list_all (allows (ledger admit rs) now (decimal_of_float f)) chain"
    by simp
  with snoc.IH [OF requests_ok_prefix [OF snoc.prems]] show ?case
    by (simp add: r accepted_append run_def ledger_snoc ledger_step_def ledger_request_def)
qed

lemma requests_within:
  assumes "requests_ok K rs"
  shows "ledger_within K (List.map ledger_request (accepted record_chain init rs))"
proof -
  have "inj_on jti K" "\<forall>(now, chain, f) \<in> set rs. set chain \<subseteq> K"
    using assms by (auto simp: requests_ok_def token_pool_def request_ok_def)
  with accepted_ledger [OF assms] show ?thesis by (simp add: ledger_bounds)
qed

end

section \<open>A sample token\<close>

definition one_call :: capability_claims where
  \<comment> \<open>a token for one call, spending at most 2\<close>
  "one_call = \<lparr>iss = ''a'', sub = ''t'', capabilities = [''read''],
     constraints = no_constraints\<lparr>max_calls := Some 1, max_amount_usd := Some (Fin 2)\<rparr>,
     iat = 100, exp_at = 110, jti = ''j'', dlg = None, prf_token = None\<rparr>"

lemma one_call_simps [simp]:
  "exp_at one_call = 110" "jti one_call = ''j''" "max_calls (constraints one_call) = Some 1"
  "max_amount_usd (constraints one_call) = Some (Fin 2)" "rate_limit_per_min (constraints one_call) = None"
  by (simp_all add: one_call_def no_constraints_def)

lemma one_call_requests: "requests_ok {one_call} ([(101, [one_call], Fin 0)] @ [(102, [one_call], Fin 0)])"
proof -
  have "round_double 2 = Fin 2" by code_simp
  then have "double_range 2" by (rule round_double_range)
  moreover have "double_range 0" by (simp add: double_range_def)
  ultimately show ?thesis
    by (simp add: requests_ok_def token_pool_def request_ok_def chain_ids_ok_def amount_ok_def)
qed

lemma one_call_accepted: "accepted reserve Map.empty [(101, [one_call], Fin 0)] = [(101, [one_call], Fin 0)]"
proof -
  have "decimal_sum 0 (Fin 0) \<le> decimal_of_float (Fin 2)"
    using repr_value_nonneg [of 2] by (simp add: decimal_sum_def round_sig_def decimal_of_float_def repr_value_def [of 0])
  then show ?thesis
    by (simp add: reserve_def retention_over_def purge_expired_def check_usage_def usage_get_def new_usage_def
        recent_calls_def limits_defs Let_def)
qed

section \<open>Properties\<close>

text \<open>C4. The in-memory tracker refines the ledger. For any sequence of requests at instants that never
  decrease, it accepts the next one exactly when the ledger of all requests accepted so far allows one
  more call for every token of the chain: forgetting records and timestamps, the order of checks and
  the rounding of amounts never change a verdict.\<close>

theorem tracker_is_ledger:
  assumes "requests_ok K (rs @ [(now, chain, f)])"
  shows "fst (reserve now chain f (memory_usage.run rs Map.empty)) = Inr () \<longleftrightarrow>
     list_all (allows (List.map ledger_request (accepted reserve Map.empty rs)) now (decimal_of_float f)) chain"
  using memory_usage.run_verdict [OF assms] memory_usage.accepted_ledger [OF memory_usage.requests_ok_prefix [OF assms]]
  by simp

theorem tracker_is_ledger_witness:
  "fst (reserve 102 [one_call] (Fin 0) (memory_usage.run [(101, [one_call], Fin 0)] Map.empty)) \<noteq> Inr ()"
proof -
  have "\<not> list_all (allows (List.map ledger_request [(101, [one_call], Fin 0)]) 102 (decimal_of_float (Fin 0))) [one_call]"
    by (simp add: allows_def ledger_request_def calls_of_def charged_def)
  with tracker_is_ledger [OF one_call_requests] show ?thesis unfolding one_call_accepted by blast
qed

text \<open>C5. The in-memory tracker keeps every limit. Over any such sequence, the accepted calls that charge
  a token (directly or through a delegated one) are at most its \<open>max_calls\<close>, the sum of their amounts, as
  exact decimals, is at most its \<open>max_amount_usd\<close>, and no accepted call closes a window of 60 seconds
  with more than \<open>rate_limit_per_min\<close> calls.\<close>

theorem tracker_within_limits:
  assumes "requests_ok K rs" "c \<in> K"
  defines "h \<equiv> List.map ledger_request (accepted reserve Map.empty rs)"
  shows "calls_of h (jti c) = 0 \<or>
     pred_option (\<lambda>n. calls_of h (jti c) \<le> n) (max_calls (constraints c)) \<and>
     pred_option (\<lambda>f. spent_of h (jti c) \<le> decimal_of_float f) (max_amount_usd (constraints c)) \<and>
     pred_option (\<lambda>n. \<forall>ts t. prefix (ts @ [t]) (times_of h (jti c)) \<longrightarrow>
         int (length (recent_calls t (ts @ [t]))) \<le> n) (rate_limit_per_min (constraints c))"
  using memory_usage.requests_within [OF assms(1)] assms(2) by (simp add: ledger_within_def h_def)


theorem tracker_within_limits_witness:
  "calls_of (List.map ledger_request (accepted reserve Map.empty
      ([(101, [one_call], Fin 0)] @ [(102, [one_call], Fin 0)]))) ''j'' \<le> 1"
  using tracker_within_limits [OF one_call_requests, of one_call]
  by (simp only: one_call_simps option.pred_inject singletonI simp_thms) auto

end
