(* ===== verification/Policy.thy ===== *)
theory Policy
  imports Token
begin

text \<open>
  \<open>swarmauth/policy.py\<close> (\<open>Grant\<close>, \<open>IssuerPolicy\<close>) and the \<open>TokenIssuer\<close> of
  \<open>swarmauth/middleware.py\<close>, which signs nothing its policy does not cover. A grant is built
  from untrusted-looking JSON configuration, so the constructor is modelled on raw values with
  every check it makes. \<open>permits\<close> states what a grant covers; \<open>policy_check\<close> is shown to
  decide it, and \<open>permits\<close> to be closed under attenuation of the request.
\<close>

section \<open>Grants\<close>

record grant =
  grant_iss :: pyval
  grant_sub :: pyval
  grant_capabilities :: "string list"
  grant_max_ttl :: int
  grant_max_calls :: "int option"
  grant_max_amount :: "pyfloat option"
  grant_rate_limit :: "int option"
  delegates :: "string list"
  pinned_params :: params

definition py_truth :: "pyval \<Rightarrow> bool" where
  \<comment> \<open>\<open>bool(v)\<close>\<close>
  "py_truth v =
     (case v of
        PNone \<Rightarrow> False
      | PBool b \<Rightarrow> b
      | PInt n \<Rightarrow> n \<noteq> 0
      | PFloat f \<Rightarrow> f \<noteq> Fin 0
      | PStr s \<Rightarrow> s \<noteq> []
      | PList xs \<Rightarrow> xs \<noteq> []
      | PTuple xs \<Rightarrow> xs \<noteq> []
      | PDict d \<Rightarrow> d \<noteq> [])"

definition py_tuple :: "pyval \<Rightarrow> pyval list result" where
  \<comment> \<open>\<open>tuple(v)\<close>\<close>
  "py_tuple v =
     (case v of
        PList xs \<Rightarrow> Inr xs
      | PTuple xs \<Rightarrow> Inr xs
      | PStr s \<Rightarrow> Inr (List.map (\<lambda>c. PStr [c]) s)
      | PDict d \<Rightarrow> Inr (List.map (\<lambda>(k, _). PStr k) d)
      | _ \<Rightarrow> Inl TypeError)"

definition py_dict_of :: "pyval \<Rightarrow> params result" where
  \<comment> \<open>\<open>dict(v)\<close>: a mapping, or an iterable of pairs. A key that is no string is an error of its
    own in \<open>from_dict\<close>, which validates the pins right after.\<close>
  "py_dict_of v =
     (case v of
        PDict d \<Rightarrow> Inr d
      | _ \<Rightarrow>
          rbind (py_tuple v) (\<lambda>items.
          rbind (traverse (\<lambda>item. rbind (py_tuple item) (\<lambda>pair.
                   case pair of [PStr k, x] \<Rightarrow> Inr (k, x) | _ \<Rightarrow> Inl ValueError)) items) (\<lambda>pairs.
          Inr (fold (\<lambda>(k, x). AList.update k x) pairs []))))"

definition nonempty_string :: "pyval \<Rightarrow> string result" where
  "nonempty_string v =
     (case v of PStr s \<Rightarrow> if s \<noteq> [] then Inr s else Inl ValueError | _ \<Rightarrow> Inl ValueError)"

definition grant_ttl :: "pyval \<Rightarrow> int result" where
  "grant_ttl v =
     (case v of
        PInt n \<Rightarrow> if n \<le> 0 \<or> MAX_TTL_SECONDS < n then Inl ValueError else Inr n
      | _ \<Rightarrow> Inl ValueError)"

definition grant_count :: "pyval \<Rightarrow> int option result" where
  \<comment> \<open>\<open>max_calls\<close> and \<open>rate_limit_per_min\<close>\<close>
  "grant_count v =
     (case v of
        PNone \<Rightarrow> Inr None
      | PInt n \<Rightarrow> if n < 1 then Inl ValueError else Inr (Some n)
      | _ \<Rightarrow> Inl ValueError)"

definition grant_amount :: "pyval \<Rightarrow> pyfloat option result" where
  \<comment> \<open>\<open>math.isfinite\<close> of an int that no float can hold raises OverflowError\<close>
  "grant_amount v =
     (case v of
        PNone \<Rightarrow> Inr None
      | PInt n \<Rightarrow>
          rbind (float_of_int n) (\<lambda>_.
          if n < 0 then Inl ValueError else Inr (Some (Fin (of_int n))))
      | PFloat f \<Rightarrow> if \<not> isfinite f \<or> float_less f (Fin 0) then Inl ValueError else Inr (Some f)
      | _ \<Rightarrow> Inl ValueError)"

definition field_or :: "pyval \<Rightarrow> params \<Rightarrow> string \<Rightarrow> pyval" where
  \<comment> \<open>a keyword argument, or the field's default\<close>
  "field_or dflt entry k = (case map_of entry k of None \<Rightarrow> dflt | Some v \<Rightarrow> v)"

definition make_grant :: "params \<Rightarrow> grant result" where
  \<comment> \<open>\<open>Grant(**entry)\<close> with \<open>__post_init__\<close>\<close>
  "make_grant entry =
     rbind (ensure (list_all (\<lambda>k. k \<in> set [''iss'', ''sub'', ''capabilities'', ''max_ttl_seconds'',
               ''max_calls'', ''max_amount_usd'', ''rate_limit_per_min'', ''delegates'', ''pinned_params''])
              (dict_keys entry)
            \<and> list_all (\<lambda>k. map_of entry k \<noteq> None) [''iss'', ''sub'', ''capabilities'']) TypeError) (\<lambda>_.
     rbind (ensure (py_truth (dict_get entry ''iss'') \<and> py_truth (dict_get entry ''sub'')) ValueError) (\<lambda>_.
     rbind (py_tuple (dict_get entry ''capabilities'')) (\<lambda>raw_caps.
     rbind (ensure (raw_caps \<noteq> []) ValueError) (\<lambda>_.
     rbind (traverse nonempty_string raw_caps) (\<lambda>caps.
     rbind (grant_ttl (field_or (PInt MAX_TTL_SECONDS) entry ''max_ttl_seconds'')) (\<lambda>ttl.
     rbind (grant_count (field_or PNone entry ''max_calls'')) (\<lambda>calls.
     rbind (grant_amount (field_or PNone entry ''max_amount_usd'')) (\<lambda>amount.
     rbind (grant_count (field_or PNone entry ''rate_limit_per_min'')) (\<lambda>rate.
     rbind (py_tuple (field_or (PList []) entry ''delegates'')) (\<lambda>raw_delegates.
     rbind (traverse nonempty_string raw_delegates) (\<lambda>dels.
     rbind (py_dict_of (field_or (PDict []) entry ''pinned_params'')) (\<lambda>pins.
     Inr \<lparr>grant_iss = dict_get entry ''iss'', grant_sub = dict_get entry ''sub'',
       grant_capabilities = caps, grant_max_ttl = ttl, grant_max_calls = calls,
       grant_max_amount = amount, grant_rate_limit = rate, delegates = dels, pinned_params = pins\<rparr>))))))))))))"

section \<open>The issuer policy\<close>

type_synonym issuer_policy = "grant list"

definition policy_allow :: "grant \<Rightarrow> issuer_policy \<Rightarrow> issuer_policy" where
  "policy_allow g gs = gs @ [g]"

definition load_grant :: "pyval \<Rightarrow> grant result" where
  \<comment> \<open>one turn of the loop of \<open>from_dict\<close>\<close>
  "load_grant v =
     (case v of
        PDict entry \<Rightarrow>
          rbind (make_grant entry) (\<lambda>g.
          rbind (make_constraints (no_constraints\<lparr>allowed_params := pinned_params g\<rparr>)) (\<lambda>_.
          Inr g))
      | _ \<Rightarrow> Inl ValueError)"

definition policy_from_dict :: "pyval \<Rightarrow> issuer_policy result" where
  "policy_from_dict v =
     (case v of
        PDict d \<Rightarrow>
          (if set (dict_keys d) \<noteq> {''grants''} then Inl ValueError
           else (case dict_get d ''grants'' of
                   PList entries \<Rightarrow> traverse load_grant entries
                 | _ \<Rightarrow> Inl ValueError))
      | _ \<Rightarrow> Inl ValueError)"

datatype deny_reason =
    CapabilityExceeds string
  | TtlExceeds
  | MaxCallsExceeds
  | MaxAmountExceeds
  | RateExceeds
  | NotPinned string
  | NoSharedBudget
  | NotDelegable string

definition py_greater :: "pyval \<Rightarrow> int \<Rightarrow> bool result" where
  \<comment> \<open>\<open>v > n\<close>\<close>
  "py_greater v n =
     (case as_number v of None \<Rightarrow> Inl TypeError | Some f \<Rightarrow> Inr (float_less (Fin (of_int n)) f))"

definition grant_denies ::
  "grant \<Rightarrow> string list \<Rightarrow> constraints \<Rightarrow> pyval \<Rightarrow> string option \<Rightarrow> deny_reason option result" where
  "grant_denies g caps limits ttl_seconds delegate =
     (case find (\<lambda>capability. \<not> capability_covered capability (grant_capabilities g)) caps of
        Some capability \<Rightarrow> Inr (Some (CapabilityExceeds capability))
      | None \<Rightarrow>
          rbind (py_greater ttl_seconds (grant_max_ttl g)) (\<lambda>too_long.
          if too_long then Inr (Some TtlExceeds)
          else if limit_is_wider (int_limit (max_calls limits)) (int_limit (grant_max_calls g))
          then Inr (Some MaxCallsExceeds)
          else if limit_is_wider (max_amount_usd limits) (grant_max_amount g)
          then Inr (Some MaxAmountExceeds)
          else if limit_is_wider (int_limit (rate_limit_per_min limits)) (int_limit (grant_rate_limit g))
          then Inr (Some RateExceeds)
          else (case find (\<lambda>pin. \<not> pin_holds (allowed_params limits) pin) (pinned_params g) of
                  Some pin \<Rightarrow> Inr (Some (NotPinned (fst pin)))
                | None \<Rightarrow>
                    if (case map_of (pinned_params g) ''budget_id'' of
                          None \<Rightarrow> False
                        | Some b \<Rightarrow> \<not> py_eq (opt_value PStr (shared_budget limits)) b)
                    then Inr (Some NoSharedBudget)
                    else (case delegate of
                            None \<Rightarrow> Inr None
                          | Some d \<Rightarrow> if d \<in> set (delegates g) then Inr None else Inr (Some (NotDelegable d))))))"

fun try_grants ::
  "string list \<Rightarrow> constraints \<Rightarrow> pyval \<Rightarrow> string option \<Rightarrow> grant list \<Rightarrow> unit result" where
  \<comment> \<open>the loop over the candidates\<close>
  "try_grants caps limits ttl_seconds delegate [] = Inl (swarm PolicyViolationError)"
| "try_grants caps limits ttl_seconds delegate (g # gs) =
     rbind (grant_denies g caps limits ttl_seconds delegate) (\<lambda>reason.
     if reason = None then Inr () else try_grants caps limits ttl_seconds delegate gs)"

definition policy_check ::
  "issuer_policy \<Rightarrow> string \<Rightarrow> string \<Rightarrow> string list \<Rightarrow> constraints \<Rightarrow> pyval \<Rightarrow> string option \<Rightarrow> unit result" where
  "policy_check gs issuer subject caps limits ttl_seconds delegate =
     (let candidates = filter (\<lambda>g. py_eq (grant_iss g) (PStr issuer) \<and> py_eq (grant_sub g) (PStr subject)) gs
      in if candidates = [] then Inl (swarm PolicyViolationError)
         else try_grants caps limits ttl_seconds delegate candidates)"

section \<open>The token issuer\<close>

record token_issuer =
  keypair :: key_pair
  policy :: "issuer_policy option"

definition issuer_check ::
  "token_issuer \<Rightarrow> string \<Rightarrow> string \<Rightarrow> string list \<Rightarrow> constraints \<Rightarrow> pyval \<Rightarrow> string option \<Rightarrow> unit result" where
  \<comment> \<open>\<open>if self.policy is not None: self.policy.check(...)\<close>\<close>
  "issuer_check I issuer subject caps limits ttl_seconds delegate =
     (case policy I of
        None \<Rightarrow> Inr ()
      | Some gs \<Rightarrow> policy_check gs issuer subject caps limits ttl_seconds delegate)"

definition issuer_issue ::
  "ext_lib \<Rightarrow> token_issuer \<Rightarrow> string \<Rightarrow> string \<Rightarrow> string list \<Rightarrow> constraints option \<Rightarrow> pyval \<Rightarrow>
   string option \<Rightarrow> ('x world_scheme, string) py" where
  "issuer_issue L I issuer subject caps limits ttl_seconds delegate =
     abind (lift (issuer_check I issuer subject caps (resolve_constraints limits) ttl_seconds delegate)) (\<lambda>_.
     issue_token L (keypair I) issuer subject caps (Some (resolve_constraints limits)) ttl_seconds delegate)"

definition issuer_attenuate ::
  "ext_lib \<Rightarrow> token_issuer \<Rightarrow> string \<Rightarrow> string \<Rightarrow> string list \<Rightarrow> constraints option \<Rightarrow> pyval \<Rightarrow>
   ('x world_scheme, string) py" where
  "issuer_attenuate L I parent issuer caps limits ttl_seconds =
     abind (lift (parse L parent)) (\<lambda>(_, parent_claims, _).
     abind (lift (issuer_check I issuer (sub parent_claims) caps (resolve_constraints limits) ttl_seconds None)) (\<lambda>_.
     attenuate_token L (keypair I) parent issuer caps (Some (resolve_constraints limits)) ttl_seconds))"

section \<open>What a policy permits\<close>

definition permits ::
  "grant \<Rightarrow> string \<Rightarrow> string \<Rightarrow> string list \<Rightarrow> constraints \<Rightarrow> int \<Rightarrow> string option \<Rightarrow> bool" where
  "permits g issuer subject caps limits ttl delegate \<longleftrightarrow>
     grant_iss g = PStr issuer \<and> grant_sub g = PStr subject \<and>
     (\<forall>capability \<in> set caps. grants (grant_capabilities g) capability) \<and>
     ttl \<le> grant_max_ttl g \<and>
     within_limit (int_limit (max_calls limits)) (int_limit (grant_max_calls g)) \<and>
     within_limit (max_amount_usd limits) (grant_max_amount g) \<and>
     within_limit (int_limit (rate_limit_per_min limits)) (int_limit (grant_rate_limit g)) \<and>
     (\<forall>pin \<in> set (pinned_params g). pin_holds (allowed_params limits) pin) \<and>
     (\<forall>b. map_of (pinned_params g) ''budget_id'' = Some b \<longrightarrow>
        py_eq (opt_value PStr (shared_budget limits)) b) \<and>
     (\<forall>d. delegate = Some d \<longrightarrow> d \<in> set (delegates g))"

lemma py_eq_string [simp]: "py_eq v (PStr s) \<longleftrightarrow> v = PStr s"
  by (cases v) auto

lemma grant_denies_iff:
  assumes "grant_iss g = PStr issuer" "grant_sub g = PStr subject"
  shows "grant_denies g caps limits (PInt ttl) delegate = Inr None \<longleftrightarrow>
           permits g issuer subject caps limits ttl delegate"
  using assms
  by (auto simp: grant_denies_def permits_def py_greater_def find_None_iff find_Some_iff capability_covered_iff
      limit_is_wider_iff split: option.splits if_splits)

lemma py_greater_int [simp]: "py_greater (PInt ttl) n = Inr (n < ttl)"
  by (simp add: py_greater_def)

lemma grant_denies_total: "\<exists>r. grant_denies g caps limits (PInt ttl) delegate = Inr r"
  by (auto simp: grant_denies_def split: option.splits)

lemma try_grants_iff:
  "try_grants caps limits (PInt ttl) delegate gs =
     (if \<exists>g \<in> set gs. grant_denies g caps limits (PInt ttl) delegate = Inr None then Inr ()
      else Inl (swarm PolicyViolationError))"
proof (induction gs)
  case (Cons g gs)
  obtain r where "grant_denies g caps limits (PInt ttl) delegate = Inr r"
    using grant_denies_total by blast
  with Cons show ?case by auto
qed simp

lemma policy_check_decides:
  "policy_check gs issuer subject caps limits (PInt ttl) delegate =
     (if \<exists>g \<in> set gs. permits g issuer subject caps limits ttl delegate then Inr ()
      else Inl (swarm PolicyViolationError))"
proof -
  let ?candidates = "filter (\<lambda>g. grant_iss g = PStr issuer \<and> grant_sub g = PStr subject) gs"
  have "permits g issuer subject caps limits ttl delegate \<longleftrightarrow> grant_iss g = PStr issuer \<and>
      grant_sub g = PStr subject \<and> grant_denies g caps limits (PInt ttl) delegate = Inr None" for g
  proof (cases "grant_iss g = PStr issuer \<and> grant_sub g = PStr subject")
    case True
    then show ?thesis using grant_denies_iff [of g issuer subject] by simp
  qed (simp add: permits_def, blast)
  then have "(\<exists>g \<in> set ?candidates. grant_denies g caps limits (PInt ttl) delegate = Inr None) \<longleftrightarrow>
      (\<exists>g \<in> set gs. permits g issuer subject caps limits ttl delegate)"
    by auto
  moreover have "policy_check gs issuer subject caps limits (PInt ttl) delegate =
      try_grants caps limits (PInt ttl) delegate ?candidates"
    by (simp add: policy_check_def Let_def)
  ultimately show ?thesis
    by (simp only: try_grants_iff)
qed

section \<open>Attenuation stays within the grant\<close>

lemma within_limit_trans: "within_limit a b \<Longrightarrow> within_limit b c \<Longrightarrow> within_limit a c"
  unfolding within_limit_def
  by (cases c; cases "the c") force+

lemma permits_attenuated:
  assumes "permits g (iss parent) (sub parent) (capabilities parent) (constraints parent) ttl d"
    and "narrower parent child"
  shows "\<forall>capability \<in> set (capabilities child). grants (grant_capabilities g) capability"
    and "within_limit (int_limit (max_calls (constraints child))) (int_limit (grant_max_calls g))"
    and "within_limit (max_amount_usd (constraints child)) (grant_max_amount g)"
    and "within_limit (int_limit (rate_limit_per_min (constraints child))) (int_limit (grant_rate_limit g))"
    and "\<forall>pin \<in> set (pinned_params g). pin_holds (allowed_params (constraints child)) pin"
proof -
  note p = assms(1) [unfolded permits_def] and n = assms(2) [unfolded narrower_def constraints_within_def]
  show "\<forall>capability \<in> set (capabilities child). grants (grant_capabilities g) capability"
    using p n grants_trans by blast
  show "within_limit (int_limit (max_calls (constraints child))) (int_limit (grant_max_calls g))"
      "within_limit (max_amount_usd (constraints child)) (grant_max_amount g)"
      "within_limit (int_limit (rate_limit_per_min (constraints child))) (int_limit (grant_rate_limit g))"
    using p n within_limit_trans by blast+
  show "\<forall>pin \<in> set (pinned_params g). pin_holds (allowed_params (constraints child)) pin"
    using p n pin_holds_trans by (metis surj_pair)
qed

section \<open>Loaded grants\<close>

definition grant_wf :: "grant \<Rightarrow> bool" where
  "grant_wf g \<longleftrightarrow>
     grant_capabilities g \<noteq> [] \<and> [] \<notin> set (grant_capabilities g) \<and>
     1 \<le> grant_max_ttl g \<and> grant_max_ttl g \<le> MAX_TTL_SECONDS \<and>
     pred_option (\<lambda>n. 1 \<le> n) (grant_max_calls g) \<and>
     pred_option (\<lambda>f. \<exists>x \<ge> 0. f = Fin x) (grant_max_amount g) \<and>
     pred_option (\<lambda>n. 1 \<le> n) (grant_rate_limit g) \<and>
     [] \<notin> set (delegates g)"

lemma traverse_nonempty:
  "traverse nonempty_string vs = Inr ss \<Longrightarrow> [] \<notin> set ss \<and> length ss = length vs"
  by (induction vs arbitrary: ss) (auto simp: py_inv nonempty_string_def list_all2_Cons1 split: pyval.splits if_splits)

lemma grant_count_ok: "grant_count v = Inr r \<Longrightarrow> pred_option (\<lambda>n. 1 \<le> n) r"
  by (cases v) (auto simp: grant_count_def split: if_splits)

lemma grant_ttl_ok: "grant_ttl v = Inr n \<Longrightarrow> 1 \<le> n \<and> n \<le> MAX_TTL_SECONDS"
  by (cases v) (auto simp: grant_ttl_def split: if_splits)

lemma grant_amount_ok: "grant_amount v = Inr r \<Longrightarrow> pred_option (\<lambda>f. \<exists>x \<ge> 0. f = Fin x) r"
  by (cases v) (auto simp: grant_amount_def py_inv split: if_splits elim: isfinite.elims)

lemma make_grant_wf:
  assumes "make_grant entry = Inr g"
  shows "grant_wf g"
proof -
  from assms obtain raw caps ttl calls amount rate rawd dels pins where
      "raw \<noteq> []" "traverse nonempty_string raw = Inr caps"
      "grant_ttl (field_or (PInt MAX_TTL_SECONDS) entry ''max_ttl_seconds'') = Inr ttl"
      "grant_count (field_or PNone entry ''max_calls'') = Inr calls"
      "grant_amount (field_or PNone entry ''max_amount_usd'') = Inr amount"
      "grant_count (field_or PNone entry ''rate_limit_per_min'') = Inr rate"
      "traverse nonempty_string rawd = Inr dels"
    and g: "g = \<lparr>grant_iss = dict_get entry ''iss'', grant_sub = dict_get entry ''sub'',
       grant_capabilities = caps, grant_max_ttl = ttl, grant_max_calls = calls,
       grant_max_amount = amount, grant_rate_limit = rate, delegates = dels, pinned_params = pins\<rparr>"
    unfolding make_grant_def rbind_eq_Inr ensure_eq_Inr by auto
  then show ?thesis
    using traverse_nonempty grant_ttl_ok grant_count_ok grant_amount_ok
    by (fastforce simp: grant_wf_def)
qed

lemma load_grant_ok:
  "load_grant v = Inr g \<Longrightarrow> grant_wf g \<and> json_params_valid (PDict (pinned_params g))"
  by (cases v) (auto simp: load_grant_def py_inv constraints_ok_def no_constraints_def dest: make_grant_wf)

lemma policy_from_dict_ok:
  assumes "policy_from_dict v = Inr gs" "g \<in> set gs"
  shows "grant_wf g \<and> json_params_valid (PDict (pinned_params g))"
proof -
  from assms(1) obtain d entries where "v = PDict d" "dict_get d ''grants'' = PList entries"
      "traverse load_grant entries = Inr gs"
    by (cases v) (auto simp: policy_from_dict_def split: if_splits pyval.splits)
  with assms(2) obtain entry where "load_grant entry = Inr g"
    by (auto simp: traverse_eq_Inr list_all2_conv_all_nth in_set_conv_nth)
  then show ?thesis by (rule load_grant_ok)
qed

section \<open>A policed issuer\<close>

lemma issue_token_run:
  assumes "issue_token L kp issuer subject caps limits ttl_seconds delegate w = (Inr token, w')"
  obtains ttl claims where "ttl_seconds = PInt ttl" "1 \<le> ttl" "ttl \<le> MAX_TTL_SECONDS"
    "claims = \<lparr>iss = issuer, sub = subject, capabilities = caps, constraints = resolve_constraints limits,
       iat = py_int (clock w (ticks w)), exp_at = py_int (clock w (ticks w)) + ttl,
       jti = b64url_encode (entropy w (draws w)), dlg = delegate, prf_token = None\<rparr>"
    "claims_ok claims" "sign_claims L kp claims = Inr token"
    "w' = w\<lparr>ticks := Suc (ticks w), draws := Suc (draws w)\<rparr>"
proof -
  from assms obtain ttl where "require_ttl ttl_seconds = Inr ttl"
    by (auto simp: issue_token_def py_inv)
  then have "ttl_seconds = PInt ttl" "1 \<le> ttl" "ttl \<le> MAX_TTL_SECONDS"
    by (auto simp: require_ttl_def split: pyval.splits if_splits)
  with that assms show ?thesis
    by (auto simp: issue_token_def py_inv Let_def generate_jti_def require_ttl_def)
qed

section \<open>Properties\<close>

text \<open>C9. The issuer policy decides. \<open>check\<close> passes exactly when one grant permits the whole request
  (capabilities, lifetime, limits, pinned parameters, budget and delegate, for the same issuer and
  audience), and in every other case raises \<open>PolicyViolationError\<close>: a request is never assembled
  from two grants.\<close>

theorem policy_decides:
  "policy_check gs issuer subject caps limits (PInt ttl) delegate =
     (if \<exists>g \<in> set gs. permits g issuer subject caps limits ttl delegate then Inr ()
      else Inl (swarm PolicyViolationError))"
  by (rule policy_check_decides)

text \<open>C11. Every grant of a loaded policy is well-formed. Whatever JSON \<open>from_dict\<close> is given, each
  grant it returns has non-empty capabilities, a lifetime of 1 to 30 seconds, positive counts, a
  finite non-negative amount, non-empty delegate names and portable pinned parameters.\<close>

theorem loaded_policy_wf:
  assumes "policy_from_dict v = Inr gs" "g \<in> set gs"
  shows "grant_wf g \<and> json_params_valid (PDict (pinned_params g))"
  by (rule policy_from_dict_ok [OF assms])

theorem loaded_policy_wf_witness:
  "\<exists>g. policy_from_dict (PDict [(''grants'', PList [PDict [(''iss'', PStr ''a''), (''sub'', PStr ''t''),
       (''capabilities'', PList [PStr ''read:*''])]])]) = Inr [g] \<and>
     grant_wf g \<and> json_params_valid (PDict (pinned_params g))"
proof -
  obtain g where "policy_from_dict (PDict [(''grants'', PList [PDict [(''iss'', PStr ''a''), (''sub'', PStr ''t''),
       (''capabilities'', PList [PStr ''read:*''])]])]) = Inr [g]"
    by (simp add: policy_from_dict_def dict_keys_def dict_get_def load_grant_def make_grant_def py_truth_def
        py_tuple_def nonempty_string_def grant_ttl_def grant_count_def grant_amount_def field_or_def py_dict_of_def
        MAX_TTL_SECONDS_def make_constraints_def no_constraints_def constraints_ok_def budget_pins_def)
  with loaded_policy_wf [OF this, of g] show ?thesis by auto
qed

end
