(* ===== verification/Middleware.thy ===== *)
theory Middleware
  imports Usage Policy
begin

text \<open>
  The execution boundary of \<open>swarmauth/middleware.py\<close>: \<open>verify_and_check\<close>, \<open>guard\<close>,
  \<open>use_token\<close> and the binding of a call to the tool's signature.

  The collaborators of the boundary are objects with the methods the code calls. A tracker is
  a record of actions: \<open>record_one\<close> and, when the object has it, \<open>record_chain\<close>; the two flags
  are the attributes the code reads with \<open>getattr\<close>. A method may return an awaitable, which the
  synchronous boundary refuses. The boundary itself is a record of its configuration.
\<close>

section \<open>Collaborators\<close>

datatype returned = Plain | Awaitable

definition require_sync :: "returned \<Rightarrow> unit result" where
  "require_sync r = (case r of Awaitable \<Rightarrow> Inl TypeError | Plain \<Rightarrow> Inr ())"

record 'w tracker =
  record_one :: "capability_claims \<Rightarrow> pyval \<Rightarrow> ('w, returned) py"
  record_chain :: "(capability_claims list \<Rightarrow> pyval \<Rightarrow> ('w, returned) py) option"
  requires_chain :: bool
  supports_shared_budgets :: bool

record authorization_event =
  decision :: string
  event_code :: "string option"
  event_issuer :: "string option"
  event_audience :: "string option"
  event_capability :: "string option"
  event_token_id :: "string option"

type_synonym 'w callback = "authorization_event \<Rightarrow> ('w, returned) py"

record 'w boundary =
  issuer_public_key :: "bytes option"
  key_registry :: "key_registry option"
  revocation_check :: "'w revocation_check option"
  audience :: "string option"
  required_capability :: "string option"
  tracker :: "'w tracker option"
  on_decision :: "'w callback option"

definition stateful :: "capability_claims \<Rightarrow> string list" where
  "stateful claims =
     (if max_calls (constraints claims) \<noteq> None then [''max_calls''] else [])
     @ (if max_amount_usd (constraints claims) \<noteq> None then [''max_amount_usd''] else [])
     @ (if rate_limit_per_min (constraints claims) \<noteq> None then [''rate_limit_per_min''] else [])"

section \<open>Verification and checks\<close>

definition DEFAULT_LEEWAY :: pyval where
  "DEFAULT_LEEWAY = PInt 2"

definition verify_value ::
  "ext_lib \<Rightarrow> bytes option \<Rightarrow> key_registry option \<Rightarrow> 'x world_scheme revocation_check option \<Rightarrow>
   string option \<Rightarrow> pyval \<Rightarrow> ('x world_scheme, capability_claims) py" where
  \<comment> \<open>\<open>CapabilityToken.verify\<close> of any value: \<open>parse\<close> refuses one that is not a string\<close>
  "verify_value L pk R store aud token =
     (case token of
        PStr t \<Rightarrow> verify L pk R store aud DEFAULT_LEEWAY t
      | _ \<Rightarrow> raise (swarm MalformedTokenError))"

definition notify :: "'w callback option \<Rightarrow> authorization_event \<Rightarrow> ('w, unit) py" where
  "notify callback event =
     (case callback of
        None \<Rightarrow> ret ()
      | Some f \<Rightarrow> abind (f event) (\<lambda>r. lift (require_sync r)))"

definition denied_event :: "'w boundary \<Rightarrow> capability_claims option \<Rightarrow> swarm_error \<Rightarrow> authorization_event" where
  "denied_event B claims e =
     \<lparr>decision = ''denied'', event_code = Some (code e), event_issuer = map_option iss claims,
      event_audience = audience B, event_capability = required_capability B,
      event_token_id = map_option jti claims\<rparr>"

definition allowed_event :: "'w boundary \<Rightarrow> capability_claims \<Rightarrow> authorization_event" where
  "allowed_event B claims =
     \<lparr>decision = ''allowed'', event_code = None, event_issuer = Some (iss claims),
      event_audience = Some (sub claims), event_capability = required_capability B,
      event_token_id = Some (jti claims)\<rparr>"

definition deny :: "'w boundary \<Rightarrow> capability_claims option \<Rightarrow> exc \<Rightarrow> ('w, 'a) py" where
  \<comment> \<open>the \<open>except SwarmAuthError\<close> clause; other exceptions pass\<close>
  "deny B claims e =
     (case e of
        SwarmAuthError s \<Rightarrow> abind (notify (on_decision B) (denied_event B claims s)) (\<lambda>_. raise e)
      | _ \<Rightarrow> raise e)"

definition static_checks :: "'w boundary \<Rightarrow> pyval \<Rightarrow> params option \<Rightarrow> capability_claims \<Rightarrow> unit result" where
  \<comment> \<open>the checks before the amount is validated\<close>
  "static_checks B amount params claims =
     rbind (case required_capability B of None \<Rightarrow> Inr () | Some r \<Rightarrow> check_capability claims r) (\<lambda>_.
     rbind (ensure (\<not> (allowed_params (constraints claims) \<noteq> [] \<and> params = None))
              (constraint_violation ''allowed_params'')) (\<lambda>_.
     rbind (case params of None \<Rightarrow> Inr () | Some p \<Rightarrow> check_params claims p) (\<lambda>_.
     rbind (ensure (\<not> (shared_budget (constraints claims) \<noteq> None \<and>
                       \<not> (case tracker B of None \<Rightarrow> False | Some T \<Rightarrow> supports_shared_budgets T)))
              (constraint_violation ''shared_budget'')) (\<lambda>_.
     rbind (ensure (\<not> (stateful claims \<noteq> [] \<and> tracker B = None))
              (constraint_violation (hd (stateful claims)))) (\<lambda>_.
     ensure (\<not> (max_amount_usd (constraints claims) \<noteq> None \<and> amount = PNone))
       (constraint_violation ''max_amount_usd''))))))"

definition resolved_amount :: "pyval \<Rightarrow> pyfloat result" where
  "resolved_amount amount = (if amount \<noteq> PNone then validated_amount amount else Inr (Fin 0))"

definition parent_of :: "ext_lib \<Rightarrow> capability_claims \<Rightarrow> capability_claims option result" where
  "parent_of L claims =
     (if truthy (prf_token claims)
      then rbind (parse L (the (prf_token claims))) (\<lambda>(_, parent, _). Inr (Some parent))
      else Inr None)"

definition charge ::
  "'w tracker \<Rightarrow> capability_claims option \<Rightarrow> capability_claims \<Rightarrow> pyfloat \<Rightarrow> ('w, unit) py" where
  \<comment> \<open>reserve the usage: of parent and token together, or of the token\<close>
  "charge T parent claims amount =
     (case parent of
        Some p \<Rightarrow>
          (if stateful p \<noteq> [] \<or> requires_chain T
           then (case record_chain T of
                   None \<Rightarrow> raise (constraint_violation ''max_calls'')
                 | Some f \<Rightarrow> abind (f [p, claims] (PFloat amount)) (\<lambda>r. lift (require_sync r)))
           else abind (record_one T claims (PFloat amount)) (\<lambda>r. lift (require_sync r)))
      | None \<Rightarrow> abind (record_one T claims (PFloat amount)) (\<lambda>r. lift (require_sync r)))"

definition check_claims ::
  "ext_lib \<Rightarrow> 'w boundary \<Rightarrow> pyval \<Rightarrow> params option \<Rightarrow> capability_claims \<Rightarrow> ('w, unit) py" where
  "check_claims L B amount params claims =
     abind (lift (static_checks B amount params claims)) (\<lambda>_.
     abind (lift (resolved_amount amount)) (\<lambda>resolved.
     case tracker B of
       None \<Rightarrow> ret ()
     | Some T \<Rightarrow>
         abind (lift (parent_of L claims)) (\<lambda>parent.
         charge T parent claims resolved)))"

definition verify_and_check ::
  "ext_lib \<Rightarrow> 'x world_scheme boundary \<Rightarrow> pyval \<Rightarrow> params option \<Rightarrow> pyval \<Rightarrow>
   ('x world_scheme, capability_claims) py" where
  "verify_and_check L B amount params token =
     abind (catch (verify_value L (issuer_public_key B) (key_registry B) (revocation_check B)
                     (audience B) token)
                  (deny B None)) (\<lambda>claims.
     abind (catch (check_claims L B amount params claims) (deny B (Some claims))) (\<lambda>_.
     abind (notify (on_decision B) (allowed_event B claims)) (\<lambda>_.
     ret claims)))"

section \<open>Binding a call to a signature\<close>

datatype kind = POSITIONAL_ONLY | POSITIONAL_OR_KEYWORD | VAR_POSITIONAL | KEYWORD_ONLY | VAR_KEYWORD

record parameter =
  pname :: string
  pkind :: kind
  pdefault :: "pyval option"

type_synonym signature = "parameter list"

fun bind_positional ::
  "signature \<Rightarrow> pyval list \<Rightarrow> params \<Rightarrow> (params \<times> signature) result" where
  \<comment> \<open>the positional arguments, and the parameters left for the keywords\<close>
  "bind_positional ps [] kwargs = Inr ([], ps)"
| "bind_positional [] (a # args) kwargs = Inl TypeError"
| "bind_positional (p # ps) (a # args) kwargs =
     (case pkind p of
        VAR_POSITIONAL \<Rightarrow> Inr ([(pname p, PTuple (a # args))], ps)
      | VAR_KEYWORD \<Rightarrow> Inl TypeError
      | KEYWORD_ONLY \<Rightarrow> Inl TypeError
      | POSITIONAL_ONLY \<Rightarrow>
          rbind (bind_positional ps args kwargs) (\<lambda>(bound, rest). Inr ((pname p, a) # bound, rest))
      | POSITIONAL_OR_KEYWORD \<Rightarrow>
          if map_of kwargs (pname p) \<noteq> None then Inl TypeError
          else rbind (bind_positional ps args kwargs) (\<lambda>(bound, rest). Inr ((pname p, a) # bound, rest)))"

fun bind_keywords :: "signature \<Rightarrow> params \<Rightarrow> (params \<times> params) result" where
  \<comment> \<open>the keyword arguments of the remaining parameters, and the keywords nobody took\<close>
  "bind_keywords [] kwargs = Inr ([], kwargs)"
| "bind_keywords (p # ps) kwargs =
     (if pkind p = VAR_KEYWORD \<or> pkind p = VAR_POSITIONAL then bind_keywords ps kwargs
      else case map_of kwargs (pname p) of
        None \<Rightarrow> if pdefault p = None then Inl TypeError else bind_keywords ps kwargs
      | Some v \<Rightarrow>
          if pkind p = POSITIONAL_ONLY then Inl TypeError
          else rbind (bind_keywords ps (AList.delete (pname p) kwargs)) (\<lambda>(bound, rest).
               Inr ((pname p, v) # bound, rest)))"

definition sig_bind :: "signature \<Rightarrow> pyval list \<Rightarrow> params \<Rightarrow> params result" where
  \<comment> \<open>\<open>signature.bind(*args, **kwargs).arguments\<close>\<close>
  "sig_bind sig args kwargs =
     rbind (bind_positional sig args kwargs) (\<lambda>(bound, ps).
     rbind (bind_keywords ps kwargs) (\<lambda>(named, extra).
     if extra = [] then Inr (bound @ named)
     else (case find (\<lambda>p. pkind p = VAR_KEYWORD) ps of
             None \<Rightarrow> Inl TypeError
           | Some p \<Rightarrow> Inr (bound @ named @ [(pname p, PDict extra)]))))"

fun apply_defaults :: "signature \<Rightarrow> params \<Rightarrow> params" where
  "apply_defaults [] bound = []"
| "apply_defaults (p # ps) bound =
     (case map_of bound (pname p) of
        Some v \<Rightarrow> (pname p, v) # apply_defaults ps bound
      | None \<Rightarrow>
          (case pdefault p of
             Some v \<Rightarrow> (pname p, v) # apply_defaults ps bound
           | None \<Rightarrow>
               if pkind p = VAR_POSITIONAL then (pname p, PTuple []) # apply_defaults ps bound
               else if pkind p = VAR_KEYWORD then (pname p, PDict []) # apply_defaults ps bound
               else apply_defaults ps bound))"

definition flatten_kwargs :: "parameter \<Rightarrow> params \<Rightarrow> params" where
  \<comment> \<open>\<open>params.update(params.pop(name, {}))\<close> for the \<open>**kwargs\<close> parameter\<close>
  "flatten_kwargs p params =
     (if pkind p \<noteq> VAR_KEYWORD then params
      else fold (\<lambda>(k, v). AList.update k v)
             (case map_of params (pname p) of Some (PDict d) \<Rightarrow> d | _ \<Rightarrow> [])
             (AList.delete (pname p) params))"

definition bound_call_params :: "signature \<Rightarrow> pyval list \<Rightarrow> params \<Rightarrow> params result" where
  "bound_call_params sig args kwargs =
     rbind (sig_bind sig args kwargs) (\<lambda>bound.
     Inr (fold flatten_kwargs sig (apply_defaults sig bound)))"

section \<open>The guard\<close>

definition use_token :: "pyval \<Rightarrow> ('x world_scheme, 'a) py \<Rightarrow> ('x world_scheme, 'a) py" where
  \<comment> \<open>\<open>with use_token(token): body\<close>\<close>
  "use_token token body =
     (case token of
        PStr t \<Rightarrow>
          (if t = [] then raise ValueError
           else (\<lambda>w. case body (w\<lparr>current_token := Some t\<rparr>) of
                   (r, w') \<Rightarrow> (r, w'\<lparr>current_token := current_token w\<rparr>)))
      | _ \<Rightarrow> raise ValueError)"

record 'w guard_config =
  capability :: string
  guard_boundary :: "'w boundary"  \<comment> \<open>keys, store, audience, tracker and callback as passed to \<open>guard\<close>\<close>
  token_kwarg :: string
  amount_kwarg :: "string option"

definition bound_audience :: "'w guard_config \<Rightarrow> string" where
  "bound_audience G =
     (case audience (guard_boundary G) of None \<Rightarrow> capability G | Some a \<Rightarrow> a)"

definition bound_boundary :: "'w guard_config \<Rightarrow> 'w boundary" where
  "bound_boundary G =
     (guard_boundary G)\<lparr>audience := Some (bound_audience G), required_capability := Some (capability G)\<rparr>"

definition presented_token :: "pyval \<Rightarrow> string option \<Rightarrow> pyval" where
  \<comment> \<open>\<open>kwargs.pop(token_kwarg, None) or _current_token.get()\<close>\<close>
  "presented_token arg ctx = (if py_truth arg then arg else opt_value PStr ctx)"

definition no_token_event :: "'w guard_config \<Rightarrow> authorization_event" where
  "no_token_event G =
     \<lparr>decision = ''denied'', event_code = Some ''CAPABILITY_VIOLATION'', event_issuer = None,
      event_audience = Some (bound_audience G), event_capability = Some (capability G),
      event_token_id = None\<rparr>"

definition authorize ::
  "ext_lib \<Rightarrow> 'x world_scheme guard_config \<Rightarrow> signature \<Rightarrow> pyval list \<Rightarrow> params \<Rightarrow>
   ('x world_scheme, unit) py" where
  "authorize L G sig args kwargs =
     (\<lambda>w. (let token = presented_token (dict_get kwargs (token_kwarg G)) (current_token w);
               kwargs = AList.delete (token_kwarg G) kwargs
           in if \<not> py_truth token then
                abind (notify (on_decision (guard_boundary G)) (no_token_event G)) (\<lambda>_.
                raise (swarm (CapabilityViolationError (Some (capability G)) [])))
              else
                abind (lift (bound_call_params sig args kwargs)) (\<lambda>params.
                abind (verify_and_check L (bound_boundary G)
                         (if truthy (amount_kwarg G) then dict_get params (the (amount_kwarg G)) else PNone)
                         (Some params) token) (\<lambda>_.
                ret ()))) w)"

definition guarded ::
  "ext_lib \<Rightarrow> 'x world_scheme guard_config \<Rightarrow> signature \<Rightarrow>
   (pyval list \<Rightarrow> params \<Rightarrow> ('x world_scheme, 'a) py) \<Rightarrow>
   pyval list \<Rightarrow> params \<Rightarrow> ('x world_scheme, 'a) py" where
  \<comment> \<open>the wrapper that \<open>guard\<close> and \<open>secure_tool_call\<close> return\<close>
  "guarded L G sig func args kwargs =
     abind (authorize L G sig args kwargs) (\<lambda>_. func args (AList.delete (token_kwarg G) kwargs))"

section \<open>What the boundary lets through\<close>

definition call_within :: "'w boundary \<Rightarrow> pyval \<Rightarrow> params option \<Rightarrow> capability_claims \<Rightarrow> bool" where
  \<comment> \<open>the call is one the token is for, and nothing the token limits is left unchecked\<close>
  "call_within B amount params claims \<longleftrightarrow>
     (\<forall>r. required_capability B = Some r \<longrightarrow> grants (capabilities claims) r) \<and>
     (\<forall>pin \<in> set (allowed_params (constraints claims)). \<exists>p. params = Some p \<and> pin_holds p pin) \<and>
     (shared_budget (constraints claims) \<noteq> None \<longrightarrow>
        (\<exists>T. tracker B = Some T \<and> supports_shared_budgets T)) \<and>
     (stateful claims \<noteq> [] \<longrightarrow> tracker B \<noteq> None) \<and>
     (max_amount_usd (constraints claims) \<noteq> None \<longrightarrow> amount \<noteq> PNone)"

definition charged_to ::
  "'w tracker \<Rightarrow> capability_claims option \<Rightarrow> capability_claims \<Rightarrow> pyfloat \<Rightarrow> 'w \<Rightarrow> 'w \<Rightarrow> bool" where
  \<comment> \<open>the tracker accepted the reservation, of the whole chain when the parent needs it\<close>
  "charged_to T parent claims f w w' \<longleftrightarrow>
     (if \<exists>p. parent = Some p \<and> (stateful p \<noteq> [] \<or> requires_chain T)
      then \<exists>g. record_chain T = Some g \<and> g [the parent, claims] (PFloat f) w = (Inr Plain, w')
      else record_one T claims (PFloat f) w = (Inr Plain, w'))"

definition notified :: "'w callback option \<Rightarrow> authorization_event \<Rightarrow> 'w \<Rightarrow> 'w \<Rightarrow> bool" where
  "notified callback event w w' \<longleftrightarrow>
     (case callback of None \<Rightarrow> w' = w | Some f \<Rightarrow> f event w = (Inr Plain, w'))"

lemma require_sync_iff [py_inv]: "require_sync r = Inr u \<longleftrightarrow> r = Plain"
  by (cases r) (simp_all add: require_sync_def)

lemma notify_iff [py_inv]: "notify callback event w = (Inr u, w') \<longleftrightarrow> notified callback event w w'"
  by (cases callback) (auto simp: notify_def notified_def py_inv)

lemma deny_raises [py_inv]: "deny B claims e w \<noteq> (Inr x, w')"
  by (cases e) (simp_all add: deny_def py_inv)

lemma static_checks_iff [py_inv]:
  "static_checks B amount params claims = Inr u \<longleftrightarrow> call_within B amount params claims"
proof -
  have "(case required_capability B of None \<Rightarrow> Inr () | Some r \<Rightarrow> check_capability claims r) = Inr () \<longleftrightarrow>
      (\<forall>r. required_capability B = Some r \<longrightarrow> grants (capabilities claims) r)"
    by (simp add: check_capability_iff split: option.split)
  moreover have "(case params of None \<Rightarrow> Inr () | Some p \<Rightarrow> check_params claims p) = Inr () \<and>
        \<not> (allowed_params (constraints claims) \<noteq> [] \<and> params = None) \<longleftrightarrow>
      (\<forall>pin \<in> set (allowed_params (constraints claims)). \<exists>p. params = Some p \<and> pin_holds p pin)"
    by (cases params; cases "allowed_params (constraints claims)") (auto simp: check_params_iff)
  moreover have "(case tracker B of None \<Rightarrow> False | Some T \<Rightarrow> supports_shared_budgets T) \<longleftrightarrow>
      (\<exists>T. tracker B = Some T \<and> supports_shared_budgets T)"
    by (simp split: option.split)
  ultimately show ?thesis
    unfolding static_checks_def call_within_def rbind_eq_Inr ensure_eq_Inr by auto
qed

lemma charge_iff [py_inv]: "charge T parent claims f w = (Inr u, w') \<longleftrightarrow> charged_to T parent claims f w w'"
  by (cases parent; cases "record_chain T") (auto simp: charge_def charged_to_def py_inv)

lemma check_claims_iff:
  "check_claims L B amount params claims w = (Inr u, w') \<longleftrightarrow>
     call_within B amount params claims \<and>
     (\<exists>f. resolved_amount amount = Inr f \<and>
        (case tracker B of
           None \<Rightarrow> w' = w
         | Some T \<Rightarrow> \<exists>parent. parent_of L claims = Inr parent \<and> charged_to T parent claims f w w'))"
  by (cases "tracker B") (auto simp: check_claims_def py_inv)

lemma verify_and_check_iff:
  "verify_and_check L B amount params token w = (Inr claims, w') \<longleftrightarrow>
     (\<exists>w1 w2. verify_value L (issuer_public_key B) (key_registry B) (revocation_check B)
          (audience B) token w = (Inr claims, w1) \<and>
        check_claims L B amount params claims w1 = (Inr (), w2) \<and>
        notified (on_decision B) (allowed_event B claims) w2 w')"
  by (auto simp: verify_and_check_def py_inv)

lemma verify_value_iff:
  "verify_value L pk R store aud token w = (Inr claims, w') \<longleftrightarrow>
     (\<exists>t. token = PStr t \<and> (pk = None) \<noteq> (R = None) \<and> accepts L pk R store aud 2 t claims w w')"
  by (cases token)
     (auto simp: verify_value_def verify_iff DEFAULT_LEEWAY_def leeway_of_def MAX_LEEWAY_SECONDS_def)

lemma parent_of_accepted:
  assumes "accepts L pk R store aud leeway token claims w w'"
  shows "\<exists>parent. parent_of L claims = Inr parent \<and>
           (case prf_token claims of
              None \<Rightarrow> parent = None
            | Some proof \<Rightarrow> \<exists>p. parent = Some p \<and> authentic L pk R False proof p \<and> narrower p claims)"
proof (cases "prf_token claims")
  case None
  then show ?thesis by (simp add: parent_of_def truthy_def)
next
  case (Some p)
  with assms obtain parent where "authentic L pk R False p parent" "narrower parent claims"
    and "claims_ok claims"
    by (auto simp: accepts_def core_accepts_def dest: authentic_ok)
  moreover from this obtain h m where "parse L p = Inr (h, parent, m)"
    using authentic_parse by blast
  ultimately show ?thesis
    using Some truthy_claims [of claims] by (simp add: parent_of_def)
qed

section \<open>The guard\<close>

lemma authorize_sound:
  assumes "authorize L G sig args kwargs w = (Inr (), w')"
  obtains t params claims w1 where
    "presented_token (dict_get kwargs (token_kwarg G)) (current_token w) = PStr t"
    "bound_call_params sig args (AList.delete (token_kwarg G) kwargs) = Inr params"
    "accepts L (issuer_public_key (guard_boundary G)) (key_registry (guard_boundary G))
       (revocation_check (guard_boundary G)) (Some (bound_audience G)) 2 t claims w w1"
    "grants (capabilities claims) (capability G)"
    "\<forall>pin \<in> set (allowed_params (constraints claims)). pin_holds params pin"
proof -
  let ?token = "presented_token (dict_get kwargs (token_kwarg G)) (current_token w)"
  from assms obtain params claims amount where
      params: "bound_call_params sig args (AList.delete (token_kwarg G) kwargs) = Inr params"
    and run: "verify_and_check L (bound_boundary G) amount (Some params) ?token w = (Inr claims, w')"
    by (auto simp: authorize_def Let_def py_inv split: if_splits)
  then obtain t w1 w2 where "?token = PStr t"
      "accepts L (issuer_public_key (guard_boundary G)) (key_registry (guard_boundary G))
         (revocation_check (guard_boundary G)) (Some (bound_audience G)) 2 t claims w w1"
      "check_claims L (bound_boundary G) amount (Some params) claims w1 = (Inr (), w2)"
    by (auto simp: verify_and_check_iff verify_value_iff bound_boundary_def)
  with that params show ?thesis
    by (auto simp: check_claims_iff call_within_def bound_boundary_def)
qed

lemma guarded_run:
  "guarded L G sig func args kwargs w =
     (case authorize L G sig args kwargs w of
        (Inl e, w') \<Rightarrow> (Inl e, w')
      | (Inr _, w') \<Rightarrow> func args (AList.delete (token_kwarg G) kwargs) w')"
  by (simp add: guarded_def abind_def)

lemma use_token_restores: "current_token (snd (use_token token body w)) = current_token w"
  by (cases token) (auto simp: use_token_def split: prod.split)

section \<open>The checked parameters are the ones the tool receives\<close>

definition sig_ok :: "signature \<Rightarrow> bool" where
  \<comment> \<open>what \<open>inspect.Signature\<close> guarantees: names are distinct, \<open>**kwargs\<close> comes last, and
    \<open>*args\<close> and \<open>**kwargs\<close> have no default\<close>
  "sig_ok sig \<longleftrightarrow>
     distinct (List.map pname sig) \<and>
     list_all (\<lambda>p. pkind p \<noteq> VAR_KEYWORD) (butlast sig) \<and>
     list_all (\<lambda>p. pkind p \<in> {VAR_POSITIONAL, VAR_KEYWORD} \<longrightarrow> pdefault p = None) sig"

definition positional :: "parameter \<Rightarrow> bool" where
  "positional p \<longleftrightarrow> pkind p \<in> {POSITIONAL_ONLY, POSITIONAL_OR_KEYWORD}"

lemma bind_positional_shape:
  "bind_positional sig args kwargs = Inr (bound, rest) \<Longrightarrow>
   \<exists>used. sig = used @ rest \<and> List.map fst bound = List.map pname used \<and>
     list_all (\<lambda>p. pkind p \<noteq> VAR_KEYWORD) used"
proof (induction sig args kwargs arbitrary: bound rule: bind_positional.induct)
  case (3 p ps a args kwargs)
  from "3.prems" consider "bound = [(pname p, PTuple (a # args))]" "rest = ps" "pkind p = VAR_POSITIONAL"
    | bound' where "bind_positional ps args kwargs = Inr (bound', rest)" "bound = (pname p, a) # bound'"
      "pkind p = POSITIONAL_ONLY \<or> pkind p = POSITIONAL_OR_KEYWORD \<and> \<not> map_of kwargs (pname p) \<noteq> None"
    by (cases "pkind p") (auto simp: py_inv split: if_splits)
  then show ?case
  proof cases
    case 1
    then show ?thesis by (intro exI [of _ "[p]"]) simp
  next
    case (2 bound')
    then obtain used where "ps = used @ rest" "List.map fst bound' = List.map pname used"
        "list_all (\<lambda>p. pkind p \<noteq> VAR_KEYWORD) used"
      using "3.IH" by blast
    with 2 show ?thesis by (intro exI [of _ "p # used"]) auto
  qed
qed auto

lemma bind_positional_next:
  assumes "bind_positional (p # ps) (a # args) kwargs = Inr (bound, rest)" "positional p"
  obtains bound' where "bind_positional ps args kwargs = Inr (bound', rest)" "bound = (pname p, a) # bound'"
    "pkind p = POSITIONAL_OR_KEYWORD \<Longrightarrow> map_of kwargs (pname p) = None"
  using assms by (cases "pkind p") (auto simp: py_inv positional_def split: if_splits)

lemma bind_positional_nth:
  assumes "bind_positional sig args kwargs = Inr (bound, rest)" "list_all positional (take (Suc i) sig)"
    and "i < length args" "i < length sig"
  shows "i < length bound \<and> bound ! i = (pname (sig ! i), args ! i) \<and>
    (pkind (sig ! i) = POSITIONAL_OR_KEYWORD \<longrightarrow> map_of kwargs (pname (sig ! i)) = None)"
  using assms
proof (induction i arbitrary: sig args bound)
  case 0
  then obtain p ps a args' where c: "sig = p # ps" "args = a # args'"
    by (cases sig; cases args) auto
  then have "bind_positional (p # ps) (a # args') kwargs = Inr (bound, rest)" "positional p"
    using "0.prems" by (simp_all del: bind_positional.simps)
  then show ?case
    by (rule bind_positional_next) (simp add: c)
next
  case (Suc i)
  then obtain p ps a args' where c: "sig = p # ps" "args = a # args'"
    by (cases sig; cases args) auto
  then have "bind_positional (p # ps) (a # args') kwargs = Inr (bound, rest)" "positional p"
    using Suc.prems by (simp_all del: bind_positional.simps)
  then obtain bound' where "bind_positional ps args' kwargs = Inr (bound', rest)"
      "bound = (pname p, a) # bound'"
    by (rule bind_positional_next)
  with Suc.IH [of ps args' bound'] Suc.prems(2-) show ?case by (simp add: c)
qed

lemma bind_keywords_next:
  assumes "bind_keywords (p # ps) kwargs = Inr (named, extra)"
  obtains (skipped) "bind_keywords ps kwargs = Inr (named, extra)"
    | (taken) v named' where "map_of kwargs (pname p) = Some v" "pkind p \<notin> {VAR_KEYWORD, VAR_POSITIONAL}"
      "bind_keywords ps (AList.delete (pname p) kwargs) = Inr (named', extra)" "named = (pname p, v) # named'"
  using assms by (auto simp: py_inv split: if_splits option.splits)

lemma bind_keywords_names:
  "bind_keywords ps kwargs = Inr (named, extra) \<Longrightarrow>
   set (List.map fst named) \<subseteq> pname ` {p \<in> set ps. pkind p \<notin> {VAR_KEYWORD, VAR_POSITIONAL}}"
proof (induction ps arbitrary: kwargs named)
  case (Cons p ps)
  from Cons.prems show ?case
  proof (cases rule: bind_keywords_next)
    case skipped
    from Cons.IH [OF this] show ?thesis by auto
  next
    case (taken v named')
    from Cons.IH [OF taken(3)] taken(2,4) show ?thesis by auto
  qed
qed simp

lemma bind_keywords_distinct:
  "bind_keywords ps kwargs = Inr (named, extra) \<Longrightarrow> distinct (List.map fst kwargs) \<Longrightarrow>
   distinct (List.map fst extra)"
proof (induction ps arbitrary: kwargs named)
  case (Cons p ps)
  from Cons.prems(1) show ?case
  proof (cases rule: bind_keywords_next)
    case (taken v named')
    from Cons.IH [OF taken(3) distinct_dict_delete [OF Cons.prems(2)]] show ?thesis .
  qed (rule Cons.IH [OF _ Cons.prems(2)])
qed simp

lemma bind_keywords_cover:
  "bind_keywords ps kwargs = Inr (named, extra) \<Longrightarrow>
   map_of kwargs k = (case map_of named k of Some v \<Rightarrow> Some v | None \<Rightarrow> map_of extra k)"
proof (induction ps arbitrary: kwargs named)
  case (Cons p ps)
  from Cons.prems show ?case
  proof (cases rule: bind_keywords_next)
    case (taken v named')
    from Cons.IH [OF taken(3)] taken(1,4) show ?thesis
      by (auto simp: py_dict split: if_splits)
  qed (rule Cons.IH)
qed simp

lemma bind_keywords_disjoint:
  "bind_keywords ps kwargs = Inr (named, extra) \<Longrightarrow>
   dom (map_of extra) \<subseteq> dom (map_of kwargs) \<and> dom (map_of named) \<inter> dom (map_of extra) = {}"
proof (induction ps arbitrary: kwargs named)
  case (Cons p ps)
  from Cons.prems show ?case
  proof (cases rule: bind_keywords_next)
    case (taken v named')
    from Cons.IH [OF taken(3), unfolded dict_delete]
    have "dom (map_of extra) \<subseteq> dom (map_of kwargs) - {pname p}"
        "dom (map_of named') \<inter> dom (map_of extra) = {}"
      unfolding dom_fun_upd by simp_all
    moreover have "dom (map_of named) = insert (pname p) (dom (map_of named'))"
      using taken(4) by (simp add: dom_map_of_conv_image_fst)
    ultimately show ?thesis by blast
  qed (rule Cons.IH)
qed simp

lemma map_of_apply_defaults:
  "map_of bound n = Some v \<Longrightarrow> n \<in> pname ` set sig \<Longrightarrow> map_of (apply_defaults sig bound) n = Some v"
  by (induction sig) (auto split: option.splits)

lemma map_of_fold_update:
  "distinct (List.map fst d) \<Longrightarrow>
   map_of (fold (\<lambda>(k, v). AList.update k v) d acc) k =
     (case map_of d k of Some v \<Rightarrow> Some v | None \<Rightarrow> map_of acc k)"
proof (induction d arbitrary: acc)
  case (Cons kv d)
  then show ?case
    by (cases kv) (auto simp: py_dict map_of_eq_None_iff split: option.splits
        dest: map_of_SomeD intro: rev_image_eqI)
qed simp

lemma apply_defaults_kwargs:
  "distinct (List.map pname sig) \<Longrightarrow> p \<in> set sig \<Longrightarrow> pkind p = VAR_KEYWORD \<Longrightarrow> pdefault p = None \<Longrightarrow>
   map_of bound (pname p) = None \<Longrightarrow> map_of (apply_defaults sig bound) (pname p) = Some (PDict [])"
proof (induction sig)
  case (Cons q sig)
  show ?case
  proof (cases "q = p")
    case True
    with Cons.prems show ?thesis by simp
  next
    case False
    with Cons.prems have "pname q \<noteq> pname p" "p \<in> set sig" by auto
    with Cons show ?thesis by (simp split: option.split)
  qed
qed simp

lemma flatten_kwargs_other: "pkind p \<noteq> VAR_KEYWORD \<Longrightarrow> flatten_kwargs p params = params"
  by (simp add: flatten_kwargs_def)

lemma fold_flatten_other:
  "list_all (\<lambda>p. pkind p \<noteq> VAR_KEYWORD) ps \<Longrightarrow> fold flatten_kwargs ps params = params"
  by (induction ps arbitrary: params) (simp_all add: flatten_kwargs_other)

lemma fold_flatten:
  assumes "sig_ok sig" "p \<in> set sig" "pkind p = VAR_KEYWORD"
  shows "fold flatten_kwargs sig params = flatten_kwargs p params"
proof -
  obtain ps q where sig: "sig = ps @ [q]" using assms(2) by (cases sig rule: rev_cases) auto
  with assms have "list_all (\<lambda>p. pkind p \<noteq> VAR_KEYWORD) ps" "p = q"
    by (auto simp: sig_ok_def list_all_iff)
  with sig show ?thesis by (simp add: fold_flatten_other)
qed

lemma kwargs_entry:
  assumes "sig_ok sig" "sig = used @ rest" "List.map fst bound = List.map pname used"
    and "p \<in> set rest" "pkind p = VAR_KEYWORD"
    and "set (List.map fst named) \<subseteq> pname ` {p \<in> set rest. pkind p \<notin> {VAR_KEYWORD, VAR_POSITIONAL}}"
    and "vk = (if extra = [] then [] else [(pname p, PDict extra)])"
  shows "map_of (apply_defaults sig (bound @ named @ vk)) (pname p) = Some (PDict extra)"
proof -
  have names: "inj_on pname (set sig)" "distinct (List.map pname sig)"
    using assms(1) unfolding sig_ok_def distinct_map by blast+
  have dflt: "pdefault p = None"
    using assms(1,2,4,5) by (auto simp: sig_ok_def list_all_iff)
  have "pname p \<notin> set (List.map fst bound)"
    using assms(2-4) names(2) by auto
  moreover have "pname p \<notin> set (List.map fst named)"
    using assms(2,4-6) names(1) by (fastforce dest: inj_onD)
  ultimately have none: "map_of (bound @ named) (pname p) = None"
    by (auto simp: map_of_eq_None_iff)
  show ?thesis
  proof (cases "extra = []")
    case True
    with assms(2,4,5,7) names dflt none show ?thesis
      by (simp add: apply_defaults_kwargs del: map_of_append)
  next
    case False
    then have "map_of (bound @ named @ vk) (pname p) = Some (PDict extra)"
      using none assms(7) by (auto simp: map_add_def split: option.splits)
    then show ?thesis
      using assms(2,4) by (intro map_of_apply_defaults) auto
  qed
qed

text \<open>
  What the guard checks, entry by entry: a keyword nobody declared, else a declared argument
  or its default.
\<close>

lemma bound_call_params_cases:
  assumes "sig_ok sig" "distinct (List.map fst kwargs)" "bound_call_params sig args kwargs = Inr params"
  obtains bound rest named extra vk where
    "bind_positional sig args kwargs = Inr (bound, rest)"
    "bind_keywords rest kwargs = Inr (named, extra)"
    "\<forall>k v. map_of extra k = Some v \<longrightarrow> map_of params k = Some v"
    "\<forall>k. map_of extra k = None \<longrightarrow> k \<notin> pname ` {p \<in> set rest. pkind p = VAR_KEYWORD} \<longrightarrow>
       map_of params k = map_of (apply_defaults sig (bound @ named @ vk)) k"
proof -
  from assms(3) obtain bound rest named extra where
      pos: "bind_positional sig args kwargs = Inr (bound, rest)"
    and kw: "bind_keywords rest kwargs = Inr (named, extra)"
    by (auto simp: bound_call_params_def sig_bind_def py_inv)
  obtain used where used: "sig = used @ rest" "List.map fst bound = List.map pname used"
      "list_all (\<lambda>p. pkind p \<noteq> VAR_KEYWORD) used"
    using bind_positional_shape [OF pos] by blast
  show ?thesis
  proof (cases "find (\<lambda>p. pkind p = VAR_KEYWORD) rest")
    case None
    with assms(3) pos kw have all: "extra = []" "params = fold flatten_kwargs sig (apply_defaults sig (bound @ named))"
      by (auto simp: bound_call_params_def sig_bind_def py_inv split: if_splits)
    moreover have "list_all (\<lambda>p. pkind p \<noteq> VAR_KEYWORD) sig"
      using None used by (auto simp: find_None_iff list_all_iff)
    ultimately show ?thesis
      using that [OF pos kw, of "[]"] by (simp add: fold_flatten_other)
  next
    case (Some p)
    then have p: "p \<in> set rest" "pkind p = VAR_KEYWORD" by (auto simp: find_Some_iff)
    define vk where "vk = (if extra = [] then [] else [(pname p, PDict extra)])"
    let ?D = "apply_defaults sig (bound @ named @ vk)"
    have params: "params = flatten_kwargs p ?D"
      using assms(3) pos kw Some fold_flatten [OF assms(1) _ p(2)] p(1) used(1)
      by (auto simp: bound_call_params_def sig_bind_def py_inv vk_def split: if_splits)
    have flat: "map_of params k = (case map_of extra k of Some v \<Rightarrow> Some v
        | None \<Rightarrow> if k = pname p then None else map_of ?D k)" for k
    proof -
      have D: "map_of ?D (pname p) = Some (PDict extra)"
        by (rule kwargs_entry [OF assms(1) used(1,2) p bind_keywords_names [OF kw] vk_def])
      show ?thesis
        unfolding params
        by (simp add: flatten_kwargs_def p(2) D map_of_fold_update bind_keywords_distinct [OF kw assms(2)]
            dict_delete split: option.split)
    qed
    show ?thesis
      by (rule that [OF pos kw, of vk]) (use p flat in \<open>auto simp: vk_def\<close>)
  qed
qed

lemma bound_keyword:
  assumes "sig_ok sig" "distinct (List.map fst kwargs)" "bound_call_params sig args kwargs = Inr params"
    and "map_of kwargs k = Some v"
  shows "map_of params k = Some v"
proof -
  from assms(1-3) obtain bound rest named extra vk where
      pos: "bind_positional sig args kwargs = Inr (bound, rest)"
    and kw: "bind_keywords rest kwargs = Inr (named, extra)"
    and extra: "\<forall>k v. map_of extra k = Some v \<longrightarrow> map_of params k = Some v"
    and declared: "\<forall>k. map_of extra k = None \<longrightarrow> k \<notin> pname ` {p \<in> set rest. pkind p = VAR_KEYWORD} \<longrightarrow>
       map_of params k = map_of (apply_defaults sig (bound @ named @ vk)) k"
    by (rule bound_call_params_cases)
  show ?thesis
  proof (cases "map_of named k")
    case None
    with assms(4) bind_keywords_cover [OF kw, of k] show ?thesis by (simp add: extra)
  next
    case (Some u)
    with assms(4) bind_keywords_cover [OF kw, of k] have u: "map_of named k = Some v" by simp
    with bind_keywords_disjoint [OF kw] have none: "map_of extra k = None" by blast
    obtain used where used: "sig = used @ rest" "List.map fst bound = List.map pname used"
      using bind_positional_shape [OF pos] by blast
    have inj: "inj_on pname (set sig)" "distinct (List.map pname sig)"
      using assms(1) unfolding sig_ok_def distinct_map by blast+
    from u have "k \<in> set (List.map fst named)" by (force dest: map_of_SomeD)
    then obtain p where p: "p \<in> set rest" "k = pname p" "pkind p \<noteq> VAR_KEYWORD"
      using bind_keywords_names [OF kw] by auto
    have "k \<notin> pname ` {p \<in> set rest. pkind p = VAR_KEYWORD}"
      using p inj(1) used(1) by (fastforce dest: inj_onD)
    moreover have "k \<notin> set (List.map fst bound)"
      using p inj(2) used by auto
    then have "map_of bound k = None" by (simp add: map_of_eq_None_iff)
    then have "map_of (bound @ named @ vk) k = Some v"
      using u by (simp add: map_add_def)
    then have "map_of (apply_defaults sig (bound @ named @ vk)) k = Some v"
      using p used(1) by (intro map_of_apply_defaults) auto
    ultimately show ?thesis using declared none by simp
  qed
qed

lemma bound_positional:
  assumes "sig_ok sig" "distinct (List.map fst kwargs)" "bound_call_params sig args kwargs = Inr params"
    and "i < length args" "i < length sig" "list_all positional (take (Suc i) sig)"
    and "map_of kwargs (pname (sig ! i)) = None \<or> pkind (sig ! i) = POSITIONAL_OR_KEYWORD"
  shows "map_of params (pname (sig ! i)) = Some (args ! i)"
proof -
  from assms(1-3) obtain bound rest named extra vk where
      pos: "bind_positional sig args kwargs = Inr (bound, rest)"
    and kw: "bind_keywords rest kwargs = Inr (named, extra)"
    and "\<forall>k v. map_of extra k = Some v \<longrightarrow> map_of params k = Some v"
    and declared: "\<forall>k. map_of extra k = None \<longrightarrow> k \<notin> pname ` {p \<in> set rest. pkind p = VAR_KEYWORD} \<longrightarrow>
       map_of params k = map_of (apply_defaults sig (bound @ named @ vk)) k"
    by (rule bound_call_params_cases)
  let ?n = "pname (sig ! i)"
  note nth = bind_positional_nth [OF pos assms(6,4,5)]
  with assms(7) bind_keywords_disjoint [OF kw] have none: "map_of extra ?n = None" by blast
  obtain used where used: "sig = used @ rest" "List.map fst bound = List.map pname used"
    using bind_positional_shape [OF pos] by blast
  have dist: "distinct (List.map pname sig)" using assms(1) by (simp add: sig_ok_def)
  have mem: "(?n, args ! i) \<in> set bound" using nth by (metis nth_mem)
  then have "?n \<in> set (List.map fst bound)" by force
  then have "?n \<in> pname ` set used" by (simp add: used(2))
  then have "?n \<notin> pname ` {p \<in> set rest. pkind p = VAR_KEYWORD}" using dist used(1) by auto
  moreover have "map_of bound ?n = Some (args ! i)"
    using mem dist used by (intro map_of_is_SomeI) auto
  then have "map_of (apply_defaults sig (bound @ named @ vk)) ?n = Some (args ! i)"
    using assms(5) by (intro map_of_apply_defaults) (auto simp: map_add_def split: option.split)
  ultimately show ?thesis using declared none by auto
qed

section \<open>The guard decides its specification\<close>

definition call_amount :: "'w guard_config \<Rightarrow> params \<Rightarrow> pyval" where
  \<comment> \<open>\<open>params.get(amount_kwarg) if amount_kwarg else None\<close>\<close>
  "call_amount G params = (if truthy (amount_kwarg G) then dict_get params (the (amount_kwarg G)) else PNone)"

definition admits ::
  "ext_lib \<Rightarrow> 'x world_scheme guard_config \<Rightarrow> signature \<Rightarrow> pyval list \<Rightarrow> params \<Rightarrow> capability_claims \<Rightarrow>
   'x world_scheme \<Rightarrow> 'x world_scheme \<Rightarrow> bool" where
  \<comment> \<open>the specification of \<open>authorize\<close>: an accepted token for the audience, a call within its
    capabilities and pinned parameters, a reservation the tracker accepted, a callback that returned\<close>
  "admits L G sig args kwargs claims w w' \<longleftrightarrow>
     (let B = bound_boundary G in
      \<exists>t params w1 w2.
        presented_token (dict_get kwargs (token_kwarg G)) (current_token w) = PStr t \<and>
        bound_call_params sig args (AList.delete (token_kwarg G) kwargs) = Inr params \<and>
        (issuer_public_key B = None) \<noteq> (key_registry B = None) \<and>
        accepts L (issuer_public_key B) (key_registry B) (revocation_check B) (audience B) 2 t claims w w1 \<and>
        call_within B (call_amount G params) (Some params) claims \<and>
        (\<exists>f. resolved_amount (call_amount G params) = Inr f \<and>
           (case tracker B of
              None \<Rightarrow> w2 = w1
            | Some T \<Rightarrow> \<exists>parent. parent_of L claims = Inr parent \<and> charged_to T parent claims f w1 w2)) \<and>
        notified (on_decision B) (allowed_event B claims) w2 w')"

lemma accepts_nonempty: "\<not> accepts L pk R store aud leeway [] claims w w'"
proof
  assume "accepts L pk R store aud leeway [] claims w w'"
  then obtain h m where "parse L [] = Inr (h, claims, m)" using accepts_parse by blast
  then show False by (simp add: parse_def)
qed

lemma verify_and_check_spec:
  "verify_and_check L B amount params token w = (Inr claims, w') \<longleftrightarrow>
     (\<exists>t w1 w2. token = PStr t \<and> (issuer_public_key B = None) \<noteq> (key_registry B = None) \<and>
        accepts L (issuer_public_key B) (key_registry B) (revocation_check B) (audience B) 2 t claims w w1 \<and>
        call_within B amount params claims \<and>
        (\<exists>f. resolved_amount amount = Inr f \<and>
           (case tracker B of
              None \<Rightarrow> w2 = w1
            | Some T \<Rightarrow> \<exists>parent. parent_of L claims = Inr parent \<and> charged_to T parent claims f w1 w2)) \<and>
        notified (on_decision B) (allowed_event B claims) w2 w')"
  unfolding verify_and_check_iff verify_value_iff check_claims_iff by blast

lemma authorize_iff:
  "authorize L G sig args kwargs w = (Inr u, w') \<longleftrightarrow> (\<exists>claims. admits L G sig args kwargs claims w w')"
proof -
  let ?token = "presented_token (dict_get kwargs (token_kwarg G)) (current_token w)"
  let ?B = "bound_boundary G"
  have "py_truth ?token" if "verify_and_check L ?B amount params ?token w = (Inr claims, w')" for amount params claims
  proof -
    from that obtain t w1 where "?token = PStr t"
        "accepts L (issuer_public_key ?B) (key_registry ?B) (revocation_check ?B) (audience ?B) 2 t claims w w1"
      unfolding verify_and_check_spec by blast
    then show ?thesis by (cases t) (simp_all add: py_truth_def accepts_nonempty)
  qed
  then have "authorize L G sig args kwargs w = (Inr u, w') \<longleftrightarrow>
      (\<exists>params claims. bound_call_params sig args (AList.delete (token_kwarg G) kwargs) = Inr params \<and>
         verify_and_check L ?B (call_amount G params) (Some params) ?token w = (Inr claims, w'))"
    by (auto simp: authorize_def Let_def py_inv call_amount_def)
  also have "\<dots> \<longleftrightarrow> (\<exists>claims. admits L G sig args kwargs claims w w')"
    unfolding admits_def Let_def verify_and_check_spec by blast
  finally show ?thesis .
qed


section \<open>What the guard does to the world\<close>

definition confined :: "('w \<Rightarrow> 'w \<Rightarrow> bool) \<Rightarrow> 'w boundary \<Rightarrow> bool" where
  \<comment> \<open>every collaborator of the boundary changes the world only as \<open>R\<close> says\<close>
  "confined R B \<longleftrightarrow>
     (\<forall>ask j. revocation_check B = Some ask \<longrightarrow> preserves R (ask j)) \<and>
     (\<forall>T. tracker B = Some T \<longrightarrow>
        (\<forall>c a. preserves R (record_one T c a)) \<and>
        (\<forall>f chain a. record_chain T = Some f \<longrightarrow> preserves R (f chain a))) \<and>
     (\<forall>f e. on_decision B = Some f \<longrightarrow> preserves R (f e))"

context world_relation
begin

lemma verify_value_preserves:
  assumes "\<And>ask j. store = Some ask \<Longrightarrow> preserves R (ask j)"
  shows "preserves R (verify_value L pk reg store aud token)"
  using assms by (cases token) (auto simp: verify_value_def intro: preserving verify_preserves)

lemma notify_preserves: "confined R B \<Longrightarrow> preserves R (notify (on_decision B) event)"
  unfolding notify_def confined_def by (intro preserving) blast

lemma deny_preserves: "confined R B \<Longrightarrow> preserves R (deny B claims e)"
  by (cases e) (auto simp: deny_def intro!: preserving notify_preserves)

lemma check_claims_preserves:
  assumes "confined R B"
  shows "preserves R (check_claims L B amount params claims)"
proof -
  have "preserves R (charge T parent claims f)" if "tracker B = Some T" for T parent f
    using assms that unfolding charge_def confined_def
    by (auto intro!: preserving split: option.split)
  then show ?thesis
    unfolding check_claims_def by (intro preserving)
qed

lemma verify_and_check_preserves:
  assumes "confined R B"
  shows "preserves R (verify_and_check L B amount params token)"
  unfolding verify_and_check_def
  by (intro preserving verify_value_preserves deny_preserves check_claims_preserves notify_preserves assms)
     (use assms in \<open>simp add: confined_def\<close>)

lemma authorize_preserves:
  assumes "confined R (guard_boundary G)"
  shows "preserves R (authorize L G sig args kwargs)"
proof -
  have B: "confined R (bound_boundary G)" using assms by (simp add: confined_def bound_boundary_def)
  show ?thesis
    unfolding preserves_def
  proof
    fix w
    have "preserves R (let token = presented_token (dict_get kwargs (token_kwarg G)) c;
               kwargs = AList.delete (token_kwarg G) kwargs
           in if \<not> py_truth token then
                abind (notify (on_decision (guard_boundary G)) (no_token_event G)) (\<lambda>_.
                raise (swarm (CapabilityViolationError (Some (capability G)) [])))
              else
                abind (lift (bound_call_params sig args kwargs)) (\<lambda>params.
                abind (verify_and_check L (bound_boundary G)
                         (if truthy (amount_kwarg G) then dict_get params (the (amount_kwarg G)) else PNone)
                         (Some params) token) (\<lambda>_.
                ret ())))" for c
      unfolding Let_def by (intro preserving notify_preserves verify_and_check_preserves assms B)
    then show "R w (snd (authorize L G sig args kwargs w))"
      unfolding preserves_def authorize_def by blast
  qed
qed

end

section \<open>Properties\<close>

text \<open>C2. The guard runs a tool exactly when it admits the call. The wrapper returns a value exactly when
  the presented token (the keyword argument, else the context's) is accepted for the bound audience, the
  bound call is within the token's capabilities and pinned parameters, the tracker accepted the
  reservation of the validated amount for the whole delegation chain, the decision callback returned,
  and the tool itself, called with the token removed, returned that value. In every other case the tool
  is not run.\<close>

theorem guard_exact:
  "guarded L G sig func args kwargs w = (Inr result, w') \<longleftrightarrow>
     (\<exists>claims w1. admits L G sig args kwargs claims w w1 \<and>
        func args (AList.delete (token_kwarg G) kwargs) w1 = (Inr result, w'))"
  by (auto simp: guarded_def py_inv authorize_iff)

end
