(* ===== verification/FloatRepr.thy ===== *)
theory FloatRepr
  imports PyFloat
begin

text \<open>
  Seventeen digits are enough: the decimal that \<open>repr\<close> prints for a finite float is read back as the
  same float, for every normal and subnormal binary64 number.
\<close>

definition binary64_number :: "rat \<Rightarrow> bool" where
  \<comment> \<open>a number that some finite float denotes\<close>
  "binary64_number x \<longleftrightarrow> round_double x = Fin x"

abbreviation double_exp :: "rat \<Rightarrow> int" where
  \<comment> \<open>the exponent of the unit in the last place of a positive number\<close>
  "double_exp x \<equiv> max (ilog 2 x - 52) (- 1074)"

lemma round_half_even_near:
  assumes "\<bar>y - of_int n\<bar> < 1 / 2"
  shows "round_half_even y = n"
proof -
  have f: "of_int \<lfloor>y\<rfloor> \<le> y" "y < of_int \<lfloor>y\<rfloor> + 1" using floor_correct [of y] by simp_all
  have "of_int \<lfloor>y\<rfloor> < (of_int (n + 1) :: rat)" "of_int (n - 2) < (of_int \<lfloor>y\<rfloor> :: rat)"
    using assms f unfolding of_int_add of_int_diff of_int_1 of_int_numeral by linarith+
  then consider "\<lfloor>y\<rfloor> = n" | "\<lfloor>y\<rfloor> = n - 1"
    unfolding of_int_less_iff by linarith
  then show ?thesis
  proof cases
    case 1
    then have "of_int \<lfloor>y\<rfloor> = (of_int n :: rat)" by simp
    with assms have "y - of_int \<lfloor>y\<rfloor> < 1 / 2" by linarith
    with 1 show ?thesis by (simp add: round_half_even_def)
  next
    case 2
    then have "of_int \<lfloor>y\<rfloor> = (of_int n - 1 :: rat)" by simp
    with assms have "1 / 2 < y - of_int \<lfloor>y\<rfloor>" by linarith
    with 2 show ?thesis by (simp add: round_half_even_def Let_def)
  qed
qed

lemma round_half_even_error: "\<bar>of_int (round_half_even y) - y\<bar> \<le> 1 / 2"
proof -
  have f: "of_int \<lfloor>y\<rfloor> \<le> y" "y < of_int \<lfloor>y\<rfloor> + 1" using floor_correct [of y] by simp_all
  consider (down) "y - of_int \<lfloor>y\<rfloor> < 1 / 2" | (up) "1 / 2 < y - of_int \<lfloor>y\<rfloor>" | (tie) "y - of_int \<lfloor>y\<rfloor> = 1 / 2"
    by linarith
  then show ?thesis
  proof cases
    case down
    then have "round_half_even y = \<lfloor>y\<rfloor>" by (simp add: round_half_even_def)
    with f down show ?thesis by linarith
  next
    case up
    then have "of_int (round_half_even y) = (of_int \<lfloor>y\<rfloor> + 1 :: rat)" by (simp add: round_half_even_def)
    with f up show ?thesis by linarith
  next
    case tie
    then have "of_int (round_half_even y) = (of_int \<lfloor>y\<rfloor> :: rat) \<or> of_int (round_half_even y) = (of_int \<lfloor>y\<rfloor> + 1 :: rat)"
      by (simp add: round_half_even_def Let_def)
    with tie show ?thesis by linarith
  qed
qed

lemma ilog_unique:
  assumes "0 < y" "2 powi k \<le> y" "y < 2 powi (k + 1)"
  shows "ilog 2 y = k"
proof -
  have "2 powi ilog 2 y \<le> y" "y < 2 powi (ilog 2 y + 1)"
    using ilog_bounds [of 2 y] assms(1) by simp_all
  with assms(2,3) have "2 powi ilog 2 y < (2 :: rat) powi (k + 1)" "2 powi k < (2 :: rat) powi (ilog 2 y + 1)"
    by linarith+
  then show ?thesis
    using powi_less_cancel [of "2 :: rat" "ilog 2 y" "k + 1"] powi_less_cancel [of "2 :: rat" k "ilog 2 y + 1"] by simp
qed

lemma round_double_pos:
  assumes "0 < y"
  shows "round_double y =
    (let v = of_int (round_half_even (y / 2 powi double_exp y)) * 2 powi double_exp y
     in if v \<noteq> 0 \<and> 1024 \<le> ilog 2 v then PosInf else Fin v)"
  using assms by (simp add: round_double_def Let_def)

lemma binary64_pos:
  assumes "0 < x" "binary64_number x"
  shows "is_integer (x / 2 powi double_exp x)" "ilog 2 x < 1024"
proof -
  let ?u = "2 powi double_exp x :: rat"
  have x: "of_int (round_half_even (x / ?u)) * ?u = x" and r: "\<not> 1024 \<le> ilog 2 x"
    using assms by (auto simp: binary64_number_def round_double_pos Let_def split: if_splits)
  have "x / ?u = of_int (round_half_even (x / ?u))"
    using x by (simp add: field_simps)
  then show "is_integer (x / ?u)" unfolding is_integer_iff by blast
  show "ilog 2 x < 1024" using r by simp
qed

lemma round_double_hits:
  assumes "0 < x" "0 < y" "is_integer (x / 2 powi double_exp y)" "\<bar>y - x\<bar> < 2 powi double_exp y / 2" "ilog 2 x < 1024"
  shows "round_double y = Fin x"
proof -
  let ?u = "2 powi double_exp y :: rat"
  have u: "0 < ?u" by simp
  obtain n where n: "x / ?u = of_int n" using assms(3) by (auto simp: is_integer_iff)
  have "\<bar>y / ?u - of_int n\<bar> = \<bar>y - x\<bar> / ?u"
    using u by (simp add: n [symmetric] diff_divide_distrib [symmetric])
  also have "\<dots> < 1 / 2" using assms(4) u by (simp add: field_simps)
  finally have "round_half_even (y / ?u) = n" by (rule round_half_even_near)
  then have "of_int (round_half_even (y / ?u)) * ?u = x" using n u by (simp add: field_simps)
  then show ?thesis using assms(2,5) by (simp add: round_double_pos)
qed


text \<open>
  A number within one part in \<open>2 * 10^16\<close> of a binary64 number rounds to it.
\<close>

lemma near_rounds:
  assumes "0 < x" "binary64_number x" "\<bar>y - x\<bar> \<le> x / (2 * 10 ^ 16)"
  shows "round_double y = Fin x"
proof -
  let ?E = "ilog 2 x" and ?e = "double_exp x"
  define b where "b = (2 :: rat) powi ?E"
  define u where "u = (2 :: rat) powi ?e"
  have xb: "b \<le> x" "x < 2 * b"
    using ilog_bounds [of 2 x] assms(1) by (simp_all add: b_def power_int_add)
  have b0: "0 < b" and u0: "0 < u" by (simp_all add: b_def u_def)
  obtain m where m: "x = of_int m * u"
    using binary64_pos(1) [OF assms(1,2)] u0 by (auto simp: is_integer_iff u_def field_simps)
  have "1 \<le> m"
    using assms(1) u0 by (auto simp: m zero_less_mult_iff)
  have error: "\<bar>y - x\<bar> * 20000000000000000 \<le> x"
    using assms(3) by (simp add: field_simps)
  have yx: "x \<le> 2 * y"
  proof -
    have "x \<le> 2 * y" if "x - y \<le> d" "d * 20000000000000000 \<le> x" for d
      using that assms(1) by linarith
    then show ?thesis using error by (metis abs_ge_self abs_minus_commute)
  qed
  with assms(1) have y0: "0 < y" by linarith
  have e_le: "?e \<le> ?E"
  proof -
    have "u \<le> x" using \<open>1 \<le> m\<close> u0 by (simp add: m)
    with xb(2) have "(2 :: rat) powi ?e < 2 powi (?E + 1)"
      by (simp add: u_def b_def power_int_add)
    then show ?thesis using powi_less_cancel [of "2 :: rat" ?e "?E + 1"] by simp
  qed
  have bu: "b \<le> 4503599627370496 * u"
  proof -
    have "(2 :: rat) powi ?E \<le> 2 powi (52 + ?e)" by (rule power_int_increasing) auto
    then show ?thesis by (simp add: b_def u_def power_int_add)
  qed
  show ?thesis
  proof (cases "b \<le> y")
    case True
    have "(2 :: rat) powi (?E - ?e) = of_int (2 ^ nat (?E - ?e))"
      using e_le by (simp add: power_int_def)
    moreover have "b = 2 powi (?E - ?e) * u"
      by (simp add: b_def u_def flip: power_int_add)
    ultimately obtain n :: int where n: "b = of_int n * u" by metis
    have "of_int m * u < of_int (2 * n) * u"
      using xb(2) by (simp add: m n)
    then have "m + 1 \<le> 2 * n" using u0 by (simp only: mult_less_cancel_right of_int_less_iff) auto
    then have "of_int (m + 1) * u \<le> of_int (2 * n) * u"
      using u0 by (intro mult_right_mono) (simp_all only: of_int_le_iff less_imp_le)
    then have top: "x + u \<le> 2 * b"
      by (simp add: m n algebra_simps)
    have "d < u / 2" if "d * 20000000000000000 \<le> x" for d
      using that xb(2) bu u0 by linarith
    from this [OF error] have close: "\<bar>y - x\<bar> < u / 2" .
    have "y < 2 * b" using close top u0 unfolding abs_less_iff by linarith
    then have "ilog 2 y = ?E"
      using True by (intro ilog_unique [OF y0]) (simp_all add: b_def power_int_add)
    then show ?thesis
      using binary64_pos [OF assms(1,2)] close assms(1) y0 by (intro round_double_hits) (simp_all add: u_def)
  next
    case False
    let ?e' = "max (?E - 53) (- 1074)"
    define u' where "u' = (2 :: rat) powi ?e'"
    have u'0: "0 < u'" by (simp add: u'_def)
    have "(2 :: rat) powi (?E - 1) = b / 2" by (simp add: b_def power_int_diff)
    then have "ilog 2 y = ?E - 1"
      using False y0 yx xb(1) by (intro ilog_unique) (simp_all flip: b_def)
    then have e': "double_exp y = ?e'" by simp
    have "(2 :: rat) powi ?E \<le> 2 powi (53 + ?e')" by (rule power_int_increasing) auto
    then have bu': "b \<le> 9007199254740992 * u'" by (simp add: b_def u'_def power_int_add)
    have "x * 100 \<le> 101 * b" using error False b0 assms(1) by (simp add: abs_if split: if_splits)
    then have "d < u' / 2" if "d * 20000000000000000 \<le> x" for d
      using that bu' u'0 by linarith
    from this [OF error] have close: "\<bar>y - x\<bar> < u' / 2" .
    have "u = 2 powi (?e - ?e') * u'" by (simp add: u_def u'_def flip: power_int_add)
    moreover have "(2 :: rat) powi (?e - ?e') = of_int (2 ^ nat (?e - ?e'))" by (simp add: power_int_def)
    ultimately obtain n :: int where "u = of_int n * u'" by metis
    then have "x = of_int (m * n) * u'" using m by simp
    then have "x / u' = of_int (m * n)" using u'0 by (metis nonzero_mult_div_cancel_right less_irrefl)
    then have "is_integer (x / u')" unfolding is_integer_iff by blast
    then show ?thesis
      using binary64_pos(2) [OF assms(1,2)] close assms(1) y0 e' by (intro round_double_hits) (simp_all add: u'_def)
  qed
qed

section \<open>The shortest decimal reads back\<close>

lemma repr_at_rounds: "repr_at x k = (c, True) \<Longrightarrow> rounds_to x c k"
  by (auto simp: repr_at_def Let_def split: if_splits)

lemma repr_search_rounds:
  assumes "rounds_to x (fst (repr_at x (k - int n))) (k - int n)" "repr_search x k n = (c, k')"
  shows "rounds_to x c k'"
  using assms
proof (induction n arbitrary: k)
  case (Suc n)
  show ?case
  proof (cases "repr_at x k")
    case (Pair d ok)
    with Suc.prems Suc.IH [of "k - 1"] show ?thesis
      by (cases ok) (auto dest: repr_at_rounds simp: diff_diff_eq)
  qed
qed auto

lemma repr_digits_round:
  assumes "0 < x" "binary64_number x" "repr_digits x = (c, k)"
  shows "round_double (of_int c * 10 powi k) = Fin x"
proof -
  let ?k = "ilog 10 x - 16"
  define p where "p = (10 :: rat) powi ?k"
  have p0: "0 < p" by (simp add: p_def)
  have "(10 :: rat) powi ilog 10 x = 10 powi (?k + 16)" by simp
  also have "\<dots> = p * 10 ^ 16" unfolding p_def by (subst power_int_add) (simp_all only: power_int_numeral, simp)
  finally have small: "p * 10 ^ 16 \<le> x"
    using ilog_bounds(1) [of 10 x] assms(1) by simp
  let ?n = "round_half_even (x / p)"
  have "\<bar>of_int ?n * p - x\<bar> = \<bar>of_int ?n - x / p\<bar> * p"
    using p0 by (simp add: abs_mult_pos left_diff_distrib)
  also have "\<dots> \<le> 1 / 2 * p"
    using p0 by (intro mult_right_mono round_half_even_error) simp
  finally have "\<bar>of_int ?n * p - x\<bar> \<le> x / (2 * 10 ^ 16)" using small by simp
  then have "rounds_to x ?n ?k"
    using near_rounds [OF assms(1,2)] by (simp add: rounds_to_def p_def)
  then have "fst (repr_at x ?k) = ?n" "rounds_to x (fst (repr_at x ?k)) ?k"
    by (simp_all add: repr_at_def p_def)
  then show ?thesis
    using repr_search_rounds [of x "ilog 10 x" 16] assms(3)
    by (simp add: repr_digits_def rounds_to_def)
qed

lemma round_double_minus: "round_double (- x) = Fin (- v) \<longleftrightarrow> round_double x = Fin v"
  by (auto simp: round_double_def Let_def)

lemma repr_round_trip:
  assumes "binary64_number x"
  shows "round_double (repr_value x) = Fin x"
proof -
  have pos: "round_double (repr_value z) = Fin z" if "0 < z" "binary64_number z" for z
    using repr_digits_round [OF that] that(1) by (cases "repr_digits z") (simp add: repr_value_def)
  consider "x = 0" | "0 < x" | "0 < - x" by linarith
  then show ?thesis
  proof cases
    case 3
    have "binary64_number (- x)" using assms by (simp add: binary64_number_def round_double_minus)
    moreover have "repr_value (- x) = - repr_value x" by (simp add: repr_value_def split_def Let_def)
    ultimately show ?thesis using pos [OF 3] by (simp add: round_double_minus)
  qed (use assms pos in \<open>simp_all add: repr_value_def round_double_def\<close>)
qed

definition finite_float :: "pyfloat \<Rightarrow> bool" where
  "finite_float f = (case f of Fin x \<Rightarrow> binary64_number x | _ \<Rightarrow> False)"

end
