(* ===== verification/JsonRoundTrip.thy ===== *)
theory JsonRoundTrip
  imports PyJson FloatRepr
begin

text \<open>
  \<open>json.loads\<close> reads back what the canonical encoder writes: for every value whose floats are
  finite, whose integers are not absurdly long and whose keys do not repeat, decoding the text of the value gives the value
  with its objects in key order (\<open>json_loads_text\<close>). The proof follows the encoder: escapes of
  characters, integers, the layouts of \<open>repr\<close> for floats, then lists and objects by induction,
  with \<open>reads_as\<close> as the statement that a text is read as a value wherever it stands.
\<close>

section \<open>Strings\<close>

lemma hex_val_digit:
  assumes "0 \<le> n" "n < 16"
  shows "hex_val (hex_digit n) = Some n"
proof -
  from assms have "n \<in> {0,1,2,3,4,5,6,7,8,9,10,11,12,13,14,15}"
    unfolding insert_iff empty_iff by presburger
  then show ?thesis
    by (elim insertE emptyE; simp; code_simp)
qed

lemma char_code_range: "0 \<le> (of_char c :: int)" "(of_char c :: int) < 256"
  by (simp_all add: of_char_def)

lemma unescape_hex_digits:
  "unescape_hex CHR ''0'' CHR ''0'' (hex_digit (of_char c div 16)) (hex_digit (of_char c mod 16)) = Some c"
proof -
  have "hex_val (hex_digit (of_char c div 16)) = Some (of_char c div 16)"
      "hex_val (hex_digit (of_char c mod 16)) = Some (of_char c mod 16)"
    by (rule hex_val_digit; use char_code_range [of c] in linarith)+
  moreover have "hex_val CHR ''0'' = Some 0" by code_simp
  ultimately show ?thesis
    by (simp add: unescape_hex_def)
qed

lemma scan_string_plain:
  "c \<noteq> quote \<Longrightarrow> c \<noteq> backslash \<Longrightarrow> 32 \<le> (of_char c :: int) \<Longrightarrow>
   scan_string (c # s) = map_option (\<lambda>(t, r). (c # t, r)) (scan_string s)"
  by (simp split: option.splits)

lemma backslash_quote [simp]: "backslash \<noteq> quote" "quote \<noteq> backslash"
  by (simp_all add: backslash_def quote_def)

lemma scan_string_short:
  "e \<noteq> CHR ''u'' \<Longrightarrow> unescape e = Some c \<Longrightarrow>
   scan_string (backslash # e # s) = map_option (\<lambda>(t, r). (c # t, r)) (scan_string s)"
  by (simp split: option.splits)

lemma scan_string_hex:
  "scan_string (backslash # CHR ''u'' # CHR ''0'' # CHR ''0'' # hex_digit (of_char c div 16)
     # hex_digit (of_char c mod 16) # s) = map_option (\<lambda>(t, r). (c # t, r)) (scan_string s)"
  by (simp add: unescape_hex_digits split: option.splits)

lemma of_char_eqD: "of_char c = (of_char d :: int) \<Longrightarrow> c = d"
  by simp

lemma scan_string_escape:
  "scan_string (json_escape c @ s) = map_option (\<lambda>(t, r). (c # t, r)) (scan_string s)"
proof -
  have short: "unescape CHR ''b'' = Some CHR 0x08" "unescape CHR ''t'' = Some CHR 0x09"
      "unescape CHR ''n'' = Some CHR 0x0A" "unescape CHR ''f'' = Some CHR 0x0C"
      "unescape CHR ''r'' = Some CHR 0x0D" "unescape quote = Some quote" "unescape backslash = Some backslash"
    by code_simp+
  have code: "of_char c = (8 :: int) \<Longrightarrow> c = CHR 0x08" "of_char c = (9 :: int) \<Longrightarrow> c = CHR 0x09"
      "of_char c = (10 :: int) \<Longrightarrow> c = CHR 0x0A" "of_char c = (12 :: int) \<Longrightarrow> c = CHR 0x0C"
      "of_char c = (13 :: int) \<Longrightarrow> c = CHR 0x0D"
    by (rule of_char_eqD; simp)+
  have esc: "json_escape quote = [backslash, quote]" "json_escape backslash = [backslash, backslash]"
      "json_escape CHR 0x08 = [backslash, CHR ''b'']" "json_escape CHR 0x09 = [backslash, CHR ''t'']"
      "json_escape CHR 0x0A = [backslash, CHR ''n'']" "json_escape CHR 0x0C = [backslash, CHR ''f'']"
      "json_escape CHR 0x0D = [backslash, CHR ''r'']"
    by code_simp+
  have neq: "quote \<noteq> CHR ''u''" "backslash \<noteq> CHR ''u''" by (simp_all add: quote_def backslash_def)
  consider "c = quote" | "c = backslash" | "of_char c = (8 :: int)" | "of_char c = (9 :: int)"
    | "of_char c = (10 :: int)" | "of_char c = (12 :: int)" | "of_char c = (13 :: int)"
    | "c \<noteq> quote" "c \<noteq> backslash" "32 \<le> (of_char c :: int)" "of_char c \<le> (126 :: int)"
    | "c \<noteq> quote" "c \<noteq> backslash" "(of_char c :: int) \<notin> {8, 9, 10, 12, 13}"
      "\<not> (32 \<le> (of_char c :: int) \<and> of_char c \<le> (126 :: int))"
    by auto
  then show ?thesis
  proof cases
    case 8
    then have "json_escape c = [c]" by (auto simp: json_escape_def Let_def)
    with 8 show ?thesis by (simp add: scan_string_plain del: scan_string.simps)
  next
    case 9
    then have "json_escape c = [backslash, CHR ''u'', CHR ''0'', CHR ''0'',
        hex_digit (of_char c div 16), hex_digit (of_char c mod 16)]"
      by (simp add: json_escape_def Let_def)
    then show ?thesis using scan_string_hex by (simp del: scan_string.simps)
  qed (use esc short neq code in \<open>simp_all add: scan_string_short del: scan_string.simps\<close>)
qed

lemma scan_json_string:
  "scan_string (concat (List.map json_escape s) @ quote # r) = Some (s, r)"
  by (induction s) (simp_all add: scan_string_escape del: scan_string.simps(2), simp)

section \<open>Integers\<close>

lemma digit_val_char: "0 \<le> n \<Longrightarrow> n < 10 \<Longrightarrow> digit_val (char_of (48 + n)) = n" for n :: int
  by (simp add: digit_val_def)

lemma is_digit_char: "0 \<le> n \<Longrightarrow> n < 10 \<Longrightarrow> is_digit (char_of (48 + n))" for n :: int
  by (simp add: is_digit_def digit_val_char)

lemma digits_val_snoc: "digits_val (ds @ [d]) = 10 * digits_val ds + digit_val d"
  by (simp add: digits_val_def)

lemma digits_val_append: "digits_val (as @ bs) = digits_val as * 10 ^ length bs + digits_val bs"
proof (induction bs rule: rev_induct)
  case Nil
  then show ?case by (simp add: digits_val_def)
next
  case (snoc b bs)
  then show ?case
    using digits_val_snoc [of "as @ bs" b] digits_val_snoc [of bs b] by (simp add: algebra_simps)
qed

lemma int_digits_facts:
  assumes "0 \<le> n"
  shows "int_digits n \<noteq> [] \<and> list_all is_digit (int_digits n) \<and> digits_val (int_digits n) = n \<and>
    (hd (int_digits n) = CHR ''0'' \<longleftrightarrow> n = 0)"
  using assms
proof (induction n rule: int_digits.induct)
  case (1 n)
  show ?case
  proof (cases "n < 10")
    case True
    have "digit_val CHR ''0'' = 0" "char_of (48 :: int) = CHR ''0''" by code_simp+
    then have "(char_of (48 + n) = CHR ''0'') \<longleftrightarrow> n = 0"
      using digit_val_char [of n] True 1 by auto
    with True 1 show ?thesis
      by (simp add: int_digits.simps [of n] is_digit_char digits_val_def digit_val_char)
  next
    case False
    then have "n div 10 \<noteq> 0" by presburger
    with False 1 show ?thesis
      by (auto simp: int_digits.simps [of n] is_digit_char digits_val_snoc digit_val_char)
  qed
qed

lemma length_int_digits: "0 \<le> n \<Longrightarrow> n < 10 ^ m \<Longrightarrow> 0 < m \<Longrightarrow> length (int_digits n) \<le> m"
proof (induction n arbitrary: m rule: int_digits.induct)
  case (1 n)
  show ?case
  proof (cases "n < 10")
    case True
    with 1 show ?thesis by (simp add: int_digits.simps [of n])
  next
    case False
    with "1.prems" obtain k where m: "m = Suc k" "0 < k"
      by (cases m; cases "m - 1") auto
    with 1 have "n div 10 < 10 ^ k" by (simp add: div_less_iff_less_mult [symmetric] mult.commute)
    with 1 False m show ?thesis by (simp add: int_digits.simps [of n])
  qed
qed

definition delimited :: "string \<Rightarrow> bool" where
  \<comment> \<open>what can follow a number: the end of the text or of an element\<close>
  "delimited r \<longleftrightarrow> (case r of [] \<Rightarrow> True | c # _ \<Rightarrow> c \<in> {CHR '','', CHR '']'', CHR ''}''})"

lemma delimited_cases:
  assumes "delimited r"
  shows "takeWhile is_digit (ds @ r) = takeWhile is_digit ds"
    and "list_all is_digit ds \<Longrightarrow> dropWhile is_digit (ds @ r) = r"
    and "scan_frac r = ([], r)" and "scan_exp r = None"
proof -
  have nd: "\<not> is_digit CHR '',''" "\<not> is_digit CHR '']''" "\<not> is_digit CHR ''}''" by code_simp+
  from assms nd have "takeWhile is_digit r = []" "dropWhile is_digit r = r"
    by (cases r; auto simp: delimited_def)+
  then show "takeWhile is_digit (ds @ r) = takeWhile is_digit ds"
    and "list_all is_digit ds \<Longrightarrow> dropWhile is_digit (ds @ r) = r"
    by (induction ds) auto
  show "scan_frac r = ([], r)" "scan_exp r = None"
    using assms by (cases r; auto simp: delimited_def scan_frac_def scan_exp_def split: list.splits)+
qed

section \<open>Numbers\<close>

definition ends_digits :: "string \<Rightarrow> bool" where
  "ends_digits r \<longleftrightarrow> (case r of [] \<Rightarrow> True | c # _ \<Rightarrow> \<not> is_digit c)"

lemma ends_digits_span:
  "list_all is_digit ds \<Longrightarrow> ends_digits r \<Longrightarrow>
   takeWhile is_digit (ds @ r) = ds \<and> dropWhile is_digit (ds @ r) = r"
  by (induction ds) (auto simp: ends_digits_def split: list.splits)

lemma ends_digits_marks [simp]:
  "ends_digits []" "ends_digits (CHR ''.'' # r)" "ends_digits (CHR ''e'' # r)" "delimited r \<Longrightarrow> ends_digits r"
proof -
  have nd: "\<not> is_digit CHR '',''" "\<not> is_digit CHR '']''" "\<not> is_digit CHR ''}''"
      "\<not> is_digit CHR ''.''" "\<not> is_digit CHR ''e''" by code_simp+
  then show "ends_digits []" "ends_digits (CHR ''.'' # r)" "ends_digits (CHR ''e'' # r)"
      "delimited r \<Longrightarrow> ends_digits r"
    by (auto simp: ends_digits_def delimited_def split: list.splits)
qed

lemma scan_unsigned_ip:
  assumes "ds \<noteq> []" "list_all is_digit ds" "hd ds \<noteq> CHR ''0'' \<or> length ds = 1" "ends_digits r"
  shows "scan_unsigned (ds @ r) =
    (let (fd, r2) = scan_frac r
     in (case scan_exp r2 of
           None \<Rightarrow>
             (if fd = [] then if 4300 < length ds then None else Some (\<lambda>sg. (PInt (sg * digits_val ds), r2))
              else Some (\<lambda>sg. (PFloat (round_double
                     (of_int (sg * digits_val (ds @ fd)) * 10 powi (- int (length fd)))), r2)))
         | Some (e, r3) \<Rightarrow>
             Some (\<lambda>sg. (PFloat (round_double
                (of_int (sg * digits_val (ds @ fd)) * 10 powi (e - int (length fd)))), r3))))"
proof -
  obtain d t where ds: "ds = d # t" using assms(1) by (cases ds) auto
  note span = ends_digits_span [OF assms(2,4)]
  show ?thesis
  proof (cases "d = CHR ''0''")
    case True
    with assms(3) ds have "t = []" by simp
    with True ds assms(2) show ?thesis by (simp add: scan_unsigned_def Let_def split: prod.split option.split)
  next
    case False
    with ds assms(2) span show ?thesis by (simp add: scan_unsigned_def Let_def split: prod.split option.split)
  qed
qed

lemma scan_unsigned_int:
  assumes "0 \<le> n" "n < 10 ^ 4300" "delimited r"
  shows "scan_unsigned (int_digits n @ r) = Some (\<lambda>sg. (PInt (sg * n), r))"
proof -
  note f = int_digits_facts [OF assms(1)]
  have "hd (int_digits n) \<noteq> CHR ''0'' \<or> length (int_digits n) = 1"
    using f by (auto simp: int_digits.simps [of 0])
  moreover have "length (int_digits n) \<le> 4300"
    by (rule length_int_digits [OF assms(1,2)]) simp
  ultimately show ?thesis
    using f assms(3) by (simp add: scan_unsigned_ip delimited_cases)
qed

lemma scan_frac_digits:
  assumes "fd \<noteq> []" "list_all is_digit fd" "ends_digits r"
  shows "scan_frac (CHR ''.'' # fd @ r) = (fd, r)"
  using assms ends_digits_span [OF assms(2,3)] by (cases fd) (auto simp: scan_frac_def)

lemma scan_frac_none: "scan_frac (CHR ''e'' # r) = ([], CHR ''e'' # r)"
  by (cases r) (simp_all add: scan_frac_def)

lemma digits_val_zeros: "digits_val (zeros n @ ds) = digits_val ds" "list_all is_digit (zeros n)"
proof -
  have "digit_val CHR ''0'' = 0" "is_digit CHR ''0''" by code_simp+
  moreover have "digits_val (replicate m CHR ''0'') = 0" for m
    by (induction m) (use calculation in \<open>simp_all add: digits_val_def\<close>)
  ultimately show "digits_val (zeros n @ ds) = digits_val ds" "list_all is_digit (zeros n)"
    by (simp_all add: zeros_def digits_val_append list_all_iff)
qed

definition exp_text :: "int \<Rightarrow> string" where
  "exp_text e = ''e'' @ (if e < 0 then ''-'' else ''+'') @ (if \<bar>e\<bar> < 10 then ''0'' else []) @ int_digits \<bar>e\<bar>"

lemma scan_exp_text:
  assumes "delimited r"
  shows "scan_exp (exp_text e @ r) = Some (e, r)"
proof -
  note f = int_digits_facts [of "\<bar>e\<bar>"]
  let ?ds = "(if \<bar>e\<bar> < 10 then ''0'' else []) @ int_digits \<bar>e\<bar>"
  have "digits_val ?ds = \<bar>e\<bar>" "list_all is_digit ?ds" "?ds \<noteq> []"
    using f digits_val_zeros [of 1] by (auto simp: zeros_def)
  then have "scan_exp_digits (?ds @ r) = Some (\<bar>e\<bar>, r)"
    using ends_digits_span [of ?ds r] assms by (simp add: scan_exp_digits_def Let_def)
  moreover have "scan_exp (CHR ''e'' # CHR ''-'' # t) = map_option (\<lambda>(n, r). (- n, r)) (scan_exp_digits t)"
      "scan_exp (CHR ''e'' # CHR ''+'' # t) = scan_exp_digits t" for t
    by (simp_all add: scan_exp_def)
  moreover have "exp_text e @ r = CHR ''e'' # (if e < 0 then CHR ''-'' else CHR ''+'') # (?ds @ r)"
    by (simp add: exp_text_def)
  ultimately show ?thesis
    by (cases "e < 0") (simp_all only: if_True if_False option.map prod.case, simp_all)
qed

text \<open>The layouts of \<open>repr\<close> are numbers with the digits and the exponent they were laid out from.\<close>

lemma scan_layout:
  assumes "0 < c" "delimited r"
  shows "\<exists>g. scan_unsigned (layout_digits (int_digits c) decpt @ r) = Some g \<and>
    (\<forall>sg. g sg = (PFloat (round_double
        (of_int (sg * c) * 10 powi (decpt - int (length (int_digits c))))), r))"
proof -
  define ds where "ds = int_digits c"
  have ds: "ds \<noteq> []" "list_all is_digit ds" "digits_val ds = c" "hd ds \<noteq> CHR ''0''"
    using int_digits_facts [of c] assms(1) by (auto simp: ds_def)
  have dot0: "digit_val CHR ''0'' = 0" "is_digit CHR ''0''" by code_simp+
  consider (exponent) "decpt \<le> - 4 \<or> 16 < decpt" | (small) "- 4 < decpt" "decpt \<le> 0"
    | (whole) "0 < decpt" "decpt \<le> 16" "int (length ds) \<le> decpt"
    | (split) "0 < decpt" "decpt \<le> 16" "decpt < int (length ds)"
    by linarith
  then have "\<exists>g. scan_unsigned (layout_digits ds decpt @ r) = Some g \<and>
    (\<forall>sg. g sg = (PFloat (round_double (of_int (sg * c) * 10 powi (decpt - int (length ds)))), r))"
  proof cases
    case exponent
    let ?fd = "drop 1 ds" and ?m = "if length ds = 1 then [] else ''.'' @ drop 1 ds"
    have lay: "layout_digits ds decpt @ r = take 1 ds @ ?m @ exp_text (decpt - 1) @ r"
      using exponent by (auto simp: layout_digits_def exp_text_def Let_def)
    have one: "take 1 ds \<noteq> []" "list_all is_digit (take 1 ds)" "length (take 1 ds) = 1"
      using ds by (cases ds; simp)+
    have frac: "scan_frac (?m @ exp_text (decpt - 1) @ r) = (?fd, exp_text (decpt - 1) @ r)"
    proof (cases "length ds = 1")
      case True
      then show ?thesis using scan_frac_none by (simp add: exp_text_def)
    next
      case False
      then have "?fd \<noteq> []" "list_all is_digit ?fd" using ds by (cases ds; auto)+
      with False show ?thesis
        using scan_frac_digits [of ?fd "exp_text (decpt - 1) @ r"] by (simp add: exp_text_def)
    qed
    have ends: "ends_digits (?m @ exp_text (decpt - 1) @ r)"
      by (simp add: exp_text_def)
    have len: "decpt - 1 - int (length ?fd) = decpt - int (length ds)"
      using ds(1) by (cases ds) auto
    show ?thesis
      unfolding lay scan_unsigned_ip [OF one(1,2) disjI2 [OF one(3)] ends] frac
      using ds(3) len by (simp add: scan_exp_text [OF assms(2)])
  next
    case small
    let ?fd = "zeros (- decpt) @ ds"
    have lay: "layout_digits ds decpt @ r = ''0'' @ CHR ''.'' # ?fd @ r"
      using small by (auto simp: layout_digits_def Let_def)
    have fd: "?fd \<noteq> []" "list_all is_digit ?fd" using ds digits_val_zeros by auto
    have len: "- int (length ?fd) = decpt - int (length ds)"
      using small by (simp add: zeros_def)
    have val: "digits_val (''0'' @ ?fd) = c"
      using ds(3) digits_val_zeros(1) [of 1 ?fd] digits_val_zeros(1) [of "- decpt" ds] by (simp add: zeros_def)
    have zero: "''0'' \<noteq> []" "list_all is_digit ''0''" "length ''0'' = 1" "ends_digits (CHR ''.'' # ?fd @ r)"
      using dot0 by simp_all
    show ?thesis
      unfolding lay scan_unsigned_ip [OF zero(1,2) disjI2 [OF zero(3)] zero(4)]
      using fd scan_frac_digits [OF fd, of r] assms(2) val len by (simp add: delimited_cases)
  next
    case whole
    let ?ip = "ds @ zeros (decpt - int (length ds))"
    have lay: "layout_digits ds decpt @ r = ?ip @ CHR ''.'' # ''0'' @ r"
      using whole by (auto simp: layout_digits_def Let_def)
    have ip: "?ip \<noteq> []" "list_all is_digit ?ip" "hd ?ip \<noteq> CHR ''0''" using ds digits_val_zeros by auto
    have val: "digits_val (?ip @ ''0'') = c * 10 ^ nat (decpt - int (length ds)) * 10"
      using ds(3) digits_val_zeros(1) [of _ "[]"] dot0
      by (simp add: digits_val_append digits_val_snoc zeros_def digits_val_def [of "[]"])
         (simp add: digits_val_def)
    have "(10 :: rat) powi (decpt - int (length ds)) = 10 ^ nat (decpt - int (length ds))"
      using whole by (simp add: power_int_def)
    then show ?thesis
      unfolding lay scan_unsigned_ip [OF ip(1,2) disjI1 [OF ip(3)] ends_digits_marks(2)]
      using scan_frac_digits [of "''0''" r] assms(2) val dot0 by (simp add: delimited_cases mult.assoc)
  next
    case split
    let ?ip = "take (nat decpt) ds" and ?fd = "drop (nat decpt) ds"
    have lay: "layout_digits ds decpt @ r = ?ip @ CHR ''.'' # ?fd @ r"
      using split by (auto simp: layout_digits_def Let_def)
    have ip: "?ip \<noteq> []" "list_all is_digit ?ip" "hd ?ip \<noteq> CHR ''0''"
      using ds split by (auto simp: list_all_iff dest: in_set_takeD)
    have fd: "?fd \<noteq> []" "list_all is_digit ?fd"
      using ds split by (auto simp: list_all_iff dest: in_set_dropD)
    have len: "- int (length ?fd) = decpt - int (length ds)" using split by simp
    show ?thesis
      unfolding lay scan_unsigned_ip [OF ip(1,2) disjI1 [OF ip(3)] ends_digits_marks(2)]
      using fd scan_frac_digits [OF fd, of r] assms(2) len ds(3) by (simp add: delimited_cases)
  qed
  then show ?thesis by (simp add: ds_def)
qed

lemma strip_zeros_value:
  "strip_zeros c k = (c', k') \<Longrightarrow> of_int c' * (10 :: rat) powi k' = of_int c * 10 powi k \<and> (0 < c \<longrightarrow> 0 < c')"
proof (induction c k rule: strip_zeros.induct)
  case (1 c k)
  show ?case
  proof (cases "0 < c \<and> c mod 10 = 0")
    case True
    define d where "d = c div 10"
    with True have d: "c = 10 * d" "0 < d" by presburger+
    have "strip_zeros d (k + 1) = (c', k')"
      using True 1(2) by (simp add: strip_zeros.simps [of c] d_def [symmetric])
    with 1(1) True d have "of_int c' * (10 :: rat) powi k' = of_int d * 10 powi (k + 1)" "0 < c'"
      by (simp_all add: d_def [symmetric])
    with d(1) show ?thesis by (simp add: power_int_add)
  next
    case False
    with 1 show ?thesis by (auto simp: strip_zeros.simps [of c])
  qed
qed

lemma scan_literal_number:
  assumes "s = d # t" "is_digit d" "scan_unsigned s = Some g"
  shows "scan_literal s = Some (g 1)" and "scan_literal (CHR ''-'' # s) = Some (g (- 1))"
proof -
  have "d \<noteq> CHR ''n''" "d \<noteq> CHR ''t''" "d \<noteq> CHR ''f''" "d \<noteq> CHR ''-''"
    using assms(2) by (auto simp: is_digit_def digit_val_def)
  with assms show "scan_literal s = Some (g 1)" and "scan_literal (CHR ''-'' # s) = Some (g (- 1))"
    by (simp_all add: scan_literal_def)
qed

lemma scan_unsigned_digit: "scan_unsigned s = Some g \<Longrightarrow> \<exists>d t. s = d # t \<and> is_digit d"
  by (cases s) (auto simp: scan_unsigned_def split: if_splits)

definition int_readable :: "int \<Rightarrow> bool" where
  \<comment> \<open>the interpreter's limit on the digits of an integer\<close>
  "int_readable n \<longleftrightarrow> \<bar>n\<bar> < 10 ^ 4300"

lemma int_readable_safe: "\<bar>n\<bar> \<le> MAX_SAFE_INTEGER \<Longrightarrow> int_readable n"
proof -
  assume "\<bar>n\<bar> \<le> MAX_SAFE_INTEGER"
  also have "MAX_SAFE_INTEGER < 10 ^ 16" by (simp add: MAX_SAFE_INTEGER_def)
  also have "(10 :: int) ^ 16 \<le> 10 ^ 4300" by (rule power_increasing) simp_all
  finally show ?thesis by (simp only: int_readable_def)
qed

lemma int_readable_mono: "int_readable n \<Longrightarrow> \<bar>m\<bar> \<le> \<bar>n\<bar> \<Longrightarrow> int_readable m"
  unfolding int_readable_def by (rule le_less_trans)

lemma scan_int:
  assumes "int_readable n" "delimited r"
  shows "scan_literal (int_str n @ r) = Some (PInt n, r)"
proof -
  have u: "scan_unsigned (int_digits \<bar>n\<bar> @ r) = Some (\<lambda>sg. (PInt (sg * \<bar>n\<bar>), r))"
    by (rule scan_unsigned_int [OF _ assms(1) [unfolded int_readable_def] assms(2)]) simp
  then obtain d t where "int_digits \<bar>n\<bar> @ r = d # t" "is_digit d"
    using scan_unsigned_digit by blast
  from scan_literal_number [OF this u] show ?thesis
    by (cases "n < 0") (simp_all add: int_str_def)
qed

lemma scan_float:
  assumes "finite_float f" "delimited r"
  shows "scan_literal (float_text f @ r) = Some (PFloat f, r)"
proof -
  from assms(1) obtain x where f: "f = Fin x" and x: "round_double (repr_value x) = Fin x"
    by (auto simp: finite_float_def repr_round_trip split: pyfloat.splits)
  show ?thesis
  proof (cases "x = 0")
    case True
    have "list_all is_digit ''0''" "digits_val ''00'' = 0" by code_simp+
    then have "scan_unsigned (''0.0'' @ r) = Some (\<lambda>sg. (PFloat (Fin 0), r))"
      using scan_unsigned_ip [of "''0''" "CHR ''.'' # ''0'' @ r"] scan_frac_digits [of "''0''" r] assms(2)
      by (simp add: delimited_cases round_double_def)
    moreover have "is_digit CHR ''0''" by code_simp
    ultimately show ?thesis
      using scan_literal_number(1) [of "''0.0'' @ r" "CHR ''0''"] True f by (simp add: float_text_def)
  next
    case False
    obtain c k where ck: "repr_digits \<bar>x\<bar> = (c, k)" by fastforce
    obtain c' k' where ck': "strip_zeros c k = (c', k')" by fastforce
    have "c \<noteq> 0"
      using x False by (auto simp: repr_value_def ck round_double_def)
    then have c': "0 < c'" and val: "repr_value x = sgn x * (of_int c' * 10 powi k')"
      using strip_zeros_value [OF ck'] repr_digits_bounds(2) [OF _ ck] False by (auto simp: repr_value_def ck)
    obtain g where g: "scan_unsigned (layout_digits (int_digits c') (int (length (int_digits c')) + k') @ r) = Some g"
        "\<forall>sg. g sg = (PFloat (round_double (of_int (sg * c') * 10 powi k')), r)"
      using scan_layout [OF c' assms(2), of "int (length (int_digits c')) + k'"] by auto
    from scan_unsigned_digit [OF g(1)] obtain d t where
      dt: "layout_digits (int_digits c') (int (length (int_digits c')) + k') @ r = d # t" "is_digit d" by blast
    have "float_text f = (if x < 0 then ''-'' else []) @
        layout_digits (int_digits c') (int (length (int_digits c')) + k')"
      by (simp add: f False float_text_def ck ck' Let_def)
    with scan_literal_number [OF dt g(1)] g(2) val x False show ?thesis
      by (cases "0 < x") (simp_all add: f sgn_if)
  qed
qed

section \<open>Values\<close>

function json_readable :: "pyval \<Rightarrow> bool" where
  \<comment> \<open>finite floats, integers within the limit, no key repeats, and no tuples (which are read back as lists)\<close>
  "json_readable PNone = True"
| "json_readable (PBool b) = True"
| "json_readable (PStr s) = True"
| "json_readable (PInt n) = int_readable n"
| "json_readable (PFloat f) = finite_float f"
| "json_readable (PList xs) = list_all json_readable xs"
| "json_readable (PTuple xs) = False"
| "json_readable (PDict d) = (distinct (List.map fst d) \<and> list_all (\<lambda>(k, v). json_readable v) d)"
  by pat_completeness auto
termination
  by (relation "measure size") (auto dest: size_list_mem size_dict_mem)

function sort_keys :: "pyval \<Rightarrow> pyval" where
  \<comment> \<open>the value with every object in key order\<close>
  "sort_keys (PList xs) = PList (List.map sort_keys xs)"
| "sort_keys (PTuple xs) = PTuple (List.map sort_keys xs)"
| "sort_keys (PDict d) = PDict (List.map (\<lambda>(k, v). (k, sort_keys v)) (sort_key fst d))"
| "sort_keys PNone = PNone"
| "sort_keys (PBool b) = PBool b"
| "sort_keys (PInt n) = PInt n"
| "sort_keys (PFloat f) = PFloat f"
| "sort_keys (PStr s) = PStr s"
  by pat_completeness auto
termination
  by (relation "measure size") (auto dest: size_list_mem size_dict_mem)

definition value_start :: "char \<Rightarrow> bool" where
  "value_start c \<longleftrightarrow> \<not> is_ws c \<and> c \<noteq> CHR '']'' \<and> c \<noteq> CHR ''}''"

lemma scan_literal_start:
  assumes "scan_literal s = Some p"
  obtains c t where "s = c # t" "value_start c" "c \<noteq> quote" "c \<noteq> CHR ''[''" "c \<noteq> CHR ''{''"
proof (cases s)
  case Nil
  with assms show ?thesis by (simp add: scan_literal_def scan_unsigned_def)
next
  case (Cons c t)
  have "value_start c \<and> c \<noteq> quote \<and> c \<noteq> CHR ''['' \<and> c \<noteq> CHR ''{''"
  proof (rule ccontr)
    assume "\<not> ?thesis"
    then have "c \<in> {CHR '' '', CHR 0x09, CHR 0x0A, CHR 0x0D, CHR '']'', CHR ''}'', CHR 0x22, CHR ''['', CHR ''{''}"
      by (auto simp: value_start_def is_ws_def quote_def)
    then have "\<not> is_digit c" "c \<notin> {CHR ''n'', CHR ''t'', CHR ''f'', CHR ''-'', CHR ''N'', CHR ''I''}"
      by (auto simp: is_digit_def digit_val_def)
    with assms Cons show False by (simp add: scan_literal_def scan_unsigned_def split: if_splits)
  qed
  with Cons that show ?thesis by blast
qed

lemma scan_value_literal:
  assumes "scan_literal s = Some p"
  shows "scan_value s = Some p"
  using assms by (rule scan_literal_start) (use assms in \<open>simp add: scan_value.simps\<close>)

lemma skip_ws_start: "value_start c \<Longrightarrow> skip_ws (c # s) = c # s"
  by (simp add: skip_ws_def value_start_def)

definition reads_as :: "string \<Rightarrow> pyval \<Rightarrow> bool" where
  \<comment> \<open>the text is read as the value wherever it stands\<close>
  "reads_as s v \<longleftrightarrow>
     (\<exists>c t. s = c # t \<and> value_start c) \<and>
     (\<forall>r. delimited r \<longrightarrow> scan_value (s @ r) = Some (v, r))"

lemma reads_as_literal:
  assumes "\<And>r. delimited r \<Longrightarrow> scan_literal (s @ r) = Some (v, r)"
  shows "reads_as s v"
proof -
  have "delimited []" by (simp add: delimited_def)
  with assms have "scan_literal (s @ []) = Some (v, [])" by blast
  then obtain c t where "s = c # t" "value_start c"
    by (rule scan_literal_start) auto
  with assms scan_value_literal show ?thesis by (auto simp: reads_as_def)
qed

lemma reads_as_skip: "reads_as s v \<Longrightarrow> skip_ws (s @ r) = s @ r"
  by (auto simp: reads_as_def skip_ws_start)

lemma reads_as_scan: "reads_as s v \<Longrightarrow> delimited r \<Longrightarrow> scan_value (skip_ws (s @ r)) = Some (v, r)"
  by (simp add: reads_as_skip) (simp add: reads_as_def)

lemma delimited_marks [simp]: "delimited (CHR '','' # r)" "delimited (CHR '']'' # r)" "delimited (CHR ''}'' # r)"
  by (simp_all add: delimited_def)

lemma skip_ws_marks [simp]:
  "skip_ws (CHR '','' # r) = CHR '','' # r" "skip_ws (CHR '']'' # r) = CHR '']'' # r"
  "skip_ws (CHR ''}'' # r) = CHR ''}'' # r" "skip_ws (CHR '':'' # r) = CHR '':'' # r"
  "skip_ws (quote # r) = quote # r"
  by (simp_all add: skip_ws_def is_ws_def quote_def)

lemma scan_elements_join:
  assumes "list_all2 reads_as ss vs" "ss \<noteq> []"
  shows "scan_elements (join_with '','' ss @ CHR '']'' # r) = Some (vs, r)"
  using assms
proof (induction ss arbitrary: vs rule: induct_list012)
  case (2 s)
  then show ?case
    by (auto simp: list_all2_Cons1 reads_as_def scan_elements.simps)
next
  case (3 s s' ss)
  then obtain v vs' where vs: "vs = v # vs'" "reads_as s v" "list_all2 reads_as (s' # ss) vs'"
    by (auto simp: list_all2_Cons1)
  then have "skip_ws (join_with '','' (s' # ss) @ CHR '']'' # r) = join_with '','' (s' # ss) @ CHR '']'' # r"
    by (cases ss) (auto simp: list_all2_Cons1 reads_as_def skip_ws_start)
  with 3 vs show ?case
    by (simp add: scan_elements.simps [of "s @ _"] reads_as_def)
qed simp

definition member_text :: "string \<times> string \<Rightarrow> string" where
  "member_text m = json_string (fst m) @ '':'' @ snd m"

lemma scan_members_join:
  assumes "list_all2 (\<lambda>(k, s) (k', v). k = k' \<and> reads_as s v) ms kvs" "ms \<noteq> []"
  shows "scan_members (join_with '','' (List.map member_text ms) @ CHR ''}'' # r) = Some (kvs, r)"
  using assms
proof (induction ms arbitrary: kvs rule: induct_list012)
  case (2 m)
  then show ?case
    by (cases m) (auto simp: list_all2_Cons1 scan_members.simps member_text_def json_string_def
        scan_json_string reads_as_scan)
next
  case (3 m m' ms)
  then obtain k s v kvs' where m: "m = (k, s)" "kvs = (k, v) # kvs'" "reads_as s v"
    "list_all2 (\<lambda>(k, s) (k', v). k = k' \<and> reads_as s v) (m' # ms) kvs'"
    by (cases m) (auto simp: list_all2_Cons1)
  define t where "t = join_with '','' (List.map member_text (m' # ms)) @ CHR ''}'' # r"
  have skip: "skip_ws t = t"
    unfolding t_def by (cases ms) (simp_all add: member_text_def json_string_def)
  have "scan_members t = Some (kvs', r)"
    unfolding t_def by (rule "3.IH"(2) [OF m(4)]) simp
  moreover have "join_with '','' (List.map member_text (m # m' # ms)) @ CHR ''}'' # r =
      quote # (concat (List.map json_escape k) @ quote # CHR '':'' # s @ CHR '','' # t)"
    by (simp add: t_def m(1) member_text_def json_string_def)
  ultimately show ?case
    by (simp add: scan_members.simps [of "quote # _"] scan_json_string reads_as_scan [OF m(3)] skip m(2))
qed simp

lemma fold_update_distinct:
  "distinct (List.map fst (acc @ kvs)) \<Longrightarrow> fold (\<lambda>(k, v). AList.update k v) kvs acc = acc @ kvs"
proof (induction kvs arbitrary: acc)
  case (Cons kv kvs)
  obtain k v where kv: "kv = (k, v)" by (cases kv)
  with Cons.prems have "k \<notin> fst ` set acc" by auto
  then have "AList.update k v acc = acc @ [(k, v)]"
    by (induction acc) auto
  with Cons kv show ?case by simp
qed simp

lemma reads_as_string: "reads_as (json_string s) (PStr s)"
  by (auto simp: reads_as_def json_string_def value_start_def is_ws_def quote_def [symmetric]
      scan_value.simps scan_json_string) (simp_all add: quote_def)

lemma reads_as_list:
  assumes "list_all2 reads_as ss vs"
  shows "reads_as (''['' @ join_with '','' ss @ '']'') (PList vs)"
proof (cases ss)
  case Nil
  with assms show ?thesis
    by (simp add: reads_as_def scan_value.simps value_start_def is_ws_def quote_def)
next
  case (Cons s ss')
  with assms obtain c t where "join_with '','' ss = c # t" "value_start c"
    by (cases ss') (auto simp: list_all2_Cons1 reads_as_def)
  with Cons assms scan_elements_join [OF assms] show ?thesis
    by (simp add: reads_as_def scan_value.simps [of "CHR ''['' # _"] skip_ws_start)
       (auto simp: value_start_def is_ws_def quote_def)
qed

lemma reads_as_dict:
  assumes "list_all2 (\<lambda>(k, s) (k', v). k = k' \<and> reads_as s v) ms kvs" "distinct (List.map fst kvs)"
  shows "reads_as (''{'' @ join_with '','' (List.map member_text ms) @ ''}'') (PDict kvs)"
proof (cases ms)
  case Nil
  with assms show ?thesis
    by (simp add: reads_as_def scan_value.simps value_start_def is_ws_def quote_def)
next
  case (Cons m ms')
  then obtain t where t: "join_with '','' (List.map member_text ms) = quote # t"
    by (cases ms') (auto simp: member_text_def json_string_def)
  have "scan_members (join_with '','' (List.map member_text ms) @ CHR ''}'' # r) = Some (kvs, r)" for r
    by (rule scan_members_join [OF assms(1)]) (simp add: Cons)
  then show ?thesis
    using fold_update_distinct [of "[]" kvs] assms(2)
    by (simp add: reads_as_def scan_value.simps [of "CHR ''{'' # _"] t)
       (auto simp: value_start_def is_ws_def quote_def)
qed

lemma json_text_reads: "json_readable v \<Longrightarrow> reads_as (json_text v) (sort_keys v)"
proof (induction v)
  case (PList xs)
  then have "list_all2 reads_as (List.map json_text xs) (List.map sort_keys xs)"
    by (simp add: list_all2_map1 list_all2_map2 list_all_iff list_all2_same)
  then show ?case using reads_as_list by simp
next
  case (PDict d)
  let ?d = "sort_key fst d"
  let ?ms = "List.map (\<lambda>(k, v). (k, json_text v)) ?d" and ?kvs = "List.map (\<lambda>(k, v). (k, sort_keys v)) ?d"
  have "\<forall>(k, v) \<in> set ?d. reads_as (json_text v) (sort_keys v)"
    using PDict by (auto simp: list_all_iff)
  then have "list_all2 (\<lambda>(k, s) (k', v). k = k' \<and> reads_as s v) ?ms ?kvs"
    by (auto simp: list_all2_map1 list_all2_map2 list_all2_same)
  moreover have "List.map fst ?kvs = List.map fst ?d" by (simp add: split_def)
  then have "distinct (List.map fst ?kvs)"
    using PDict.prems by (simp only:) (simp add: distinct_map)
  ultimately have "reads_as (''{'' @ join_with '','' (List.map member_text ?ms) @ ''}'') (PDict ?kvs)"
    by (rule reads_as_dict)
  moreover have "List.map member_text ?ms = List.map (\<lambda>(k, v). json_string k @ '':'' @ json_text v) ?d"
    by (simp add: member_text_def split_def)
  ultimately show ?case
    by (simp only: json_text.simps sort_keys.simps)
qed (simp_all add: reads_as_string reads_as_literal scan_int scan_float,
     simp_all add: reads_as_literal scan_literal_def)

lemma json_loads_text: "json_readable v \<Longrightarrow> json_loads (json_text v) = Some (sort_keys v)"
  using reads_as_scan [OF json_text_reads, of v "[]"]
  by (simp add: json_loads_def delimited_def skip_ws_def)

end
