(* ===== verification/TokenRoundTrip.thy ===== *)
theory TokenRoundTrip
  imports Token JsonRoundTrip Samples
begin

text \<open>
  Signing and parsing are inverse to each other, through the bytes: the canonical JSON of a token
  is printable, its segments have no dot, \<open>json.loads\<close> reads the payload back and the models
  accept it. What a verifier reads is \<open>wire_form\<close> of the claims, whose pinned parameters come in
  key order. So a token an issuer returned is accepted by every verifier that trusts its key while
  its lifetime lasts, and a token attenuated from it by the named delegate is accepted too.
\<close>


section \<open>The canonical text is printable\<close>

definition printable :: "string \<Rightarrow> bool" where
  "printable s \<longleftrightarrow> list_all (\<lambda>c. 32 \<le> (of_char c :: nat) \<and> of_char c < (127 :: nat)) s"

lemma printable_simps [simp]:
  "printable []" "printable (s @ t) \<longleftrightarrow> printable s \<and> printable t"
  "printable (c # s) \<longleftrightarrow> 32 \<le> (of_char c :: nat) \<and> of_char c < (127 :: nat) \<and> printable s"
  by (auto simp: printable_def)

lemma printable_code: "32 \<le> (of_char c :: int) \<and> of_char c \<le> (126 :: int) \<Longrightarrow> printable [c]"
proof -
  have "(of_char c :: int) = int (of_char c)" by (simp add: of_char_def)
  then show "32 \<le> (of_char c :: int) \<and> of_char c \<le> (126 :: int) \<Longrightarrow> printable [c]"
    by (simp add: printable_def)
qed

lemma printable_digit: "is_digit c \<Longrightarrow> printable [c]"
  by (rule printable_code) (auto simp: is_digit_def digit_val_def)

lemma printable_digits: "list_all is_digit ds \<Longrightarrow> printable ds"
  using printable_digit by (induction ds) (auto simp del: printable_simps(3) simp: printable_def)

lemma printable_escape: "printable (json_escape c)"
proof -
  have hex: "printable [hex_digit n]" if "0 \<le> n" "n < 16" for n
    using that by (intro printable_code) (auto simp: hex_digit_def)
  have "printable [hex_digit (of_char c div 16)]" "printable [hex_digit (of_char c mod 16)]"
    by (rule hex; use char_code_range [of c] in linarith)+
  moreover have "32 \<le> (of_char c :: int) \<and> of_char c \<le> (126 :: int) \<Longrightarrow> printable [c]"
    by (rule printable_code)
  ultimately show ?thesis
    by (auto simp: json_escape_def Let_def quote_def backslash_def)
qed

lemma printable_concat: "(\<And>s. s \<in> set ss \<Longrightarrow> printable s) \<Longrightarrow> printable (concat ss)"
  by (induction ss) auto

lemma printable_join: "(\<And>s. s \<in> set ss \<Longrightarrow> printable s) \<Longrightarrow> printable (join_with '','' ss)"
  by (induction ss rule: induct_list012) auto

lemma printable_string: "printable (json_string s)"
  by (auto simp: json_string_def quote_def intro!: printable_concat printable_escape)

lemma printable_int_str: "printable (int_str n)"
  using int_digits_facts [of n] int_digits_facts [of "- n"]
  by (auto simp: int_str_def intro: printable_digits)

lemma printable_take: "printable s \<Longrightarrow> printable (take n s)" "printable s \<Longrightarrow> printable (drop n s)"
  by (auto simp: printable_def list_all_iff dest: in_set_takeD in_set_dropD)

lemma printable_layout: "printable ds \<Longrightarrow> printable (layout_digits ds decpt)"
  using int_digits_facts [of "\<bar>decpt - 1\<bar>"] printable_digits [OF digits_val_zeros(2)]
  by (auto simp: layout_digits_def Let_def printable_take intro: printable_digits)

lemma printable_float: "printable (float_text (Fin x))"
proof (cases "x = 0")
  case False
  obtain c k c' k' where ck: "repr_digits \<bar>x\<bar> = (c, k)" "strip_zeros c k = (c', k')" by fastforce
  have "0 \<le> c" using repr_digits_bounds(2) [OF _ ck(1)] False by simp
  then have "0 \<le> of_int c' * (10 :: rat) powi k'"
    using strip_zeros_value [OF ck(2)] by simp
  moreover have "0 < (10 :: rat) powi k'" by (rule zero_less_power_int) simp
  ultimately have "0 \<le> c'" by (simp add: zero_le_mult_iff)
  then have "printable (int_digits c')"
    using int_digits_facts [of c'] printable_digits by blast
  with False ck show ?thesis by (simp add: float_text_def Let_def printable_layout)
qed (simp add: float_text_def)

lemma printable_json: "finite_json v \<Longrightarrow> printable (json_text v)"
proof (induction v)
  case (PList xs)
  then show ?case by (auto simp: list_all_iff intro!: printable_join)
next
  case (PTuple xs)
  then show ?case by (auto simp: list_all_iff intro!: printable_join)
next
  case (PDict d)
  then have "printable (join_with '','' (List.map (\<lambda>(k, v). json_string k @ '':'' @ json_text v) (sort_key fst d)))"
    by (intro printable_join) (fastforce simp: list_all_iff printable_string)
  then show ?case by simp
next
  case (PFloat f)
  then show ?case by (cases f) (simp_all add: printable_float)
qed (simp_all add: printable_string printable_int_str)

lemma readable_finite: "json_readable v \<Longrightarrow> finite_json v"
proof (induction v)
  case (PFloat f)
  then show ?case by (cases f) (simp_all add: finite_float_def)
qed (auto simp: list_all_iff)

section \<open>Reading a signed object\<close>

lemma map_of_sort_key: "distinct (List.map fst d) \<Longrightarrow> map_of (sort_key fst d) = map_of d"
  by (rule iffD2 [OF map_of_inject_set]) (simp_all add: distinct_map)

lemma map_of_sort_keys:
  assumes "distinct (List.map fst d)" "sort_keys (PDict d) = PDict e"
  shows "map_of e k = map_option sort_keys (map_of d k)" and "set (dict_keys e) = set (dict_keys d)"
proof -
  have "e = List.map (\<lambda>(k, v). (k, sort_keys v)) (sort_key fst d)" using assms(2) by simp
  then show "map_of e k = map_option sort_keys (map_of d k)" and "set (dict_keys e) = set (dict_keys d)"
    using assms(1) by (simp_all add: map_of_map map_of_sort_key dict_keys_def) force
qed

lemma sort_keys_scalar [simp]: "sort_keys (opt_value PInt n) = opt_value PInt n"
  "sort_keys (opt_value PFloat f) = opt_value PFloat f" "sort_keys (opt_value PStr s) = opt_value PStr s"
  by (simp_all add: opt_value_def split: option.split)

definition sort_pins :: "params \<Rightarrow> params" where
  "sort_pins d = List.map (\<lambda>(k, v). (k, sort_keys v)) (sort_key fst d)"

definition wire_form :: "capability_claims \<Rightarrow> capability_claims" where
  \<comment> \<open>the claims a verifier reads: the pinned parameters come in key order\<close>
  "wire_form c = c\<lparr>constraints := (constraints c)\<lparr>allowed_params := sort_pins (allowed_params (constraints c))\<rparr>\<rparr>"

lemma validate_constraints_alike:
  assumes "map_of d = map_of e"
  shows "validate_constraints L (PDict d) = validate_constraints L (PDict e)"
proof -
  have "set (dict_keys d) = set (dict_keys e)" by (simp add: set_dict_keys assms)
  then have "forbid_extra ns d = forbid_extra ns e" for ns by (simp add: forbid_extra_def list_all_iff)
  then show ?thesis by (simp add: validate_constraints_def optional_field_def assms)
qed

lemma validate_claims_alike:
  assumes "\<And>k. k \<noteq> ''constraints'' \<Longrightarrow> map_of d k = map_of e k"
    and "map_of d ''constraints'' = Some c" "map_of e ''constraints'' = Some c'"
    and "validate_constraints L c = validate_constraints L c'"
  shows "validate_claims L (PDict d) = validate_claims L (PDict e)"
proof -
  have "map_of d k = None \<longleftrightarrow> map_of e k = None" for k
    using assms(1-3) by (cases "k = ''constraints''") auto
  then have "dom (map_of d) = dom (map_of e)" by (auto simp: dom_def)
  then have "set (dict_keys d) = set (dict_keys e)" by (simp add: set_dict_keys)
  then have "forbid_extra ns d = forbid_extra ns e" for ns by (simp add: forbid_extra_def list_all_iff)
  then show ?thesis
    by (simp add: validate_claims_def required_field_def optional_field_def assms)
qed

lemma sort_keys_constraints:
  assumes "sort_keys (constraints_wire_dict c) = PDict e"
  shows "validate_constraints L (PDict e) =
    validate_constraints L (constraints_wire_dict (c\<lparr>allowed_params := sort_pins (allowed_params c)\<rparr>))"
proof -
  let ?c = "c\<lparr>allowed_params := sort_pins (allowed_params c)\<rparr>"
  obtain w w' where w: "constraints_wire_dict c = PDict w" "constraints_wire_dict ?c = PDict w'"
    by (simp add: constraints_wire_dict_def)
  have "distinct (List.map fst w)"
    using w(1) by (cases "shared_budget c") (auto simp: constraints_wire_dict_def opt_entry_def)
  then have "map_of e k = map_option sort_keys (map_of w k)" for k
    using assms w(1) by (intro map_of_sort_keys) simp_all
  moreover have "map_option sort_keys (map_of w k) = map_of w' k" for k
    using w by (cases "shared_budget c") (auto simp: constraints_wire_dict_def opt_entry_def sort_pins_def)
  ultimately show ?thesis
    unfolding w(2) by (intro validate_constraints_alike) auto
qed

lemma sort_keys_claims:
  assumes "sort_keys (claims_wire_dict c) = PDict e"
  shows "validate_claims L (PDict e) = validate_claims L (claims_wire_dict (wire_form c))"
    and "map_of e ''jti'' \<noteq> None"
proof -
  obtain w w' where w: "claims_wire_dict c = PDict w" "claims_wire_dict (wire_form c) = PDict w'"
    by (simp add: claims_wire_dict_def)
  have "distinct (List.map fst w)"
    using w(1) by (cases "dlg c"; cases "prf_token c") (auto simp: claims_wire_dict_def opt_entry_def)
  then have e: "map_of e k = map_option sort_keys (map_of w k)" for k
    using assms w(1) by (intro map_of_sort_keys) simp_all
  have strs: "List.map sort_keys (List.map PStr ss) = List.map PStr ss" for ss by simp
  have same: "map_option sort_keys (map_of w k) = map_of w' k" if "k \<noteq> ''constraints''" for k
    using w that strs
    by (cases "dlg c"; cases "prf_token c") (auto simp: claims_wire_dict_def opt_entry_def wire_form_def)
  obtain e2 where e2: "sort_keys (constraints_wire_dict (constraints c)) = PDict e2"
    by (simp add: constraints_wire_dict_def)
  have "map_of w ''constraints'' = Some (constraints_wire_dict (constraints c))" "map_of w ''jti'' \<noteq> None"
    using w(1) by (auto simp: claims_wire_dict_def)
  then have con: "map_of e ''constraints'' = Some (PDict e2)" and "map_of e ''jti'' \<noteq> None"
    by (simp_all add: e e2)
  then show "map_of e ''jti'' \<noteq> None" by simp
  have con': "map_of w' ''constraints'' = Some (constraints_wire_dict (constraints (wire_form c)))"
    using w(2) by (auto simp: claims_wire_dict_def)
  have v: "validate_constraints L (PDict e2) =
      validate_constraints L (constraints_wire_dict (constraints (wire_form c)))"
    using sort_keys_constraints [OF e2] by (simp add: wire_form_def)
  show "validate_claims L (PDict e) = validate_claims L (claims_wire_dict (wire_form c))"
    unfolding w(2) by (rule validate_claims_alike [OF _ con con' v]) (simp add: e same)
qed

lemma json_params_valid_sort [simp]: "json_params_valid (sort_keys v) = json_params_valid v"
proof (induction v)
  case (PDict d)
  then have "(\<forall>(k, v) \<in> set d. json_params_valid (sort_keys v)) \<longleftrightarrow> (\<forall>(k, v) \<in> set d. json_params_valid v)"
    by fastforce
  then show ?case by (simp add: list_all_iff split_def)
qed (auto simp: list_all_iff)

lemma dict_get_sort_pins: "distinct (List.map fst d) \<Longrightarrow> dict_get (sort_pins d) k = sort_keys (dict_get d k)"
  using map_of_sort_keys(1) [of d "sort_pins d" k]
  by (simp add: sort_pins_def dict_get_def split: option.split)

lemma sort_keys_views [simp]:
  "py_eq (sort_keys v) (PStr b) = py_eq v (PStr b)" "safe_minor (sort_keys v) = safe_minor v"
  "currency_code (sort_keys v) = currency_code v"
  by (cases v; simp add: safe_minor_def currency_code_def)+

definition limits_readable :: "constraints \<Rightarrow> bool" where
  \<comment> \<open>what the types of the constraints leave open: the amount limit is a finite binary64
    number, and so are the floats among the pinned parameters, which are dictionaries\<close>
  "limits_readable l \<longleftrightarrow>
     pred_option finite_float (max_amount_usd l) \<and> json_readable (PDict (allowed_params l))"

lemma wire_form_ok:
  assumes "claims_ok c" "constraints_ok (constraints c)" "limits_readable (constraints c)"
  shows "claims_ok (wire_form c)" "constraints_ok (constraints (wire_form c))"
proof -
  show "claims_ok (wire_form c)" using assms(1) by (simp add: wire_form_def claims_ok_def)
  have "distinct (List.map fst (allowed_params (constraints c)))" using assms(3) by (simp add: limits_readable_def)
  moreover have "json_params_valid (PDict (sort_pins (allowed_params (constraints c)))) =
      json_params_valid (PDict (allowed_params (constraints c)))"
    using json_params_valid_sort [of "PDict (allowed_params (constraints c))"]
    by (simp only: sort_keys.simps sort_pins_def)
  ultimately show "constraints_ok (constraints (wire_form c))"
    using assms(2)
    by (simp add: constraints_ok_def wire_form_def budget_pins_def dict_get_sort_pins
        del: json_params_valid.simps split: option.splits)
qed

lemma claims_wire_readable:
  assumes "claims_ok c" "constraints_ok (constraints c)" "limits_readable (constraints c)"
  shows "json_readable (claims_wire_dict c)"
proof -
  have "json_readable (constraints_wire_dict (constraints c))"
    using assms(2,3)
    by (cases "max_calls (constraints c)"; cases "rate_limit_per_min (constraints c)";
        cases "max_amount_usd (constraints c)"; cases "shared_budget (constraints c)")
       (simp_all add: constraints_wire_dict_def opt_value_def opt_entry_def limits_readable_def constraints_ok_def
         count_limit_ok_def int_readable_safe)
  moreover have "int_readable (iat c)" "int_readable (exp_at c)"
    using assms(1) by (auto simp: claims_ok_def timestamp_ok_def intro!: int_readable_safe)
  ultimately show ?thesis
    using assms(1)
    by (cases "dlg c"; cases "prf_token c")
       (simp_all add: claims_wire_dict_def opt_entry_def claims_ok_def list_all_iff)
qed

section \<open>A signed token is parsed back\<close>

lemma segment_round_trip:
  assumes "text_ok L" "json_readable v"
  shows "canonical_json v = Inr (json_text v)"
    and "segment_json L (b64url_encode (json_text v)) =
      (if segment_overflows L (b64url_encode (json_text v)) then Inl recursion_error else Inr (sort_keys v))"
proof -
  have "printable (json_text v)"
    by (rule printable_json [OF readable_finite [OF assms(2)]])
  then have "text_decode L (json_text v) = Some (json_text v)"
    using assms(1) by (simp add: text_ok_def printable_def)
  then show "segment_json L (b64url_encode (json_text v)) =
      (if segment_overflows L (b64url_encode (json_text v)) then Inl recursion_error else Inr (sort_keys v))"
    by (simp add: segment_json_def segment_overflows_def read_json_def json_loads_text assms(2))
qed (simp add: canonical_json_def readable_finite assms(2))

lemma b64url_no_dot: "CHR ''.'' \<notin> set (b64url_encode bs)"
  using b64url_encode_text by blast

lemma split_token:
  "split_dots (b64url_encode a @ ''.'' @ b64url_encode b @ ''.'' @ b64url_encode c) =
     [b64url_encode a, b64url_encode b, b64url_encode c]"
  by (simp add: split_dots_append split_dots_no_dot b64url_no_dot)

definition signing_input_of :: "key_pair \<Rightarrow> capability_claims \<Rightarrow> string" where
  "signing_input_of kp c =
     b64url_encode (json_text (token_header kp)) @ ''.'' @ b64url_encode (json_text (claims_wire_dict c))"

definition token_of :: "ext_lib \<Rightarrow> key_pair \<Rightarrow> capability_claims \<Rightarrow> string" where
  "token_of L kp c = signing_input_of kp c @ ''.'' @ b64url_encode (sign L kp (signing_input_of kp c))"

lemma header_readable: "json_readable (token_header kp)"
  by (simp add: token_header_def)

lemma header_sorted:
  "header_ok (sort_keys (token_header kp))"
  "length (public_key kp) = 32 \<Longrightarrow> kid_bytes (sort_keys (token_header kp)) = Inr (public_key kp)"
proof -
  obtain e where e: "sort_keys (token_header kp) = PDict e" by (simp add: token_header_def)
  have g: "map_of e k = map_option sort_keys (map_of [(''alg'', PStr ALG), (''typ'', PStr TOKEN_TYPE),
      (''kid'', PStr (public_key_id kp))] k)" for k
    using map_of_sort_keys(1) [of "[(''alg'', PStr ALG), (''typ'', PStr TOKEN_TYPE), (''kid'', PStr (public_key_id kp))]" e k] e
    by (simp only: token_header_def) simp
  show "header_ok (sort_keys (token_header kp))"
    by (simp add: e header_ok_def dict_get_def g)
  assume "length (public_key kp) = 32"
  moreover from this have "public_key_id kp \<noteq> []"
    using b64url_encode_inj [of "public_key kp" "[]"] by (auto simp: public_key_id_def)
  ultimately show "kid_bytes (sort_keys (token_header kp)) = Inr (public_key kp)"
    by (simp add: e kid_bytes_def dict_get_def g public_key_id_def)
qed

lemma sign_parse:
  assumes "pydantic_ok L" "text_ok L" "claims_ok c" "constraints_ok (constraints c)" "limits_readable (constraints c)"
  shows "sign_claims L kp c = Inr (token_of L kp c)"
    and "parse L (token_of L kp c) =
      (if overflows L (token_of L kp c) then Inl recursion_error
       else Inr (sort_keys (token_header kp), wire_form c, signing_input_of kp c))"
proof -
  note h = segment_round_trip [OF assms(2) header_readable, of kp]
  note p = segment_round_trip [OF assms(2) claims_wire_readable [OF assms(3-5)]]
  show "sign_claims L kp c = Inr (token_of L kp c)"
    by (simp add: sign_claims_def h(1) p(1) token_of_def signing_input_of_def Let_def)
  obtain e where e: "sort_keys (claims_wire_dict c) = PDict e" by (simp add: claims_wire_dict_def)
  have "validate_claims L (PDict e) = Inr (wire_form c)"
    using sort_keys_claims(1) [OF e] validate_wire_claims [OF assms(1) wire_form_ok [OF assms(3-5)]] by simp
  then have "payload_claims L (PDict e) = Inr (wire_form c)"
    using sort_keys_claims(2) [OF e] by (simp add: payload_claims_def)
  then show "parse L (token_of L kp c) =
      (if overflows L (token_of L kp c) then Inl recursion_error
       else Inr (sort_keys (token_header kp), wire_form c, signing_input_of kp c))"
    using split_token [of "json_text (token_header kp)" "json_text (claims_wire_dict c)"
        "sign L kp (signing_input_of kp c)"] header_sorted(1) [of kp]
    by (simp add: parse_def overflows_def token_of_def signing_input_of_def h(2) p(2) e)
qed

section \<open>An issued token verifies\<close>

lemma signed_claims_ok: "sign_claims L kp c = Inr token \<Longrightarrow> finite_json (claims_wire_dict c)"
  by (auto simp: sign_claims_def canonical_json_def py_inv split: if_splits)

lemma signed_authentic:
  assumes "ed25519_ok L" "pydantic_ok L" "text_ok L"
    and "claims_ok c" "constraints_ok (constraints c)" "limits_readable (constraints c)"
    and "trusts pk R holder (iss c) (ed_public L sk)" "\<not> overflows L (token_of L (key_pair_of L sk) c)"
  shows "authentic L pk R holder (token_of L (key_pair_of L sk) c) (wire_form c)"
proof -
  let ?kp = "key_pair_of L sk"
  have key: "public_key ?kp = ed_public L sk" "private_key ?kp = sk"
    by (simp_all add: key_pair_of_def)
  with assms(1) have "length (public_key ?kp) = 32" by (simp add: ed25519_ok_def)
  then have "kid_bytes (sort_keys (token_header ?kp)) = Inr (ed_public L sk)"
    using header_sorted(2) key by simp
  moreover have "iss (wire_form c) = iss c" by (simp add: wire_form_def)
  ultimately show ?thesis
    using sign_parse(2) [OF assms(2-6), of ?kp] assms(1,7,8) key
    unfolding authentic_def
    by (intro exI [of _ "sort_keys (token_header ?kp)"] exI [of _ "signing_input_of ?kp c"]
          exI [of _ "sign L ?kp (signing_input_of ?kp c)"] exI [of _ "ed_public L sk"])
       (simp add: token_of_def sign_def ed25519_ok_def)
qed

lemma wire_form_simps [simp]:
  "iss (wire_form c) = iss c" "sub (wire_form c) = sub c" "capabilities (wire_form c) = capabilities c"
  "iat (wire_form c) = iat c" "exp_at (wire_form c) = exp_at c" "jti (wire_form c) = jti c"
  "dlg (wire_form c) = dlg c" "prf_token (wire_form c) = prf_token c"
  by (simp_all add: wire_form_def)

definition issued_claims ::
  "string \<Rightarrow> string \<Rightarrow> string list \<Rightarrow> constraints \<Rightarrow> int \<Rightarrow> string option \<Rightarrow> 'x world_scheme \<Rightarrow> capability_claims" where
  \<comment> \<open>the claims \<open>issue\<close> signs in the world \<open>w\<close>\<close>
  "issued_claims issuer subject caps limits ttl delegate w =
     \<lparr>iss = issuer, sub = subject, capabilities = caps, constraints = limits,
      iat = py_int (clock w (ticks w)), exp_at = py_int (clock w (ticks w)) + ttl,
      jti = b64url_encode (entropy w (draws w)), dlg = delegate, prf_token = None\<rparr>"

lemma issued_claims_simps [simp]:
  "iss (issued_claims i s caps l ttl d w) = i" "sub (issued_claims i s caps l ttl d w) = s"
  "capabilities (issued_claims i s caps l ttl d w) = caps" "constraints (issued_claims i s caps l ttl d w) = l"
  "iat (issued_claims i s caps l ttl d w) = py_int (clock w (ticks w))"
  "exp_at (issued_claims i s caps l ttl d w) = py_int (clock w (ticks w)) + ttl"
  "jti (issued_claims i s caps l ttl d w) = b64url_encode (entropy w (draws w))"
  "dlg (issued_claims i s caps l ttl d w) = d" "prf_token (issued_claims i s caps l ttl d w) = None"
  by (simp_all add: issued_claims_def)

lemma issue_token_iff:
  assumes "pydantic_ok L" "text_ok L"
    and "constraints_ok (resolve_constraints limits)" "limits_readable (resolve_constraints limits)"
  shows "issue_token L kp issuer subject caps limits (PInt ttl) delegate w = (Inr token, w') \<longleftrightarrow>
     1 \<le> ttl \<and> ttl \<le> MAX_TTL_SECONDS \<and>
     claims_ok (issued_claims issuer subject caps (resolve_constraints limits) ttl delegate w) \<and>
     token = token_of L kp (issued_claims issuer subject caps (resolve_constraints limits) ttl delegate w) \<and>
     w' = w\<lparr>ticks := Suc (ticks w), draws := Suc (draws w)\<rparr>"
  using sign_parse(1) [OF assms(1,2), of "issued_claims issuer subject caps (resolve_constraints limits) ttl delegate w" kp]
    assms(3,4)
  by (auto simp: issue_token_def require_ttl_def generate_jti_def py_inv Let_def issued_claims_def)

section \<open>Attenuation\<close>

lemma json_value_equal_sort: "json_readable v \<Longrightarrow> json_value_equal (sort_keys v) u = json_value_equal v u"
proof (induction v arbitrary: u)
  case (PList xs)
  then have "list_all2 json_value_equal (List.map sort_keys xs) ys = list_all2 json_value_equal xs ys" for ys
    by (auto simp: list_all2_conv_all_nth list_all_length)
  then show ?case by (simp add: json_value_equal_iff)
next
  case (PDict d)
  let ?e = "List.map (\<lambda>(k, v). (k, sort_keys v)) (sort_key fst d)"
  have "dom (map_of ?e) = dom (map_of d)"
    using map_of_sort_keys(1) [of d ?e] PDict.prems by (auto simp: dom_def)
  moreover have "(\<exists>v'. map_of f k = Some v' \<and> json_value_equal (sort_keys v) v') \<longleftrightarrow>
      (\<exists>v'. map_of f k = Some v' \<and> json_value_equal v v')" if "(k, v) \<in> set d" for f k v
    using PDict that by (fastforce simp: list_all_iff)
  moreover have "(\<forall>k v. (k, v) \<in> set ?e \<longrightarrow> P k v) \<longleftrightarrow> (\<forall>k v. (k, v) \<in> set d \<longrightarrow> P k (sort_keys v))" for P
    by force
  ultimately show ?case by (simp add: json_value_equal_iff cong: imp_cong)
qed (auto)

lemma pin_holds_sort:
  assumes "json_readable (PDict d)"
  shows "pin_holds (sort_pins d) pin = pin_holds d pin"
proof -
  have "json_readable v" if "map_of d k = Some v" for k v
    using assms map_of_SomeD [OF that] by (auto simp: list_all_iff)
  then show ?thesis
    using map_of_sort_keys(1) [of d "sort_pins d" "fst pin"] assms
    by (auto simp: sort_pins_def pin_holds_def json_value_equal_sort split: option.splits)
qed

lemma narrower_wire_form:
  assumes "narrower parent child" "limits_readable (constraints child)"
  shows "narrower parent (wire_form child)"
proof -
  have "constraints (wire_form child) =
      (constraints child)\<lparr>allowed_params := sort_pins (allowed_params (constraints child))\<rparr>"
    by (simp add: wire_form_def)
  with assms show ?thesis
    by (simp add: narrower_def constraints_within_def pin_holds_sort limits_readable_def del: json_readable.simps)
qed

definition attenuated_claims ::
  "string \<Rightarrow> capability_claims \<Rightarrow> string list \<Rightarrow> constraints \<Rightarrow> int \<Rightarrow> string \<Rightarrow> 'x world_scheme \<Rightarrow> capability_claims" where
  \<comment> \<open>the claims \<open>attenuate\<close> signs in the world \<open>w\<close>\<close>
  "attenuated_claims issuer parent_claims caps limits ttl parent w =
     (issued_claims issuer (sub parent_claims) caps limits ttl None w)\<lparr>prf_token := Some parent\<rparr>"

lemma attenuated_claims_simps [simp]:
  "iss (attenuated_claims i p caps l ttl t w) = i" "sub (attenuated_claims i p caps l ttl t w) = sub p"
  "capabilities (attenuated_claims i p caps l ttl t w) = caps" "constraints (attenuated_claims i p caps l ttl t w) = l"
  "iat (attenuated_claims i p caps l ttl t w) = py_int (clock w (ticks w))"
  "exp_at (attenuated_claims i p caps l ttl t w) = py_int (clock w (ticks w)) + ttl"
  "jti (attenuated_claims i p caps l ttl t w) = b64url_encode (entropy w (draws w))"
  "dlg (attenuated_claims i p caps l ttl t w) = None" "prf_token (attenuated_claims i p caps l ttl t w) = Some t"
  by (simp_all add: attenuated_claims_def issued_claims_def)

lemma attenuate_token_iff:
  fixes w :: "'x world_scheme" and caps :: "string list" and issuer :: string and ttl :: int
  assumes "pydantic_ok L" "text_ok L"
    and "constraints_ok (resolve_constraints limits)" "limits_readable (resolve_constraints limits)"
    and "parse L parent = Inr (header, p, m)"
  defines "c \<equiv> attenuated_claims issuer p caps (resolve_constraints limits) ttl parent w"
  shows "attenuate_token L kp parent issuer caps limits (PInt ttl) w = (Inr token, w') \<longleftrightarrow>
     1 \<le> ttl \<and> ttl \<le> MAX_TTL_SECONDS \<and> exp_at p - iat p \<le> MAX_TTL_SECONDS \<and>
     iat p \<le> py_int (clock w (ticks w)) \<and> py_int (clock w (ticks w)) \<le> exp_at p \<and>
     claims_ok c \<and> narrower p c \<and> token = token_of L kp c \<and>
     w' = w\<lparr>ticks := Suc (ticks w), draws := Suc (draws w)\<rparr>"
proof -
  have "claims_ok c \<Longrightarrow> assert_attenuated p c = Inr () \<longleftrightarrow> narrower p c"
    using parse_ok [OF assms(5)] by (simp add: assert_attenuated_iff)
  moreover have "claims_ok c \<Longrightarrow> sign_claims L kp c = Inr (token_of L kp c)"
    using sign_parse(1) [OF assms(1,2), of c kp] assms(3,4) by (simp add: c_def)
  moreover have "c = \<lparr>iss = issuer, sub = sub p, capabilities = caps, constraints = resolve_constraints limits,
      iat = py_int (clock w (ticks w)), exp_at = py_int (clock w (ticks w)) + ttl,
      jti = b64url_encode (entropy w (draws w)), dlg = None, prf_token = Some parent\<rparr>"
    by (simp add: c_def attenuated_claims_def issued_claims_def)
  ultimately show ?thesis
    using assms(5)
    by (auto simp: attenuate_token_def require_ttl_def generate_jti_def py_inv Let_def split: if_splits)
qed

lemma issued_verifies:
  fixes w :: "'x world_scheme" and v :: "'y world_scheme"
  assumes lib: "ed25519_ok L" "pydantic_ok L" "text_ok L"
    and issued: "issue_token L (key_pair_of L sk) issuer subject caps limits (PInt ttl) delegate w = (Inr token, w')"
    and shallow: "\<not> overflows L token"
    and limits: "constraints_ok (resolve_constraints limits)" "limits_readable (resolve_constraints limits)"
    and config: "trusts pk R False issuer (ed_public L sk)" "(pk = None) \<noteq> (R = None)"
    and leeway: "0 \<le> leeway" "leeway \<le> MAX_LEEWAY_SECONDS"
    and clocks: "py_int (clock w (ticks w)) - leeway \<le> py_int (clock v (ticks v))"
      "py_int (clock v (ticks v)) \<le> py_int (clock w (ticks w)) + ttl + leeway"
    and store: "not_revoked store (b64url_encode (entropy w (draws w))) (v\<lparr>ticks := Suc (ticks v)\<rparr>) v'"
  shows "verify L pk R store (Some subject) (PInt leeway) token v =
     (if delegate = None then Inr (wire_form (issued_claims issuer subject caps (resolve_constraints limits) ttl delegate w))
      else Inl (swarm DelegationError), v')"
proof -
  let ?c = "issued_claims issuer subject caps (resolve_constraints limits) ttl delegate w"
  from issued have c: "ttl \<le> MAX_TTL_SECONDS" "claims_ok ?c" "token = token_of L (key_pair_of L sk) ?c"
    by (simp_all add: issue_token_iff [OF lib(2,3) limits])
  then have auth: "authentic L pk R False token (wire_form ?c)"
    using signed_authentic [OF lib c(2)] limits config(1) shallow by simp
  then have core: "verify_core L pk R store (PInt leeway) False token v = (Inr (wire_form ?c), v')"
    using c(1) clocks store leeway config(2)
    by (simp add: verify_core_iff leeway_of_def core_accepts_def in_lifetime_def)
  obtain h m where "parse L token = Inr (h, wire_form ?c, m)"
    using authentic_parse [OF auth] by blast
  with core show ?thesis
    using truthy_claims(1) [OF c(2)] by (simp add: verify_def abind_run abind_lift truthy_def)
qed

lemma delegated_verifies:
  fixes w :: "'x world_scheme" and w1 :: "'y world_scheme" and v :: "'z world_scheme"
  assumes lib: "ed25519_ok L" "pydantic_ok L" "text_ok L"
    and parent: "issue_token L (key_pair_of L sk) issuer subject caps limits (PInt ttl) (Some holder) w = (Inr proof_token, w')"
    and child: "attenuate_token L (key_pair_of L sk1) proof_token holder caps1 limits1 (PInt ttl1) w1 = (Inr token, w1')"
    and shallow: "\<not> overflows L token"
    and limits: "constraints_ok (resolve_constraints limits)" "limits_readable (resolve_constraints limits)"
      "constraints_ok (resolve_constraints limits1)" "limits_readable (resolve_constraints limits1)"
    and config: "trusts None (Some R) False issuer (ed_public L sk)" "trusts None (Some R) True holder (ed_public L sk1)"
    and leeway: "0 \<le> leeway" "leeway \<le> MAX_LEEWAY_SECONDS"
    and clocks: "py_int (clock w1 (ticks w1)) - leeway \<le> py_int (clock v (ticks v))"
      "py_int (clock v (ticks v)) \<le> py_int (clock w1 (ticks w1)) + ttl1 + leeway"
      "py_int (clock w (ticks w)) - leeway \<le> py_int (clock v1 (ticks v1))"
      "py_int (clock v1 (ticks v1)) \<le> py_int (clock w (ticks w)) + ttl + leeway"
    and store: "not_revoked store (b64url_encode (entropy w1 (draws w1))) (v\<lparr>ticks := Suc (ticks v)\<rparr>) v1"
      "not_revoked store (b64url_encode (entropy w (draws w))) (v1\<lparr>ticks := Suc (ticks v1)\<rparr>) v2"
  shows "\<exists>claims. verify L None (Some R) store (Some subject) (PInt leeway) token v = (Inr claims, v2) \<and>
     iss claims = holder \<and> sub claims = subject \<and> capabilities claims = caps1 \<and> prf_token claims = Some proof_token"
proof -
  let ?p = "issued_claims issuer subject caps (resolve_constraints limits) ttl (Some holder) w"
  let ?c = "attenuated_claims holder (wire_form ?p) caps1 (resolve_constraints limits1) ttl1 proof_token w1"
  from parent have p: "ttl \<le> MAX_TTL_SECONDS" "claims_ok ?p" "proof_token = token_of L (key_pair_of L sk) ?p"
    by (simp_all add: issue_token_iff [OF lib(2,3) limits(1,2)])
  moreover have "\<exists>q. parse L proof_token = Inr q" using child by (auto simp: attenuate_token_def py_inv)
  ultimately have shallow_proof: "\<not> overflows L proof_token" and proof_token: "parse L proof_token =
      Inr (sort_keys (token_header (key_pair_of L sk)), wire_form ?p, signing_input_of (key_pair_of L sk) ?p)"
    using sign_parse(2) [OF lib(2,3) p(2)] limits(1,2) by (auto split: if_splits)
  have c: "1 \<le> ttl1" "ttl1 \<le> MAX_TTL_SECONDS" "claims_ok ?c" "narrower (wire_form ?p) ?c"
      "token = token_of L (key_pair_of L sk1) ?c"
    using child by (simp_all add: attenuate_token_iff [OF lib(2,3) limits(3,4) proof_token])
  have "authentic L None (Some R) False proof_token (wire_form ?p)"
    using signed_authentic [OF lib p(2)] limits(1,2) config(1) p(3) shallow_proof by simp
  then have "core_accepts L None (Some R) store leeway False proof_token (wire_form ?p) v1 v2"
    using p(1) clocks(3,4) store(2) by (simp add: core_accepts_def in_lifetime_def)
  moreover have "authentic L None (Some R) True token (wire_form ?c)"
    using signed_authentic [OF lib c(3)] limits(3,4) config(2) c(5) shallow by simp
  then have "core_accepts L None (Some R) store leeway True token (wire_form ?c) v v1"
    using c(2) clocks(1,2) store(1) by (simp add: core_accepts_def in_lifetime_def)
  moreover have "narrower (wire_form ?p) (wire_form ?c)"
    using narrower_wire_form [OF c(4)] limits(4) by simp
  ultimately have "accepts L None (Some R) store (Some subject) leeway token (wire_form ?c) v v2"
    unfolding accepts_def by auto
  then have "verify L None (Some R) store (Some subject) (PInt leeway) token v = (Inr (wire_form ?c), v2)"
    using leeway by (simp add: verify_iff leeway_of_def)
  then show ?thesis by auto
qed

section \<open>A sample deployment\<close>

lemma no_constraints_readable [simp]: "limits_readable no_constraints"
  by (simp add: limits_readable_def no_constraints_def)

lemma resolve_none [simp]: "resolve_constraints None = no_constraints"
  by (simp add: resolve_constraints_def)

lemma sample_clock [simp]:
  "py_int (clock (sample_world s) i) = s + int i" "ticks (sample_world s) = 0" "draws (sample_world s) = 0"
  "entropy (sample_world s) 0 = ''r''"
proof -
  have "of_int s + of_nat i = (of_int (s + int i) :: rat)" by simp
  then show "py_int (clock (sample_world s) i) = s + int i"
    by (simp only: sample_world_def world.simps py_int_of_int)
qed (simp_all add: sample_world_def)

abbreviation sample_claims :: "string option \<Rightarrow> capability_claims" where
  "sample_claims d \<equiv> issued_claims ''a'' ''t'' [''read:*''] no_constraints 10 d (sample_world 100)"

lemma sample_claims_ok: "claims_ok (sample_claims None)" "claims_ok (sample_claims (Some ''b''))"
  by (simp_all add: claims_ok_def timestamp_ok_def MAX_SAFE_INTEGER_def)

lemma sample_issued:
  assumes "d = None \<or> d = Some ''b''"
  shows "issue_token sample_lib (key_pair_of sample_lib ''sk'') ''a'' ''t'' [''read:*''] None (PInt 10) d (sample_world 100) =
     (Inr (token_of sample_lib (key_pair_of sample_lib ''sk'') (sample_claims d)), (sample_world 100)\<lparr>ticks := 1, draws := 1\<rparr>)"
  using sample_claims_ok assms
  by (subst issue_token_iff) (auto simp: MAX_TTL_SECONDS_def)

text \<open>A registry that knows the issuer \<open>a\<close> and the delegate \<open>b\<close>.\<close>

definition sample_registry :: key_registry where
  "sample_registry = register_holder ''b'' (sample_public ''hk'') (register ''a'' (sample_public ''sk'') False empty_registry)"

lemma sample_trusts:
  "trusts None (Some sample_registry) False ''a'' (sample_public ''sk'')"
  "trusts None (Some sample_registry) True ''b'' (sample_public ''hk'')"
  by (simp_all add: trusts_def sample_registry_def register_def register_holder_def empty_registry_def keys_for_def
      holder_keys_for_def Let_def)

abbreviation sample_root :: string where
  "sample_root \<equiv> token_of sample_lib (key_pair_of sample_lib ''sk'') (sample_claims (Some ''b''))"

lemma sample_root_parse:
  "parse sample_lib sample_root = Inr (sort_keys (token_header (key_pair_of sample_lib ''sk'')),
     wire_form (sample_claims (Some ''b'')), signing_input_of (key_pair_of sample_lib ''sk'') (sample_claims (Some ''b'')))"
  using sign_parse(2) [OF sample_lib_ok(2,3), of "sample_claims (Some ''b'')"] sample_claims_ok by simp

lemma sample_within: "constraints_within (constraints (wire_form (sample_claims d))) no_constraints"
  by (simp add: constraints_within_def wire_form_def no_constraints_def within_limit_def int_limit_def sort_pins_def)

lemma sample_nonempty: "sample_root \<noteq> []"
  by (simp add: token_of_def signing_input_of_def)

lemma sample_attenuated:
  "\<exists>token. attenuate_token sample_lib (key_pair_of sample_lib ''hk'') sample_root ''b'' [''read:x''] None (PInt 5)
     ((sample_world 102)\<lparr>draws := 1\<rparr>) = (Inr token, (sample_world 102)\<lparr>ticks := 1, draws := 2\<rparr>)"
proof -
  have "b64url_encode ''rr'' \<noteq> b64url_encode ''r''" using b64url_encode_inj by blast
  moreover have "entropy (sample_world s) 1 = ''rr''" for s by (simp add: sample_world_def)
  moreover have "capability_covered ''read:x'' [''read:*'']" by code_simp
  then have "grants [''read:*''] ''read:x''" by (simp only: capability_covered_iff)
  ultimately show ?thesis
    using sample_within sample_nonempty
    by (subst attenuate_token_iff [OF sample_lib_ok(2,3) _ _ sample_root_parse])
       (auto simp: MAX_TTL_SECONDS_def claims_ok_def timestamp_ok_def MAX_SAFE_INTEGER_def narrower_def)
qed

lemma sample_delegated:
  "\<exists>token claims. attenuate_token sample_lib (key_pair_of sample_lib ''hk'') sample_root ''b'' [''read:x''] None (PInt 5)
       ((sample_world 102)\<lparr>draws := 1\<rparr>) = (Inr token, (sample_world 102)\<lparr>ticks := 1, draws := 2\<rparr>) \<and>
     verify sample_lib None (Some sample_registry) None (Some ''t'') (PInt 2) token (sample_world 105) =
       (Inr claims, (sample_world 105)\<lparr>ticks := 2\<rparr>) \<and> iss claims = ''b'' \<and> prf_token claims = Some sample_root"
proof -
  obtain token where token: "attenuate_token sample_lib (key_pair_of sample_lib ''hk'') sample_root ''b'' [''read:x''] None (PInt 5)
       ((sample_world 102)\<lparr>draws := 1\<rparr>) = (Inr token, (sample_world 102)\<lparr>ticks := 1, draws := 2\<rparr>)"
    using sample_attenuated by blast
  have pk: "ed_public sample_lib = sample_public" by (simp add: sample_lib_def)
  have "\<exists>claims. verify sample_lib None (Some sample_registry) None (Some ''t'') (PInt 2) token (sample_world 105) =
       (Inr claims, (sample_world 105)\<lparr>ticks := 2\<rparr>) \<and> iss claims = ''b'' \<and> sub claims = ''t'' \<and>
       capabilities claims = [''read:x''] \<and> prf_token claims = Some sample_root"
    by (rule delegated_verifies [OF sample_lib_ok sample_issued token sample_lib_shallow, where ?v1.0 = "(sample_world 105)\<lparr>ticks := 1\<rparr>"])
       (simp_all add: pk sample_trusts not_revoked_def MAX_LEEWAY_SECONDS_def)
  with token show ?thesis by blast
qed

section \<open>Properties\<close>

text \<open>C14. A signed token reads back as what was signed. If \<open>_sign\<close> returns a token for valid claims (whose floats and
  pinned parameters can be written as JSON), then \<open>parse\<close> reads from it the header that names the signer's key,
  the same claims with the pinned parameters in key order, and the bytes the signature was made over, whose
  signature is the last segment: escapes, nesting, negative numbers and every layout of a float included. The one other
  outcome is the \<open>RecursionError\<close> of a token nested too deeply for \<open>json.loads\<close>.\<close>

theorem signed_token_parses:
  assumes "pydantic_ok L" "text_ok L" "claims_ok c" "constraints_ok (constraints c)" "limits_readable (constraints c)"
    and "sign_claims L kp c = Inr token"
  shows "\<exists>header signing_input. token = signing_input @ ''.'' @ b64url_encode (sign L kp signing_input) \<and>
     header_ok header \<and> (length (public_key kp) = 32 \<longrightarrow> kid_bytes header = Inr (public_key kp)) \<and>
     parse L token = (if overflows L token then Inl recursion_error else Inr (header, wire_form c, signing_input))"
  using sign_parse [OF assms(1-5), of kp] assms(6) header_sorted [of kp]
  by (intro exI [of _ "sort_keys (token_header kp)"] exI [of _ "signing_input_of kp c"]) (simp add: token_of_def)

definition sample_pins :: constraints where
  \<comment> \<open>a limit in dollars and cents, and pinned parameters that need escapes and sorting\<close>
  "sample_pins = no_constraints\<lparr>max_amount_usd := Some (Fin (1 / 2)),
     allowed_params := [(''to'', PStr [CHR 0x22, CHR 0xE9]), (''of'', PList [PBool True, PInt (- 3)])]\<rparr>"

theorem signed_token_parses_witness:
  "\<exists>token header m. sign_claims sample_lib (key_pair_of sample_lib ''sk'') ((sample_claims None)\<lparr>constraints := sample_pins\<rparr>) = Inr token \<and>
     parse sample_lib token = Inr (header, (sample_claims None)\<lparr>constraints := sample_pins\<lparr>allowed_params :=
       [(''of'', PList [PBool True, PInt (- 3)]), (''to'', PStr [CHR 0x22, CHR 0xE9])]\<rparr>\<rparr>, m)"
proof -
  let ?c = "(sample_claims None)\<lparr>constraints := sample_pins\<rparr>" and ?kp = "key_pair_of sample_lib ''sk''"
  have "round_double (1 / 2) = Fin (1 / 2)" by code_simp
  then have "finite_float (Fin (1 / 2))" by (simp add: finite_float_def binary64_number_def)
  moreover have "int_readable (- 3)" by (rule int_readable_safe) (simp add: MAX_SAFE_INTEGER_def)
  ultimately have ok: "claims_ok ?c" "constraints_ok (constraints ?c)" "limits_readable (constraints ?c)"
    using sample_claims_ok(1)
    by (simp_all add: amount_limit_ok_def claims_ok_def constraints_ok_def count_limit_ok_def budget_pins_def limits_readable_def sample_pins_def
        no_constraints_def MAX_SAFE_INTEGER_def)
  have signed: "sign_claims sample_lib ?kp ?c = Inr (token_of sample_lib ?kp ?c)"
    by (rule sign_parse(1) [OF sample_lib_ok(2,3) ok])
  have "sort_pins (allowed_params sample_pins) = [(''of'', PList [PBool True, PInt (- 3)]), (''to'', PStr [CHR 0x22, CHR 0xE9])]"
    by (simp add: sort_pins_def sample_pins_def sort_key_def insort_key_def)
  then have "wire_form ?c = (sample_claims None)\<lparr>constraints := sample_pins\<lparr>allowed_params :=
       [(''of'', PList [PBool True, PInt (- 3)]), (''to'', PStr [CHR 0x22, CHR 0xE9])]\<rparr>\<rparr>"
    by (simp add: wire_form_def issued_claims_def)
  with signed_token_parses [OF sample_lib_ok(2,3) ok signed] signed sample_lib_shallow show ?thesis by auto
qed

text \<open>C6. An issued token is accepted when it is to be presented, and refused when it is to be delegated. Whatever
  the arguments of \<open>issue\<close>, if it returns a token (with valid constraints whose floats and pinned parameters can be
  written as JSON, and not nested too deeply for \<open>json.loads\<close> to read back), then at every instant of the token's
  lifetime up to the leeway, unless the token is revoked, every verifier that trusts the issuer's key accepts a token
  without a delegate for its audience, and reads the claims that were signed, with the pinned parameters in key order; a
  token that names a delegate makes it raise a \<open>DelegationError\<close>, since only the delegate's narrower token may be
  presented.\<close>

theorem issued_token_verifies:
  fixes w :: "'x world_scheme" and v :: "'y world_scheme"
  assumes lib: "ed25519_ok L" "pydantic_ok L" "text_ok L"
    and issued: "issue_token L (key_pair_of L sk) issuer subject caps limits (PInt ttl) delegate w = (Inr token, w')"
    and shallow: "\<not> overflows L token"
    and limits: "constraints_ok (resolve_constraints limits)" "limits_readable (resolve_constraints limits)"
    and config: "trusts pk R False issuer (ed_public L sk)" "(pk = None) \<noteq> (R = None)"
    and leeway: "0 \<le> leeway" "leeway \<le> MAX_LEEWAY_SECONDS"
    and clocks: "py_int (clock w (ticks w)) - leeway \<le> py_int (clock v (ticks v))"
      "py_int (clock v (ticks v)) \<le> py_int (clock w (ticks w)) + ttl + leeway"
    and store: "not_revoked store (b64url_encode (entropy w (draws w))) (v\<lparr>ticks := Suc (ticks v)\<rparr>) v'"
  shows "verify L pk R store (Some subject) (PInt leeway) token v =
     (if delegate = None then Inr (wire_form (issued_claims issuer subject caps (resolve_constraints limits) ttl delegate w))
      else Inl (swarm DelegationError), v')"
  by (rule issued_verifies [OF lib issued shallow limits config leeway clocks store])

theorem issued_token_verifies_witness:
  "issue_token sample_lib (key_pair_of sample_lib ''sk'') ''a'' ''t'' [''read:*''] None (PInt 10) None (sample_world 100) =
     (Inr (token_of sample_lib (key_pair_of sample_lib ''sk'') (sample_claims None)), (sample_world 100)\<lparr>ticks := 1, draws := 1\<rparr>) \<and>
   verify sample_lib (Some (sample_public ''sk'')) None None (Some ''t'') (PInt 2)
     (token_of sample_lib (key_pair_of sample_lib ''sk'') (sample_claims None)) (sample_world 105) =
     (Inr (wire_form (sample_claims None)), (sample_world 105)\<lparr>ticks := 1\<rparr>) \<and>
   issue_token sample_lib (key_pair_of sample_lib ''sk'') ''a'' ''t'' [''read:*''] None (PInt 10) (Some ''b'') (sample_world 100) =
     (Inr sample_root, (sample_world 100)\<lparr>ticks := 1, draws := 1\<rparr>) \<and>
   verify sample_lib (Some (sample_public ''sk'')) None None (Some ''t'') (PInt 2) sample_root (sample_world 105) =
     (Inl (swarm DelegationError), (sample_world 105)\<lparr>ticks := 1\<rparr>)"
proof -
  have "verify sample_lib (Some (sample_public ''sk'')) None None (Some ''t'') (PInt 2)
      (token_of sample_lib (key_pair_of sample_lib ''sk'') (sample_claims d)) (sample_world 105) =
       (if d = None then Inr (wire_form (sample_claims d)) else Inl (swarm DelegationError),
        (sample_world 105)\<lparr>ticks := 1\<rparr>)" if "d = None \<or> d = Some ''b''" for d
    using issued_token_verifies [OF sample_lib_ok sample_issued [OF that] sample_lib_shallow,
        where pk = "Some (sample_public ''sk'')" and R = None and leeway = 2 and v = "sample_world 105" and store = None]
    by (simp add: trusts_def not_revoked_def MAX_LEEWAY_SECONDS_def sample_lib_def)
  from this [of None] this [of "Some ''b''"] sample_issued [of None] sample_issued [of "Some ''b''"] show ?thesis by simp
qed

text \<open>C7. A delegated token verifies. A token that \<open>attenuate\<close> returns to the delegate named by an
  issued token is accepted by every verifier whose registry trusts the issuer's root key and the
  delegate's holder key, while both lifetimes last and neither token is revoked (nor nested too deeply
  for \<open>json.loads\<close>, whose \<open>RecursionError\<close> would pass through the verifier).\<close>

theorem delegated_token_verifies:
  fixes w :: "'x world_scheme" and w1 :: "'y world_scheme" and v :: "'z world_scheme"
  assumes lib: "ed25519_ok L" "pydantic_ok L" "text_ok L"
    and parent: "issue_token L (key_pair_of L sk) issuer subject caps limits (PInt ttl) (Some holder) w = (Inr proof_token, w')"
    and child: "attenuate_token L (key_pair_of L sk1) proof_token holder caps1 limits1 (PInt ttl1) w1 = (Inr token, w1')"
    and shallow: "\<not> overflows L token"
    and limits: "constraints_ok (resolve_constraints limits)" "limits_readable (resolve_constraints limits)"
      "constraints_ok (resolve_constraints limits1)" "limits_readable (resolve_constraints limits1)"
    and config: "trusts None (Some R) False issuer (ed_public L sk)" "trusts None (Some R) True holder (ed_public L sk1)"
    and leeway: "0 \<le> leeway" "leeway \<le> MAX_LEEWAY_SECONDS"
    and clocks: "py_int (clock w1 (ticks w1)) - leeway \<le> py_int (clock v (ticks v))"
      "py_int (clock v (ticks v)) \<le> py_int (clock w1 (ticks w1)) + ttl1 + leeway"
      "py_int (clock w (ticks w)) - leeway \<le> py_int (clock v1 (ticks v1))"
      "py_int (clock v1 (ticks v1)) \<le> py_int (clock w (ticks w)) + ttl + leeway"
    and store: "not_revoked store (b64url_encode (entropy w1 (draws w1))) (v\<lparr>ticks := Suc (ticks v)\<rparr>) v1"
      "not_revoked store (b64url_encode (entropy w (draws w))) (v1\<lparr>ticks := Suc (ticks v1)\<rparr>) v2"
  shows "\<exists>claims. verify L None (Some R) store (Some subject) (PInt leeway) token v = (Inr claims, v2) \<and>
     iss claims = holder \<and> sub claims = subject \<and> capabilities claims = caps1 \<and> prf_token claims = Some proof_token"
  by (rule delegated_verifies [OF lib parent child shallow limits config leeway clocks store])

theorem delegated_token_verifies_witness:
  "\<exists>token claims. attenuate_token sample_lib (key_pair_of sample_lib ''hk'') sample_root ''b'' [''read:x''] None (PInt 5)
       ((sample_world 102)\<lparr>draws := 1\<rparr>) = (Inr token, (sample_world 102)\<lparr>ticks := 1, draws := 2\<rparr>) \<and>
     verify sample_lib None (Some sample_registry) None (Some ''t'') (PInt 2) token (sample_world 105) =
       (Inr claims, (sample_world 105)\<lparr>ticks := 2\<rparr>) \<and> iss claims = ''b'' \<and> prf_token claims = Some sample_root"
proof -
  obtain token where token: "attenuate_token sample_lib (key_pair_of sample_lib ''hk'') sample_root ''b'' [''read:x''] None (PInt 5)
       ((sample_world 102)\<lparr>draws := 1\<rparr>) = (Inr token, (sample_world 102)\<lparr>ticks := 1, draws := 2\<rparr>)"
    using sample_attenuated by blast
  have pk: "ed_public sample_lib = sample_public" by (simp add: sample_lib_def)
  have "\<exists>claims. verify sample_lib None (Some sample_registry) None (Some ''t'') (PInt 2) token (sample_world 105) =
       (Inr claims, (sample_world 105)\<lparr>ticks := 2\<rparr>) \<and> iss claims = ''b'' \<and> sub claims = ''t'' \<and>
       capabilities claims = [''read:x''] \<and> prf_token claims = Some sample_root"
    by (rule delegated_token_verifies [OF sample_lib_ok sample_issued token sample_lib_shallow, where ?v1.0 = "(sample_world 105)\<lparr>ticks := 1\<rparr>"])
       (simp_all add: pk sample_trusts not_revoked_def MAX_LEEWAY_SECONDS_def)
  with token show ?thesis by blast
qed

text \<open>C3. Delegation never widens authority. Whenever \<open>verify\<close> accepts a token with a proof, the proof is
  a root token, signed by a trusted root key, that names the bearer as its delegate, for the same
  audience; the child lives within the parent's lifetime and limits and cannot delegate again; and every
  capability and every set of call parameters the child passes, the parent passes too.\<close>

theorem delegation_never_widens:
  assumes "verify L pk R store aud leeway_seconds token w = (Inr claims, w')"
    and "prf_token claims = Some proof_token"
  shows "\<exists>parent. authentic L pk R False proof_token parent \<and>
     dlg parent = Some (iss claims) \<and> prf_token parent = None \<and> dlg claims = None \<and>
     sub claims = sub parent \<and> iat parent \<le> iat claims \<and> exp_at claims \<le> exp_at parent \<and>
     constraints_within (constraints parent) (constraints claims) \<and>
     (\<forall>r. check_capability claims r = Inr () \<longrightarrow> check_capability parent r = Inr ()) \<and>
     (\<forall>params. check_params claims params = Inr () \<longrightarrow> check_params parent params = Inr ())"
proof -
  from assms obtain parent where "authentic L pk R False proof_token parent" and n: "narrower parent claims"
    by (auto simp: verify_iff accepts_def core_accepts_def)
  then show ?thesis
    using narrower_authority [OF n]
    by (intro exI [of _ parent]) (auto simp: narrower_def)
qed

theorem delegation_never_widens_witness:
  "\<exists>token claims parent. verify sample_lib None (Some sample_registry) None (Some ''t'') (PInt 2) token (sample_world 105) =
       (Inr claims, (sample_world 105)\<lparr>ticks := 2\<rparr>) \<and>
     authentic sample_lib None (Some sample_registry) False sample_root parent \<and> dlg parent = Some ''b'' \<and>
     exp_at claims \<le> exp_at parent"
proof -
  obtain token claims where run: "verify sample_lib None (Some sample_registry) None (Some ''t'') (PInt 2) token (sample_world 105) =
       (Inr claims, (sample_world 105)\<lparr>ticks := 2\<rparr>)" "iss claims = ''b''" "prf_token claims = Some sample_root"
    using sample_delegated by blast
  with delegation_never_widens [OF run(1,3)] show ?thesis by auto
qed

end
