(* ===== verification/Deployment.thy ===== *)
theory Deployment
  imports Middleware TokenRoundTrip
begin

text \<open>
  A process that guards its tools: any number of guards on one \<open>UsageTracker\<close> and, optionally, one
  \<open>InMemoryRevocationStore\<close>, called in any order, while tokens are revoked and time passes. The
  process is a step relation (\<open>deploy_step\<close>) over the worlds of the earlier theories and \<open>deploy_run\<close>
  its runs with their traces. \<open>run_ledger\<close> carries the tracker's ledger through every step, also
  through calls that are refused midway, and \<open>run_keeps\<close> the revocations; from them follow the bounds
  on what is let through under one token and the finality of a revocation.
\<close>


section \<open>The tracker object\<close>

definition memory_tracker :: "'x usage_world_scheme tracker" where
  \<comment> \<open>a \<open>UsageTracker\<close>: its methods return None, and it has neither of the optional attributes\<close>
  "memory_tracker =
     \<lparr>record_one = (\<lambda>claims amount. abind (tracker_record claims amount) (\<lambda>_. ret Plain)),
      record_chain = Some (\<lambda>chain amount. abind (tracker_record_chain chain amount) (\<lambda>_. ret Plain)),
      requires_chain = False, supports_shared_budgets = False\<rparr>"

lemma memory_tracker_simps [simp]:
  "record_one memory_tracker claims amount w = (Inr p, w') \<longleftrightarrow>
     p = Plain \<and> tracker_record_chain [claims] amount w = (Inr (), w')"
  "record_chain memory_tracker = Some f \<and> f chain amount w = (Inr p, w') \<longleftrightarrow>
     record_chain memory_tracker = Some f \<and> p = Plain \<and> tracker_record_chain chain amount w = (Inr (), w')"
  by (auto simp: memory_tracker_def tracker_record_def py_inv)

section \<open>What leaves the tracker, and what keeps revocations\<close>

definition quiet_rel :: "'x usage_world_scheme \<Rightarrow> 'x usage_world_scheme \<Rightarrow> bool" where
  \<comment> \<open>time may pass, the tracker is left alone\<close>
  "quiet_rel w w' \<longleftrightarrow> clock w' = clock w \<and> ticks w \<le> ticks w' \<and> usage w' = usage w"

definition steady_rel :: "'x usage_world_scheme \<Rightarrow> 'x usage_world_scheme \<Rightarrow> bool" where
  \<comment> \<open>time may pass, and from then on the store answers as it would have\<close>
  "steady_rel w w' \<longleftrightarrow>
     clock w' = clock w \<and> ticks w \<le> ticks w' \<and>
     (mono (clock w) \<longrightarrow> (\<forall>j t. clock w (ticks w') \<le> t \<longrightarrow> live t (revoked w' j) = live t (revoked w j)))"

interpretation quiet: world_relation quiet_rel
  by unfold_locales (auto simp: quiet_rel_def)

interpretation steady: world_relation steady_rel
proof unfold_locales
  fix w w' w'' :: "'x usage_world_scheme"
  assume "steady_rel w w'" "steady_rel w' w''"
  moreover from this have "mono (clock w) \<longrightarrow> clock w (ticks w') \<le> clock w (ticks w'')"
    by (auto simp: steady_rel_def mono_def)
  ultimately show "steady_rel w w''"
    unfolding steady_rel_def by (metis order_trans)
qed (auto simp: steady_rel_def)

abbreviation quiet :: "('x usage_world_scheme, 'a) py \<Rightarrow> bool" where
  "quiet \<equiv> preserves quiet_rel"

definition plain_store :: "'x usage_world_scheme revocation_check option \<Rightarrow> bool" where
  "plain_store store \<longleftrightarrow> store = None \<or> store = Some memory_is_revoked"

lemma memory_is_revoked_confined: "quiet (memory_is_revoked j)" "preserves steady_rel (memory_is_revoked j)"
proof -
  show "quiet (memory_is_revoked j)"
    by (simp add: preserves_def quiet_rel_def memory_is_revoked_run)
  show "preserves steady_rel (memory_is_revoked j)"
    unfolding preserves_def steady_rel_def memory_is_revoked_run
    by (auto intro!: live_purge elim: order_trans [rotated] simp: mono_def)
qed

lemma quiet_verify_value: "plain_store store \<Longrightarrow> quiet (verify_value L pk R store aud token)"
  by (rule quiet.verify_value_preserves) (auto simp: plain_store_def memory_is_revoked_confined)

section \<open>The ledger of a world\<close>

definition ledger_inv :: "capability_claims set \<Rightarrow> reservation list \<Rightarrow> 'x usage_world_scheme \<Rightarrow> bool" where
  \<comment> \<open>the clock never goes back, the ledger \<open>h\<close> keeps every limit, and the tracker's counters are
    those of the ledger\<close>
  "ledger_inv K h w \<longleftrightarrow>
     mono (clock w) \<and> ledger_within K h \<and> (\<forall>(t, chain, a) \<in> set h. 0 \<le> a) \<and>
     (\<exists>t \<le> clock w (ticks w). usage_rep K t h (usage w))"

lemma ledger_inv_quiet: "quiet m \<Longrightarrow> ledger_inv K h w \<Longrightarrow> ledger_inv K h (snd (m w))"
  unfolding preserves_def quiet_rel_def ledger_inv_def by (metis monoD order_trans)

definition binary64 :: "pyfloat \<Rightarrow> bool" where
  "binary64 f \<longleftrightarrow> (case f of Fin x \<Rightarrow> double_range x | _ \<Rightarrow> True)"

lemma validated_float: "validated_amount (PFloat f) = Inr g \<Longrightarrow> binary64 f \<Longrightarrow> g = f \<and> amount_ok f"
  by (cases f) (auto simp: validated_amount_def binary64_def amount_ok_def split: if_splits)

lemma tracker_logs:
  assumes "token_pool K" "set chain \<subseteq> K" "ledger_inv K h w" "binary64 f"
    and "tracker_record_chain chain (PFloat f) w = (r, w')"
  shows "\<exists>h'. ledger_inv K h' w' \<and> (h' = h \<and> r \<noteq> Inr () \<or> (\<exists>now. h' = h @ [(now, chain, decimal_of_float f)]))"
proof (cases "validated_amount (PFloat f) = Inr f \<and> amount_ok f \<and> chain_ids_ok chain")
  case False
  then have "w' = w \<and> r \<noteq> Inr ()"
    using assms(5) validated_float [OF _ assms(4)]
    by (cases "validated_amount (PFloat f)") (auto simp: tracker_record_chain_def ensure_def)
  with assms(3) show ?thesis by blast
next
  case True
  let ?now = "clock w (ticks w)"
  from True assms(5) have run: "reserve ?now chain f (usage w) = (r, usage w')"
      "clock w' = clock w" "ticks w' = Suc (ticks w)"
    by (auto simp: tracker_record_chain_def abind_run split: prod.splits)
  from assms(3) obtain t where t: "t \<le> ?now" "usage_rep K t h (usage w)" and m: "mono (clock w)"
    and within: "ledger_within K h" "\<forall>(t, chain, a) \<in> set h. 0 \<le> a"
    by (auto simp: ledger_inv_def)
  have ok: "request_ok K (chain, f)" using True assms(2) by (simp add: request_ok_def)
  let ?h = "ledger_step any_chain (ledger_request (?now, chain, f)) h"
  have rep: "usage_rep K ?now ?h (usage w')"
    using memory_usage.rep_record [OF assms(1) t(2,1) ok] run(1) by simp
  have le: "?now \<le> clock w' (ticks w')" using m run(2,3) by (simp add: mono_def)
  have keeps: "ledger_within K ?h"
    using ledger_step_within [OF _ assms(2) within(1)] assms(1) by (simp add: ledger_request_def token_pool_def)
  obtain x where "f = Fin x" "0 \<le> x" using True by (auto simp: amount_ok_def)
  then have "0 \<le> decimal_of_float f" by (simp add: decimal_of_float_def repr_value_nonneg)
  then have nonneg: "\<forall>(t, chain, a) \<in> set ?h. 0 \<le> a"
    using within(2) by (auto simp: ledger_step_def ledger_request_def)
  have "mono (clock w')" using m run(2) by simp
  with rep le keeps nonneg have "ledger_inv K ?h w'" unfolding ledger_inv_def by blast
  moreover have "r = Inr () \<longleftrightarrow> list_all (allows h ?now (decimal_of_float f)) chain"
    using memory_usage.verdict [OF assms(1) t(2,1) ok] run(1) by simp
  moreover have "?h = (if list_all (allows h ?now (decimal_of_float f)) chain
      then h @ [(?now, chain, decimal_of_float f)] else h)"
    by (simp add: ledger_step_def ledger_request_def)
  ultimately show ?thesis by metis
qed


section \<open>A guard with the in-memory tracker\<close>

definition quiet_callback :: "'x usage_world_scheme callback option \<Rightarrow> bool" where
  \<comment> \<open>the decision callback, if any, leaves tracker and store alone\<close>
  "quiet_callback callback \<longleftrightarrow> (\<forall>f e. callback = Some f \<longrightarrow> quiet (f e) \<and> preserves steady_rel (f e))"

definition presented_in ::
  "ext_lib \<Rightarrow> string set \<Rightarrow> capability_claims set \<Rightarrow> bool" where
  \<comment> \<open>\<open>K\<close> has the claims of the tokens in \<open>S\<close> and of the proofs they carry\<close>
  "presented_in L S K \<longleftrightarrow>
     (\<forall>t \<in> S. \<forall>h c m. parse L t = Inr (h, c, m) \<longrightarrow>
        c \<in> K \<and> (\<forall>p. parent_of L c = Inr (Some p) \<longrightarrow> p \<in> K))"

lemma quiet_notify: "quiet_callback callback \<Longrightarrow> quiet (notify callback event)"
  by (cases callback) (auto simp: notify_def quiet_callback_def intro!: quiet.preserving)

lemma quiet_deny: "quiet_callback (on_decision B) \<Longrightarrow> quiet (deny B claims e)"
  by (cases e) (auto simp: deny_def intro!: quiet.preserving quiet_notify)

definition under :: "ext_lib \<Rightarrow> capability_claims \<Rightarrow> capability_claims \<Rightarrow> bool" where
  \<comment> \<open>a call with \<open>claims\<close> is made with the token \<open>c\<close>, or with one delegated from it\<close>
  "under L c claims \<longleftrightarrow> claims = c \<or> parent_of L claims = Inr (Some c)"

lemma charge_logs:
  assumes "token_pool K" "ledger_inv K h w" "binary64 f" "claims \<in> K" "parent = None \<or> (\<exists>p \<in> K. parent = Some p)"
    and "charge memory_tracker parent claims f w = (r, w')"
  shows "\<exists>h'. ledger_inv K h' w' \<and> (h' = h \<and> r \<noteq> Inr () \<or>
     (\<exists>now chain. h' = h @ [(now, chain, decimal_of_float f)] \<and> claims \<in> set chain \<and>
        (\<forall>p. parent = Some p \<and> stateful p \<noteq> [] \<longrightarrow> p \<in> set chain)))"
proof -
  define chain where "chain = (case parent of Some p \<Rightarrow> if stateful p \<noteq> [] then [p, claims] else [claims] | None \<Rightarrow> [claims])"
  have run: "charge memory_tracker parent claims f w =
      abind (abind (tracker_record_chain chain (PFloat f)) (\<lambda>_. ret Plain)) (\<lambda>r. lift (require_sync r)) w"
    by (simp add: charge_def memory_tracker_def chain_def tracker_record_def split: option.split)
  obtain s w1 where s1: "tracker_record_chain chain (PFloat f) w = (s, w1)" by fastforce
  with run assms(6) have s: "tracker_record_chain chain (PFloat f) w = (s, w')" "s \<noteq> Inr () \<longrightarrow> r \<noteq> Inr ()"
    by (cases s; simp add: abind_run require_sync_def)+
  have "set chain \<subseteq> K" using assms(4,5) by (auto simp: chain_def split: if_splits)
  from tracker_logs [OF assms(1) this assms(2,3) s(1)] obtain h' where
      h': "ledger_inv K h' w'" "h' = h \<and> s \<noteq> Inr () \<or> (\<exists>now. h' = h @ [(now, chain, decimal_of_float f)])"
    by blast
  moreover have "claims \<in> set chain" "\<forall>p. parent = Some p \<and> stateful p \<noteq> [] \<longrightarrow> p \<in> set chain"
    by (auto simp: chain_def split: option.split)
  ultimately show ?thesis using s(2) by (intro exI [of _ h']) auto
qed


lemma check_claims_logs:
  assumes "token_pool K" "ledger_inv K h w" "tracker B = Some memory_tracker"
    and "\<forall>f. resolved_amount amount = Inr f \<longrightarrow> binary64 f"
    and "claims \<in> K" "\<forall>p. parent_of L claims = Inr (Some p) \<longrightarrow> p \<in> K"
  shows "\<exists>h'. prefix h h' \<and> ledger_inv K h' (snd (check_claims L B amount params claims w))"
proof (cases "static_checks B amount params claims")
  case (Inr u)
  show ?thesis
  proof (cases "resolved_amount amount")
    case f: (Inr f)
    show ?thesis
    proof (cases "parent_of L claims")
      case p: (Inr parent)
      obtain r w' where run: "charge memory_tracker parent claims f w = (r, w')" by fastforce
      then have "snd (check_claims L B amount params claims w) = w'"
        using Inr f p assms(3) by (simp add: check_claims_def)
      moreover have "parent = None \<or> (\<exists>p \<in> K. parent = Some p)"
        using assms(6) p by (cases parent) auto
      ultimately show ?thesis
        using charge_logs [OF assms(1,2) _ assms(5) _ run] assms(4) f
        by (metis prefix_order.refl prefixI)
    qed (use Inr f assms(2,3) in \<open>auto simp: check_claims_def\<close>)
  qed (use Inr assms(2) in \<open>auto simp: check_claims_def\<close>)
qed (use assms(2) in \<open>auto simp: check_claims_def\<close>)

definition watched_guard ::
  "'x usage_world_scheme revocation_check option \<Rightarrow> 'x usage_world_scheme guard_config \<Rightarrow> bool" where
  \<comment> \<open>a guard on the one tracker and store of the process\<close>
  "watched_guard store G \<longleftrightarrow>
     tracker (guard_boundary G) = Some memory_tracker \<and> revocation_check (guard_boundary G) = store \<and>
     quiet_callback (on_decision (guard_boundary G))"

lemma bound_boundary_simps [simp]:
  "tracker (bound_boundary G) = tracker (guard_boundary G)"
  "revocation_check (bound_boundary G) = revocation_check (guard_boundary G)"
  "on_decision (bound_boundary G) = on_decision (guard_boundary G)"
  "issuer_public_key (bound_boundary G) = issuer_public_key (guard_boundary G)"
  "key_registry (bound_boundary G) = key_registry (guard_boundary G)"
  "audience (bound_boundary G) = Some (bound_audience G)"
  "required_capability (bound_boundary G) = Some (capability G)"
  by (simp_all add: bound_boundary_def)

lemma verify_value_in:
  assumes "presented_in L S K" "\<forall>t. token = PStr t \<longrightarrow> t \<in> S"
    and "verify_value L pk R store aud token w = (Inr claims, w')"
  shows "claims \<in> K" "\<forall>p. parent_of L claims = Inr (Some p) \<longrightarrow> p \<in> K"
proof -
  from assms(3) obtain t where "token = PStr t" "accepts L pk R store aud 2 t claims w w'"
    unfolding verify_value_iff by blast
  moreover from this obtain h m where "parse L t = Inr (h, claims, m)" using accepts_parse by blast
  moreover have "t \<in> S" using assms(2) \<open>token = PStr t\<close> by blast
  ultimately have "t \<in> S" "\<exists>h m. parse L t = Inr (h, claims, m)" by blast+
  with assms(1) show "claims \<in> K" "\<forall>p. parent_of L claims = Inr (Some p) \<longrightarrow> p \<in> K"
    unfolding presented_in_def by blast+
qed

lemma verify_and_check_logs:
  assumes "token_pool K" "ledger_inv K h w" "presented_in L S K" "\<forall>t. token = PStr t \<longrightarrow> t \<in> S"
    and "tracker B = Some memory_tracker" "plain_store (revocation_check B)" "quiet_callback (on_decision B)"
    and "\<forall>f. resolved_amount amount = Inr f \<longrightarrow> binary64 f"
  shows "\<exists>h'. prefix h h' \<and> ledger_inv K h' (snd (verify_and_check L B amount params token w))"
proof -
  let ?v = "catch (verify_value L (issuer_public_key B) (key_registry B) (revocation_check B) (audience B) token) (deny B None)"
  have "quiet ?v" by (intro quiet.preserving(5) quiet_verify_value quiet_deny assms(6,7))
  then have inv: "ledger_inv K h (snd (?v w))" by (rule ledger_inv_quiet [OF _ assms(2)])
  show ?thesis
  proof (cases "fst (?v w)")
    case (Inl e)
    with inv show ?thesis by (auto simp: verify_and_check_def abind_run)
  next
    case (Inr claims)
    let ?w = "snd (?v w)"
    from Inr have "?v w = (Inr claims, ?w)" by (metis prod.collapse)
    then have "verify_value L (issuer_public_key B) (key_registry B) (revocation_check B) (audience B) token w = (Inr claims, ?w)"
      by (simp add: py_inv)
    note inK = verify_value_in [OF assms(3,4) this]
    obtain h' where h': "prefix h h'" "ledger_inv K h' (snd (check_claims L B amount params claims ?w))"
      using check_claims_logs [OF assms(1) inv assms(5,8) inK] by blast
    let ?c = "catch (check_claims L B amount params claims) (deny B (Some claims))"
    have "ledger_inv K h' (snd (?c ?w))"
      using h'(2) ledger_inv_quiet [OF quiet_deny [OF assms(7)]]
      by (auto simp: catch_def split: prod.split sum.split)
    then have "ledger_inv K h' (snd (abind ?c (\<lambda>_. abind (notify (on_decision B) (allowed_event B claims)) (\<lambda>_. ret claims)) ?w))"
      using ledger_inv_quiet [OF quiet.preserving(4) [OF quiet_notify [OF assms(7)] quiet.preserving(2)]]
      by (auto simp: abind_run [of ?c] split: sum.split)
    with h'(1) Inr show ?thesis
      by (auto simp: verify_and_check_def abind_run [of ?v])
  qed
qed


definition call_params :: "'w guard_config \<Rightarrow> signature \<Rightarrow> pyval list \<Rightarrow> params \<Rightarrow> params result" where
  \<comment> \<open>the parameters the guard checks\<close>
  "call_params G sig args kwargs = bound_call_params sig args (AList.delete (token_kwarg G) kwargs)"

definition reserved_amount :: "'w guard_config \<Rightarrow> signature \<Rightarrow> pyval list \<Rightarrow> params \<Rightarrow> pyfloat result" where
  \<comment> \<open>the amount the guard reserves for a call\<close>
  "reserved_amount G sig args kwargs =
     rbind (call_params G sig args kwargs) (\<lambda>params. resolved_amount (call_amount G params))"

definition typed_call :: "'w guard_config \<Rightarrow> signature \<Rightarrow> pyval list \<Rightarrow> params \<Rightarrow> bool" where
  \<comment> \<open>a float amount is a binary64 number, as every Python float is\<close>
  "typed_call G sig args kwargs \<longleftrightarrow>
     (\<forall>params f. call_params G sig args kwargs = Inr params \<longrightarrow> call_amount G params = PFloat f \<longrightarrow> binary64 f)"

lemma resolved_binary64:
  assumes "resolved_amount v = Inr f" "\<forall>g. v = PFloat g \<longrightarrow> binary64 g"
  shows "binary64 f"
proof (cases "v = PNone")
  case True
  with assms(1) show ?thesis by (auto simp: resolved_amount_def binary64_def double_range_def)
next
  case False
  with assms(1) have "validated_amount v = Inr f" by (simp add: resolved_amount_def)
  then show ?thesis
    using assms(2) round_double_range
    by (cases v) (auto simp: validated_amount_def float_of_int_def binary64_def py_inv split: pyfloat.splits if_splits)
qed

lemma typed_amount:
  "typed_call G sig args kwargs \<Longrightarrow> call_params G sig args kwargs = Inr params \<Longrightarrow>
   \<forall>f. resolved_amount (call_amount G params) = Inr f \<longrightarrow> binary64 f"
  using resolved_binary64 by (auto simp: typed_call_def)

section \<open>The steps of a deployment\<close>

datatype happening =
    Admitted capability_claims rat  \<comment> \<open>a guard let a call through, for an amount\<close>
  | Refused exc
  | Revoked string int
  | Elapsed

definition shown :: "string set \<Rightarrow> 'w guard_config \<Rightarrow> params \<Rightarrow> 'x world_scheme \<Rightarrow> bool" where
  \<comment> \<open>the token presented to the guard, if it is a string, is one of \<open>S\<close>\<close>
  "shown S G kwargs w \<longleftrightarrow>
     (\<forall>t. presented_token (dict_get kwargs (token_kwarg G)) (current_token w) = PStr t \<longrightarrow> t \<in> S)"

inductive deploy_step ::
  "ext_lib \<Rightarrow> 'x usage_world_scheme revocation_check option \<Rightarrow> string set \<Rightarrow>
   'x usage_world_scheme \<Rightarrow> happening \<Rightarrow> 'x usage_world_scheme \<Rightarrow> bool"
  for L store S where
  admitted: "watched_guard store G \<Longrightarrow> shown S G kwargs w \<Longrightarrow> typed_call G sig args kwargs \<Longrightarrow>
     reserved_amount G sig args kwargs = Inr f \<Longrightarrow> admits L G sig args kwargs claims w w' \<Longrightarrow>
     deploy_step L store S w (Admitted claims (decimal_of_float f)) w'"
| refused: "watched_guard store G \<Longrightarrow> shown S G kwargs w \<Longrightarrow> typed_call G sig args kwargs \<Longrightarrow>
     authorize L G sig args kwargs w = (Inl e, w') \<Longrightarrow> deploy_step L store S w (Refused e) w'"
| revoked: "memory_revoke j e w = (Inr (), w') \<Longrightarrow> deploy_step L store S w (Revoked j e) w'"
| elapsed: "clock w' = clock w \<Longrightarrow> ticks w \<le> ticks w' \<Longrightarrow> usage w' = usage w \<Longrightarrow> revoked w' = revoked w \<Longrightarrow>
     deploy_step L store S w Elapsed w'"

inductive deploy_run ::
  "ext_lib \<Rightarrow> 'x usage_world_scheme revocation_check option \<Rightarrow> string set \<Rightarrow>
   'x usage_world_scheme \<Rightarrow> happening list \<Rightarrow> 'x usage_world_scheme \<Rightarrow> bool"
  for L store S where
  start: "deploy_run L store S w [] w"
| further: "deploy_run L store S w es w' \<Longrightarrow> deploy_step L store S w' e w'' \<Longrightarrow> deploy_run L store S w (es @ [e]) w''"

inductive_cases deploy_stepE: "deploy_step L store S w e w'"

lemma authorize_logs:
  assumes "token_pool K" "ledger_inv K h w" "presented_in L S K" "shown S G kwargs w" "plain_store store"
    and "watched_guard store G" "typed_call G sig args kwargs"
  shows "\<exists>h'. prefix h h' \<and> ledger_inv K h' (snd (authorize L G sig args kwargs w))"
proof -
  let ?token = "presented_token (dict_get kwargs (token_kwarg G)) (current_token w)"
  have B: "tracker (bound_boundary G) = Some memory_tracker" "plain_store (revocation_check (bound_boundary G))"
      "quiet_callback (on_decision (bound_boundary G))"
    using assms(5,6) by (simp_all add: watched_guard_def)
  show ?thesis
  proof (cases "py_truth ?token")
    case False
    have "ledger_inv K h (snd (abind (notify (on_decision (guard_boundary G)) (no_token_event G))
        (\<lambda>_. raise (swarm (CapabilityViolationError (Some (capability G)) []))) w))"
      by (rule ledger_inv_quiet [OF quiet.preserving(4) [OF quiet_notify quiet.preserving(3)] assms(2)]) (use B(3) in simp)
    with False show ?thesis by (auto simp: authorize_def Let_def)
  next
    case True
    show ?thesis
    proof (cases "call_params G sig args kwargs")
      case (Inl e)
      with True assms(2) show ?thesis by (auto simp: authorize_def Let_def call_params_def)
    next
      case (Inr params)
      have "\<exists>h'. prefix h h' \<and> ledger_inv K h' (snd (verify_and_check L (bound_boundary G) (call_amount G params) (Some params) ?token w))"
        by (rule verify_and_check_logs [OF assms(1-3) _ B]) (use assms(4) typed_amount [OF assms(7) Inr] in \<open>auto simp: shown_def\<close>)
      then obtain h' where h': "prefix h h'"
          "ledger_inv K h' (snd (verify_and_check L (bound_boundary G) (call_amount G params) (Some params) ?token w))"
        by blast
      have "snd (authorize L G sig args kwargs w) =
          snd (verify_and_check L (bound_boundary G) (call_amount G params) (Some params) ?token w)"
        using True Inr by (simp add: authorize_def Let_def call_params_def call_amount_def abind_run split: sum.split)
      with h' show ?thesis by auto
    qed
  qed
qed

lemma admits_logs:
  assumes "token_pool K" "ledger_inv K h w" "presented_in L S K" "shown S G kwargs w" "plain_store store"
    and "watched_guard store G" "typed_call G sig args kwargs" "reserved_amount G sig args kwargs = Inr f"
    and "admits L G sig args kwargs claims w w'"
  shows "claims \<in> K \<and> (\<exists>h' now chain. ledger_inv K h' w' \<and> h' = h @ [(now, chain, decimal_of_float f)] \<and>
     claims \<in> set chain \<and> (\<forall>p. parent_of L claims = Inr (Some p) \<and> stateful p \<noteq> [] \<longrightarrow> p \<in> set chain))"
proof -
  let ?B = "bound_boundary G" and ?token = "presented_token (dict_get kwargs (token_kwarg G)) (current_token w)"
  have B: "tracker ?B = Some memory_tracker" "plain_store (revocation_check ?B)" "quiet_callback (on_decision ?B)"
    using assms(5,6) by (simp_all add: watched_guard_def)
  from assms(9) B(1) obtain t params w1 w2 parent f' where t: "?token = PStr t"
    and params: "call_params G sig args kwargs = Inr params"
    and keys: "(issuer_public_key ?B = None) \<noteq> (key_registry ?B = None)"
    and acc: "accepts L (issuer_public_key ?B) (key_registry ?B) (revocation_check ?B) (audience ?B) 2 t claims w w1"
    and f': "resolved_amount (call_amount G params) = Inr f'"
    and parent: "parent_of L claims = Inr parent"
    and charged: "charged_to memory_tracker parent claims f' w1 w2"
    and told: "notified (on_decision ?B) (allowed_event ?B claims) w2 w'"
    unfolding admits_def Let_def call_params_def by auto
  have f: "f' = f" using assms(8) params f' by (simp add: reserved_amount_def)
  have run: "verify_value L (issuer_public_key ?B) (key_registry ?B) (revocation_check ?B) (audience ?B) ?token w = (Inr claims, w1)"
    unfolding verify_value_iff using t keys acc by blast
  note inK = verify_value_in [OF assms(3) _ run]
  have shown: "\<forall>t. ?token = PStr t \<longrightarrow> t \<in> S" using assms(4) by (simp add: shown_def)
  have inv1: "ledger_inv K h w1"
    using ledger_inv_quiet [OF quiet_verify_value [OF B(2)] assms(2), of L "issuer_public_key ?B" "key_registry ?B" "audience ?B" ?token] run
    by simp
  have "charge memory_tracker parent claims f w1 = (Inr (), w2)" using charged f by (simp add: charge_iff)
  moreover have "parent = None \<or> (\<exists>p \<in> K. parent = Some p)" using inK(2) [OF shown] parent by (cases parent) auto
  moreover have "binary64 f" using typed_amount [OF assms(7) params] f f' by blast
  ultimately obtain now chain where h': "ledger_inv K (h @ [(now, chain, decimal_of_float f)]) w2"
      "claims \<in> set chain" "\<forall>p. parent = Some p \<and> stateful p \<noteq> [] \<longrightarrow> p \<in> set chain"
    using charge_logs [OF assms(1) inv1 _ inK(1) [OF shown], of f parent "Inr ()" w2] by blast
  moreover have "ledger_inv K (h @ [(now, chain, decimal_of_float f)]) w'"
    using ledger_inv_quiet [OF quiet_notify [OF B(3)] h'(1), of "allowed_event ?B claims"] told [folded notify_iff [where u = "()"]]
    by simp
  ultimately show ?thesis using inK(1) [OF shown] parent by auto
qed


section \<open>Allowances over a run\<close>

definition admitted_under :: "ext_lib \<Rightarrow> capability_claims \<Rightarrow> happening list \<Rightarrow> rat list" where
  \<comment> \<open>the amounts of the calls let through with the token \<open>c\<close> or with one delegated from it\<close>
  "admitted_under L c es =
     concat (List.map (\<lambda>e. case e of Admitted claims a \<Rightarrow> if under L c claims then [a] else [] | _ \<Rightarrow> []) es)"

lemma admitted_under_simps [simp]:
  "admitted_under L c [] = []"
  "admitted_under L c (es @ [e]) = admitted_under L c es @
     (case e of Admitted claims a \<Rightarrow> if under L c claims then [a] else [] | _ \<Rightarrow> [])"
  by (simp_all add: admitted_under_def split: happening.split)

definition accounted :: "ext_lib \<Rightarrow> capability_claims set \<Rightarrow> happening list \<Rightarrow> reservation list \<Rightarrow> bool" where
  \<comment> \<open>every admitted call is in the ledger, charged to its token and to a limited parent\<close>
  "accounted L K es h \<longleftrightarrow>
     (\<forall>c \<in> K. stateful c \<noteq> [] \<longrightarrow>
        int (length (admitted_under L c es)) \<le> calls_of h (jti c) \<and>
        sum_list (admitted_under L c es) \<le> spent_of h (jti c))"

lemma ledger_grows:
  assumes "prefix h h'" "\<forall>(t, chain, a) \<in> set h'. 0 \<le> a"
  shows "calls_of h j \<le> calls_of h' j" "spent_of h j \<le> spent_of h' j"
proof -
  obtain h2 where h': "h' = h @ h2" using assms(1) by (auto simp: prefix_def)
  then show "calls_of h j \<le> calls_of h' j" by (simp add: calls_of_def)
  have "0 \<le> sum_list (List.map (\<lambda>(t, chain, a). a) (filter (charged j) h2))"
    using assms(2) unfolding h' by (intro sum_list_nonneg) fastforce
  with h' show "spent_of h j \<le> spent_of h' j" by (simp add: spent_of_def)
qed

lemma accounted_grows:
  assumes "accounted L K es h" "prefix h h'" "ledger_inv K h' w"
  shows "accounted L K es h'"
  using assms(1) ledger_grows [OF assms(2)] assms(3)
  unfolding accounted_def ledger_inv_def by (meson order_trans)

lemma accounted_admitted:
  assumes "accounted L K es h" "\<forall>p. parent_of L claims = Inr (Some p) \<and> stateful p \<noteq> [] \<longrightarrow> p \<in> set chain"
    and "claims \<in> set chain" "0 \<le> a"
  shows "accounted L K (es @ [Admitted claims a]) (h @ [(now, chain, a)])"
  unfolding accounted_def
proof (intro ballI impI)
  fix c assume c: "c \<in> K" "stateful c \<noteq> []"
  have "under L c claims \<longrightarrow> jti c \<in> jti ` set chain"
    using assms(2,3) c(2) by (auto simp: under_def)
  then show "int (length (admitted_under L c (es @ [Admitted claims a]))) \<le> calls_of (h @ [(now, chain, a)]) (jti c) \<and>
        sum_list (admitted_under L c (es @ [Admitted claims a])) \<le> spent_of (h @ [(now, chain, a)]) (jti c)"
    using assms(1,4) c by (auto simp: accounted_def)
qed

lemma accounted_other:
  "(\<And>claims a. e \<noteq> Admitted claims a) \<Longrightarrow> accounted L K (es @ [e]) h = accounted L K es h"
  by (cases e) (auto simp: accounted_def)

lemma ledger_inv_same:
  assumes "ledger_inv K h w" "clock w' = clock w" "ticks w \<le> ticks w'" "usage w' = usage w"
  shows "ledger_inv K h w'"
  using ledger_inv_quiet [of "\<lambda>w. (Inr (), w\<lparr>clock := clock w', ticks := ticks w', usage := usage w'\<rparr>)"] assms
  unfolding ledger_inv_def by (metis monoD order_trans)

lemma run_ledger:
  assumes "deploy_run L store S w0 es w" "token_pool K" "presented_in L S K" "plain_store store"
    and "mono (clock w0)" "usage w0 = Map.empty"
  shows "\<exists>h. ledger_inv K h w \<and> accounted L K es h"
  using assms(1,5,6)
proof (induction rule: deploy_run.induct)
  case (start w)
  have "ledger_inv K [] w"
    using start memory_usage.rep_init [of K "clock w (ticks w)"]
    by (auto simp: ledger_inv_def ledger_within_def)
  then show ?case by (auto simp: accounted_def)
next
  case (further w es w' e w'')
  then obtain h where h: "ledger_inv K h w'" "accounted L K es h" by blast
  from further.hyps(2) show ?case
  proof cases
    case (admitted G kwargs sig args f claims)
    then obtain now chain where h': "ledger_inv K (h @ [(now, chain, decimal_of_float f)]) w''" "claims \<in> set chain"
        "\<forall>p. parent_of L claims = Inr (Some p) \<and> stateful p \<noteq> [] \<longrightarrow> p \<in> set chain"
      using admits_logs [OF assms(2) h(1) assms(3) _ assms(4)] by blast
    moreover from h'(1) have "0 \<le> decimal_of_float f" by (auto simp: ledger_inv_def)
    ultimately show ?thesis using accounted_admitted [OF h(2)] admitted(1) by blast
  next
    case (refused G kwargs sig args e')
    obtain h' where h': "prefix h h'" "ledger_inv K h' w''"
      using authorize_logs [OF assms(2) h(1) assms(3) refused(3) assms(4) refused(2,4)] refused(5) by auto
    with accounted_grows [OF h(2) h'] refused(1) show ?thesis by (auto simp: accounted_other)
  next
    case (revoked j e')
    then have "ledger_inv K h w''"
      by (intro ledger_inv_same [OF h(1)]) (auto simp: memory_revoke_def abind_run)
    with h(2) revoked(1) show ?thesis by (auto simp: accounted_other)
  next
    case elapsed
    then have "ledger_inv K h w''" by (intro ledger_inv_same [OF h(1)]) auto
    with h(2) elapsed(1) show ?thesis by (auto simp: accounted_other)
  qed
qed

section \<open>Revocation over a run\<close>

lemma tracker_steady: "preserves steady_rel (tracker_record_chain chain amount)"
proof -
  have "preserves steady_rel (\<lambda>w :: 'x usage_world_scheme. case reserve now chain f (usage w) of (r, U) \<Rightarrow> (r, w\<lparr>usage := U\<rparr>))" for now f
    by (simp add: preserves_def steady_rel_def split: prod.split)
  then show ?thesis
    unfolding tracker_record_chain_def by (intro steady.preserving)
qed

lemma watched_guard_confined:
  "watched_guard store G \<Longrightarrow> plain_store store \<Longrightarrow> confined steady_rel (guard_boundary G)"
  using tracker_steady
  by (auto simp: confined_def watched_guard_def plain_store_def quiet_callback_def memory_tracker_def tracker_record_def
      memory_is_revoked_confined intro!: steady.preserving)

definition kept_revoked :: "'x usage_world_scheme \<Rightarrow> 'x usage_world_scheme \<Rightarrow> bool" where
  \<comment> \<open>time may pass, and what is revoked stays revoked\<close>
  "kept_revoked w w' \<longleftrightarrow>
     clock w' = clock w \<and> ticks w \<le> ticks w' \<and>
     (\<forall>j t. clock w (ticks w') \<le> t \<longrightarrow> live t (revoked w j) \<longrightarrow> live t (revoked w' j))"

lemma kept_revoked_trans:
  assumes "kept_revoked w w'" "kept_revoked w' w''" "mono (clock w)"
  shows "kept_revoked w w''"
proof -
  have "clock w (ticks w') \<le> clock w (ticks w'')" using assms by (auto simp: kept_revoked_def mono_def)
  with assms(1,2) show ?thesis unfolding kept_revoked_def by (metis order_trans)
qed

lemma memory_revoke_run:
  "memory_revoke j e w = (Inr (), w\<lparr>ticks := Suc (ticks w),
     revoked := revoke_token (clock w (ticks w)) j e (revoked w)\<rparr>)"
  by (simp add: memory_revoke_def abind_run)

lemma step_keeps:
  assumes "deploy_step L store S w e w'" "plain_store store" "mono (clock w)" "0 \<le> clock w (ticks w)"
  shows "kept_revoked w w'"
  using assms(1)
proof cases
  case (admitted G kwargs sig args f claims)
  then have "authorize L G sig args kwargs w = (Inr (), w')" using authorize_iff by blast
  with steady.authorize_preserves [OF watched_guard_confined [OF admitted(2) assms(2)]]
  have "steady_rel w w'" unfolding preserves_def by (metis snd_conv)
  then show ?thesis using assms(3) by (simp add: steady_rel_def kept_revoked_def)
next
  case (refused G kwargs sig args e')
  with steady.authorize_preserves [OF watched_guard_confined [OF refused(2) assms(2)]]
  have "steady_rel w w'" unfolding preserves_def by (metis snd_conv)
  then show ?thesis using assms(3) by (simp add: steady_rel_def kept_revoked_def)
next
  case (revoked j e')
  have "clock w (ticks w) \<le> clock w (Suc (ticks w))" using assms(3) by (simp add: mono_def)
  with revoked(2) show ?thesis
    using live_revoke_token [OF assms(4), of _ j e']
    by (auto simp: memory_revoke_run kept_revoked_def elim: order_trans)
next
  case elapsed
  then show ?thesis by (simp add: kept_revoked_def)
qed

lemma run_keeps:
  assumes "deploy_run L store S w es w'" "plain_store store" "mono (clock w)" "0 \<le> clock w (ticks w)"
  shows "kept_revoked w w'"
  using assms(1,3,4)
proof (induction rule: deploy_run.induct)
  case (start w)
  then show ?case by (simp add: kept_revoked_def)
next
  case (further w es w' e w'')
  then have k: "kept_revoked w w'" by blast
  then have "mono (clock w')" "clock w (ticks w) \<le> clock w (ticks w')" "clock w' = clock w"
    using further.prems(1) by (auto simp: kept_revoked_def mono_def)
  with further.prems(2) have "kept_revoked w' w''"
    using step_keeps [OF further.hyps(2) assms(2)] by simp
  with k show ?case using kept_revoked_trans further.prems(1) by blast
qed

lemma not_revoked_memory:
  "not_revoked (Some memory_is_revoked) j w w' \<longleftrightarrow>
     \<not> live (clock w (ticks w)) (revoked w j) \<and>
     w' = w\<lparr>ticks := Suc (ticks w), revoked := purge_revoked (clock w (ticks w)) (revoked w)\<rparr>"
  by (auto simp: not_revoked_def memory_is_revoked_run)

lemma accepted_not_live:
  assumes "accepts L pk R (Some memory_is_revoked) aud leeway token claims w w'" "mono (clock w)"
  shows "\<exists>n. ticks w \<le> n \<and> n \<le> ticks w' \<and> clock w' = clock w \<and> \<not> live (clock w n) (revoked w (jti claims))"
    and "parent_of L claims = Inr (Some p) \<Longrightarrow>
       \<exists>n. ticks w \<le> n \<and> n \<le> ticks w' \<and> \<not> live (clock w n) (revoked w (jti p)) \<and> exp_at claims \<le> exp_at p"
proof -
  let ?w1 = "w\<lparr>ticks := Suc (Suc (ticks w)), revoked := purge_revoked (clock w (Suc (ticks w))) (revoked w)\<rparr>"
  have own: "\<not> live (clock w (Suc (ticks w))) (revoked w (jti claims))"
    and w': "prf_token claims = None \<and> w' = ?w1 \<or>
      (\<exists>t parent. prf_token claims = Some t \<and> authentic L pk R False t parent \<and> narrower parent claims \<and>
         \<not> live (clock w (Suc (Suc (Suc (ticks w))))) (revoked ?w1 (jti parent)) \<and>
         ticks w' = Suc (Suc (Suc (Suc (ticks w)))) \<and> clock w' = clock w)"
    using assms(1) by (auto simp: accepts_def core_accepts_def not_revoked_memory split: option.splits)
  then show "\<exists>n. ticks w \<le> n \<and> n \<le> ticks w' \<and> clock w' = clock w \<and> \<not> live (clock w n) (revoked w (jti claims))"
    by (intro exI [of _ "Suc (ticks w)"]) auto
  assume p: "parent_of L claims = Inr (Some p)"
  with w' obtain t parent where t: "prf_token claims = Some t" "authentic L pk R False t parent" "narrower parent claims"
      "\<not> live (clock w (Suc (Suc (Suc (ticks w))))) (revoked ?w1 (jti parent))"
      "ticks w' = Suc (Suc (Suc (Suc (ticks w))))"
    by (auto simp: parent_of_def truthy_def)
  from t(1,2) p have "parent = p"
    using authentic_parse [OF t(2)] by (auto simp: parent_of_def truthy_def py_inv split: if_splits)
  moreover have "clock w (Suc (ticks w)) \<le> clock w (Suc (Suc (Suc (ticks w))))" using assms(2) by (simp add: mono_def)
  ultimately show "\<exists>n. ticks w \<le> n \<and> n \<le> ticks w' \<and> \<not> live (clock w n) (revoked w (jti p)) \<and> exp_at claims \<le> exp_at p"
    using t(3-5) live_purge
    by (intro exI [of _ "Suc (Suc (Suc (ticks w)))"]) (auto simp: narrower_def)
qed

lemma charged_in_time:
  assumes "charged_to memory_tracker parent claims f w w'"
  shows "clock w (ticks w) < of_int (exp_at claims + RETENTION_AFTER_EXP_SECONDS)"
proof -
  obtain chain amount where chain: "tracker_record_chain chain amount w = (Inr (), w')" "claims \<in> set chain"
    using assms by (auto simp: charged_to_def memory_tracker_def tracker_record_def py_inv split: if_splits)
  then obtain g where "fst (reserve (clock w (ticks w)) chain g (usage w)) = Inr ()"
    by (auto simp: tracker_record_chain_def py_inv split_def)
  then have "\<not> list_ex (retention_over (clock w (ticks w))) chain" by (auto simp: reserve_def)
  with chain(2) show ?thesis by (auto simp: list_ex_iff retention_over_def not_le)
qed



lemma run_split:
  assumes "deploy_run L store S w es w'" "e \<in> set es"
  shows "\<exists>es1 v v'. deploy_run L store S w es1 v \<and> deploy_step L store S v e v'"
  using assms by (induction rule: deploy_run.induct) (auto 0 4)

lemma admitted_not_live:
  assumes "deploy_step L (Some memory_is_revoked) S w (Admitted claims a) w'" "mono (clock w)"
  shows "\<exists>t. clock w (ticks w) \<le> t \<and> t < of_int (exp_at claims + RETENTION_AFTER_EXP_SECONDS) \<and>
       \<not> live t (revoked w (jti claims))"
    and "parent_of L claims = Inr (Some p) \<Longrightarrow>
       \<exists>t. clock w (ticks w) \<le> t \<and> t < of_int (exp_at p + RETENTION_AFTER_EXP_SECONDS) \<and>
       \<not> live t (revoked w (jti p))"
proof -
  from assms(1) obtain G where G: "watched_guard (Some memory_is_revoked) G" and
      "\<exists>kwargs sig args. admits L G sig args kwargs claims w w'"
    by cases blast
  then obtain t w1 f parent w2 where acc: "accepts L (issuer_public_key (guard_boundary G)) (key_registry (guard_boundary G))
        (Some memory_is_revoked) (Some (bound_audience G)) 2 t claims w w1"
      and charged: "charged_to memory_tracker parent claims f w1 w2"
    unfolding admits_def Let_def by (auto simp: watched_guard_def)
  note own = accepted_not_live(1) [OF acc assms(2)] and above = accepted_not_live(2) [OF acc assms(2)]
  have mono: "m \<le> n \<Longrightarrow> clock w m \<le> clock w n" for m n using assms(2) by (simp add: mono_def)
  from own obtain n where n: "ticks w \<le> n" "n \<le> ticks w1" "clock w1 = clock w" "\<not> live (clock w n) (revoked w (jti claims))"
    by blast
  have late: "clock w (ticks w1) < of_int (exp_at claims + RETENTION_AFTER_EXP_SECONDS)"
    using charged_in_time [OF charged] n(3) by simp
  show "\<exists>t. clock w (ticks w) \<le> t \<and> t < of_int (exp_at claims + RETENTION_AFTER_EXP_SECONDS) \<and>
       \<not> live t (revoked w (jti claims))"
    using n late mono [OF n(1)] mono [OF n(2)] by (intro exI [of _ "clock w n"]) auto
  assume "parent_of L claims = Inr (Some p)"
  from above [OF this] obtain m where m: "ticks w \<le> m" "m \<le> ticks w1" "\<not> live (clock w m) (revoked w (jti p))"
      "exp_at claims \<le> exp_at p"
    by blast
  moreover have "(of_int (exp_at claims + RETENTION_AFTER_EXP_SECONDS) :: rat) \<le> of_int (exp_at p + RETENTION_AFTER_EXP_SECONDS)"
    using m(4) by simp
  ultimately show "\<exists>t. clock w (ticks w) \<le> t \<and> t < of_int (exp_at p + RETENTION_AFTER_EXP_SECONDS) \<and>
       \<not> live t (revoked w (jti p))"
    using late mono [OF m(1)] mono [OF m(2)] by (intro exI [of _ "clock w m"]) (auto intro: le_less_trans less_le_trans)
qed

lemma revoked_stays_live:
  assumes "memory_revoke j e w = (Inr (), w1)" "deploy_run L store S w1 es w2" "plain_store store"
    and "mono (clock w)" "0 \<le> clock w (ticks w)"
    and "clock w2 (ticks w2) \<le> t" "t < of_int (e + RETENTION_AFTER_EXP_SECONDS)"
  shows "live t (revoked w2 j)"
proof -
  have w1: "clock w1 = clock w" "ticks w1 = Suc (ticks w)" "revoked w1 = revoke_token (clock w (ticks w)) j e (revoked w)"
    using assms(1) by (auto simp: memory_revoke_run)
  have le: "clock w (ticks w) \<le> clock w (Suc (ticks w))" using assms(4) by (simp add: mono_def)
  then have "kept_revoked w1 w2"
    using run_keeps [OF assms(2,3)] assms(4,5) w1(1,2) by simp
  then have k: "clock w2 = clock w" "Suc (ticks w) \<le> ticks w2" "live t (revoked w1 j) \<longrightarrow> live t (revoked w2 j)"
    using assms(6) w1 by (simp_all add: kept_revoked_def)
  have "clock w (Suc (ticks w)) \<le> clock w (ticks w2)" using assms(4) k(2) by (simp add: mono_def)
  then have "clock w (ticks w) \<le> t" using le assms(6) k(1) by simp
  then have "live t (revoked w1 j)"
    using live_revoke_token [OF assms(5), of t j e "revoked w" j] assms(7) w1(3) by simp
  with k(3) show ?thesis by simp
qed

section \<open>A sample process\<close>

definition sample_process :: usage_world where
  "sample_process =
     \<lparr>clock = (\<lambda>i. 105 + of_nat i), ticks = 0, entropy = (\<lambda>i. []), draws = 0, current_token = None,
      revoked = Map.empty, usage = Map.empty\<rparr>"

definition sample_limits :: constraints where
  "sample_limits = no_constraints\<lparr>max_calls := Some 1\<rparr>"

definition sample_once :: capability_claims where
  \<comment> \<open>the claims of a token for one call\<close>
  "sample_once = issued_claims ''a'' ''t'' [''read:*''] sample_limits 10 None (sample_world 100)"

definition sample_once_token :: string where
  "sample_once_token = token_of sample_lib (key_pair_of sample_lib ''sk'') sample_once"

definition sample_guard :: "usage_world guard_config" where
  "sample_guard =
     \<lparr>capability = ''read:x'',
      guard_boundary = \<lparr>issuer_public_key = Some (sample_public ''sk''), key_registry = None,
        revocation_check = Some memory_is_revoked, audience = Some ''t'', required_capability = None,
        tracker = Some memory_tracker, on_decision = None\<rparr>,
      token_kwarg = ''token'', amount_kwarg = None\<rparr>"

lemma sample_once_simps [simp]:
  "jti sample_once = b64url_encode ''r''" "exp_at sample_once = 110" "iat sample_once = 100" "sub sample_once = ''t''"
  "capabilities sample_once = [''read:*'']" "dlg sample_once = None" "prf_token sample_once = None"
  "constraints sample_once = sample_limits" "wire_form sample_once = sample_once"
  by (simp_all add: sample_once_def wire_form_def sample_limits_def no_constraints_def sort_pins_def issued_claims_def)

lemma sample_once_ok: "claims_ok sample_once" "constraints_ok sample_limits" "limits_readable sample_limits"
  by (simp_all add: claims_ok_def timestamp_ok_def MAX_SAFE_INTEGER_def sample_limits_def no_constraints_def
      constraints_ok_def count_limit_ok_def budget_pins_def limits_readable_def sample_once_def)

lemma sample_once_authentic:
  "authentic sample_lib (Some (sample_public ''sk'')) None False sample_once_token sample_once"
  using signed_authentic [OF sample_lib_ok sample_once_ok(1), where pk = "Some (sample_public ''sk'')" and R = None
      and holder = False and sk = "''sk''"]
    sample_once_ok
  by (simp add: trusts_def sample_once_token_def) (simp add: sample_lib_def)

lemma sample_once_parse: "parse sample_lib sample_once_token = Inr (h, c, m) \<Longrightarrow> c = sample_once"
  using authentic_parse [OF sample_once_authentic] by auto

lemma sample_once_in: "presented_in sample_lib {sample_once_token} {sample_once}"
proof -
  have "parent_of sample_lib sample_once = Inr None" by (simp add: parent_of_def truthy_def)
  then show ?thesis by (auto simp: presented_in_def dest: sample_once_parse)
qed

lemma sample_admits:
  fixes w :: usage_world
  assumes "clock w = (\<lambda>i. 105 + of_nat i)" "ticks w \<le> 1" "revoked w (b64url_encode ''r'') = None" "usage w = Map.empty"
  shows "\<exists>w'. admits sample_lib sample_guard [] [] [(''token'', PStr sample_once_token)] sample_once w w'"
proof -
  let ?kwargs = "[(''token'', PStr sample_once_token)]" and ?n = "ticks w"
  let ?w1 = "w\<lparr>ticks := Suc (Suc ?n), revoked := purge_revoked (clock w (Suc ?n)) (revoked w)\<rparr>"
  have now: "py_int (clock w ?n) = 105 + int ?n"
  proof -
    have "clock w ?n = of_int (105 + int ?n)" by (simp add: assms(1))
    then show ?thesis by (simp only: py_int_of_int)
  qed
  have "not_revoked (Some memory_is_revoked) (jti sample_once) (w\<lparr>ticks := Suc ?n\<rparr>) ?w1"
    unfolding not_revoked_memory using assms(3) by (simp add: live_def)
  then have "accepts sample_lib (Some (sample_public ''sk'')) None (Some memory_is_revoked) (Some ''t'') 2
      sample_once_token sample_once w ?w1"
    using sample_once_authentic now assms(2)
    by (simp add: accepts_def core_accepts_def in_lifetime_def MAX_TTL_SECONDS_def)
  moreover have "tracker_record_chain [sample_once] (PFloat (Fin 0)) ?w1 = (Inr (), snd (tracker_record_chain [sample_once] (PFloat (Fin 0)) ?w1))"
  proof -
    have "\<not> retention_over (105 + (2 + of_nat ?n)) sample_once" "\<not> retention_over (107 + of_nat ?n) sample_once"
      using assms(2) by (cases ?n; simp add: retention_over_def limits_defs)+
    then show ?thesis
      using assms(1,4)
      by (simp add: tracker_record_chain_def validated_amount_def chain_ids_ok_def abind_run reserve_def purge_expired_def
          check_usage_def usage_get_def new_usage_def sample_limits_def no_constraints_def split: prod.split)
  qed
  moreover have "grants [''read:*''] ''read:x''"
  proof -
    have "capability_covered ''read:x'' [''read:*'']" by code_simp
    then show ?thesis by (simp only: capability_covered_iff)
  qed
  moreover have "sample_once_token \<noteq> []" by (simp add: sample_once_token_def token_of_def signing_input_of_def)
  ultimately have "admits sample_lib sample_guard [] [] ?kwargs sample_once w
      (snd (tracker_record_chain [sample_once] (PFloat (Fin 0)) ?w1))"
    unfolding admits_def Let_def
    by (intro exI [of _ sample_once_token] exI [of _ "[]"] exI [of _ ?w1]
          exI [of _ "snd (tracker_record_chain [sample_once] (PFloat (Fin 0)) ?w1)"])
       (simp add: sample_guard_def bound_audience_def presented_token_def dict_get_def py_truth_def
        bound_call_params_def sig_bind_def call_within_def call_amount_def truthy_def resolved_amount_def parent_of_def
        charged_to_def notified_def stateful_def sample_limits_def no_constraints_def)
  then show ?thesis by blast
qed

lemma sample_admitted:
  fixes w :: usage_world
  assumes "clock w = (\<lambda>i. 105 + of_nat i)" "ticks w \<le> 1" "revoked w (b64url_encode ''r'') = None" "usage w = Map.empty"
  shows "\<exists>w'. deploy_step sample_lib (Some memory_is_revoked) {sample_once_token} w (Admitted sample_once 0) w'"
proof -
  obtain w' where admitted_call: "admits sample_lib sample_guard [] [] [(''token'', PStr sample_once_token)] sample_once w w'"
    using sample_admits [OF assms] by blast
  have "sample_once_token \<noteq> []" by (simp add: sample_once_token_def token_of_def signing_input_of_def)
  with admitted_call have "deploy_step sample_lib (Some memory_is_revoked) {sample_once_token} w
      (Admitted sample_once (decimal_of_float (Fin 0))) w'"
    by (intro admitted [rotated 4])
       (auto simp: py_truth_def sample_guard_def watched_guard_def quiet_callback_def shown_def presented_token_def dict_get_def
        typed_call_def call_params_def call_amount_def truthy_def reserved_amount_def bound_call_params_def sig_bind_def
        resolved_amount_def)
  then show ?thesis by (auto simp: decimal_of_float_def repr_value_def)
qed

section \<open>A window without a tracker\<close>

text \<open>
  \<open>revocation_holds\<close> needs the tracker: \<open>verify\<close> reads the clock for the lifetime check and the store
  reads it again to purge. When the first reading is just before \<open>exp + 3\<close> and the second is not, the store
  has forgotten the revocation while the token still passes.
\<close>

definition window_world :: usage_world where
  "window_world = sample_process\<lparr>clock := (\<lambda>i. if i = 0 then 225 / 2 else 113),
     revoked := [b64url_encode ''r'' \<mapsto> 113]\<rparr>"

lemma revocation_window:
  "\<exists>w'. verify sample_lib (Some (sample_public ''sk'')) None (Some memory_is_revoked) (Some ''t'') (PInt 2)
     sample_once_token window_world = (Inr sample_once, w')"
proof -
  have now: "py_int (225 / 2) = 112" by code_simp
  have "\<exists>w'. not_revoked (Some memory_is_revoked) (jti sample_once) (window_world\<lparr>ticks := Suc (ticks window_world)\<rparr>) w'"
    unfolding not_revoked_memory by (simp add: live_def window_world_def sample_process_def)
  then have "\<exists>w'. accepts sample_lib (Some (sample_public ''sk'')) None (Some memory_is_revoked) (Some ''t'') 2
      sample_once_token sample_once window_world w'"
    using sample_once_authentic now
    by (auto simp: accepts_def core_accepts_def in_lifetime_def MAX_TTL_SECONDS_def window_world_def sample_process_def)
  then show ?thesis by (auto simp: verify_iff leeway_of_def MAX_LEEWAY_SECONDS_def)
qed

section \<open>Properties\<close>

text \<open>C18. Allowances hold across a whole process. However guards, revocations, refusals and time are
  interleaved, the calls let through under a token, with the token itself or with tokens delegated from
  it, are never more than its \<open>max_calls\<close>, and the exact decimal sum of their amounts never exceeds its
  \<open>max_amount_usd\<close>.\<close>

theorem call_allowance:
  assumes "deploy_run L store S w0 es w" "plain_store store" "token_pool K" "presented_in L S K"
    and "mono (clock w0)" "usage w0 = Map.empty" "c \<in> K"
  shows "admitted_under L c es = [] \<or>
     pred_option (\<lambda>n. int (length (admitted_under L c es)) \<le> n) (max_calls (constraints c)) \<and>
     pred_option (\<lambda>f. sum_list (admitted_under L c es) \<le> decimal_of_float f) (max_amount_usd (constraints c))"
proof (cases "stateful c = []")
  case True
  then show ?thesis by (auto simp: stateful_def split: if_splits)
next
  case False
  obtain h where h: "ledger_inv K h w" "accounted L K es h"
    using run_ledger [OF assms(1,3,4,2,5,6)] by blast
  then have bounds: "int (length (admitted_under L c es)) \<le> calls_of h (jti c)"
      "sum_list (admitted_under L c es) \<le> spent_of h (jti c)"
    using assms(7) False by (auto simp: accounted_def)
  have "calls_of h (jti c) = 0 \<or>
      pred_option (\<lambda>n. calls_of h (jti c) \<le> n) (max_calls (constraints c)) \<and>
      pred_option (\<lambda>f. spent_of h (jti c) \<le> decimal_of_float f) (max_amount_usd (constraints c))"
    using h(1) assms(7) by (auto simp: ledger_inv_def ledger_within_def)
  with bounds show ?thesis by (auto simp: option.pred_set)
qed

theorem call_allowance_witness:
  "\<exists>w. deploy_run sample_lib (Some memory_is_revoked) {sample_once_token} sample_process [Admitted sample_once 0] w \<and>
     length (admitted_under sample_lib sample_once [Admitted sample_once 0]) = 1 \<and>
     int (length (admitted_under sample_lib sample_once [Admitted sample_once 0])) \<le> 1"
proof -
  obtain w where "deploy_step sample_lib (Some memory_is_revoked) {sample_once_token} sample_process (Admitted sample_once 0) w"
    using sample_admitted [of sample_process] by (auto simp: sample_process_def)
  then have run: "deploy_run sample_lib (Some memory_is_revoked) {sample_once_token} sample_process ([] @ [Admitted sample_once 0]) w"
    by (intro further [OF start])
  have pool: "token_pool {sample_once}"
    by (simp add: token_pool_def sample_limits_def no_constraints_def)
  have "mono (clock sample_process)" "usage sample_process = Map.empty"
    by (simp_all add: sample_process_def mono_def)
  from call_allowance [OF run _ pool sample_once_in this] run show ?thesis
    by (auto simp: plain_store_def admitted_under_def under_def sample_limits_def)
qed

text \<open>C19. Revocation is final for tracked guards. Once a token id is revoked with an expiry not before that of
  its token, no guard of the process that asks the store and reserves with the process's \<open>UsageTracker\<close> (the guards
  \<open>deploy_step\<close> admits, \<open>watched_guard\<close>) ever lets a call through with that token, or with a token delegated from it,
  in any later run. The tracker is needed: without it the token can still pass in the fraction of a second in which the
  store forgets it (\<open>revocation_window\<close>).\<close>

theorem revocation_holds:
  assumes "memory_revoke j e w = (Inr (), w1)" "deploy_run L (Some memory_is_revoked) S w1 es w2"
    and "mono (clock w)" "0 \<le> clock w (ticks w)" "Admitted claims a \<in> set es"
    and "c = claims \<or> parent_of L claims = Inr (Some c)"
  shows "\<not> (jti c = j \<and> exp_at c \<le> e)"
proof
  assume c: "jti c = j \<and> exp_at c \<le> e"
  obtain es1 v v' where v: "deploy_run L (Some memory_is_revoked) S w1 es1 v"
      "deploy_step L (Some memory_is_revoked) S v (Admitted claims a) v'"
    using run_split [OF assms(2,5)] by blast
  have w1: "clock w1 = clock w" "ticks w1 = Suc (ticks w)" using assms(1) by (auto simp: memory_revoke_run)
  have store: "plain_store (Some memory_is_revoked)" by (simp add: plain_store_def)
  have "clock w (ticks w) \<le> clock w (Suc (ticks w))" using assms(3) by (simp add: mono_def)
  then have "clock v = clock w"
    using run_keeps [OF v(1) store] assms(3,4) w1 by (simp add: kept_revoked_def)
  then obtain t where t: "clock v (ticks v) \<le> t" "t < of_int (exp_at c + RETENTION_AFTER_EXP_SECONDS)"
      "\<not> live t (revoked v (jti c))"
    using admitted_not_live [OF v(2)] assms(3,6) by auto
  from t(2) c have "t < of_int (e + RETENTION_AFTER_EXP_SECONDS)"
    by (auto elim: less_le_trans)
  with revoked_stays_live [OF assms(1) v(1) store assms(3,4) t(1)] t(3) c show False by blast
qed


theorem revocation_holds_witness:
  "\<exists>w w'. deploy_run sample_lib (Some memory_is_revoked) {sample_once_token} w [Admitted sample_once 0] w' \<and>
     memory_revoke ''other'' 200 sample_process = (Inr (), w) \<and>
     \<not> (jti sample_once = ''other'' \<and> exp_at sample_once \<le> 200)"
proof -
  let ?w = "sample_process\<lparr>ticks := 1, revoked := revoke_token 105 ''other'' 200 Map.empty\<rparr>"
  have revoke: "memory_revoke ''other'' 200 sample_process = (Inr (), ?w)"
    by (simp add: memory_revoke_run) (simp add: sample_process_def)
  have "length (b64url_encode ''r'') \<noteq> length ''other''" by simp
  then have "b64url_encode ''r'' \<noteq> ''other''" by metis
  then have "revoked ?w (b64url_encode ''r'') = None"
    by (simp add: revoke_token_def purge_revoked_def limits_defs)
  then obtain w' where "deploy_step sample_lib (Some memory_is_revoked) {sample_once_token} ?w (Admitted sample_once 0) w'"
    using sample_admitted [of ?w] by (auto simp: sample_process_def)
  then have run: "deploy_run sample_lib (Some memory_is_revoked) {sample_once_token} ?w ([] @ [Admitted sample_once 0]) w'"
    by (intro further [OF start])
  have "mono (clock sample_process)" "0 \<le> clock sample_process (ticks sample_process)"
    by (simp_all add: sample_process_def mono_def)
  from revocation_holds [OF revoke run this, of sample_once 0 sample_once] run revoke show ?thesis by auto
qed

end
