(* ===== verification/Decimals.thy ===== *)
theory Decimals
  imports JsonRoundTrip
begin

text \<open>
  The text forms the ledgers keep outside a Python object: \<open>_decimal_text\<close> of
  \<open>swarmauth/middleware.py\<close> for exact sums, and \<open>json.dumps\<close> with the options the ledgers use. Both
  are read back exactly: a decimal sum survives any number of writes and reads, and two different
  ledger accounts never share a key.
\<close>

section \<open>Decimal text\<close>

definition decimal_places :: "rat \<Rightarrow> nat" where
  \<comment> \<open>the digits after the point that \<open>r\<close> needs; sums of binary64 decimals need at most 374\<close>
  "decimal_places r = (case find (\<lambda>k. is_integer (r * 10 ^ k)) [0..<1500] of Some k \<Rightarrow> k | None \<Rightarrow> 0)"

definition decimal_text :: "rat \<Rightarrow> string" where
  \<comment> \<open>\<open>format(value, "f")\<close> of a non-negative decimal, without trailing zeros after the point\<close>
  "decimal_text r =
     (let k = decimal_places r;
          digits = int_digits \<lfloor>r * 10 ^ k\<rfloor>;
          ds = zeros (int k + 1 - int (length digits)) @ digits;
          n = length ds - k
      in if k = 0 then ds else take n ds @ ''.'' @ drop n ds)"

definition decimal_value :: "string \<Rightarrow> rat" where
  \<comment> \<open>\<open>Decimal(text)\<close> of such a text\<close>
  "decimal_value s =
     (let ip = takeWhile is_digit s;
          fd = (case dropWhile is_digit s of [] \<Rightarrow> [] | _ # f \<Rightarrow> f)
      in of_int (digits_val (ip @ fd)) / 10 ^ length fd)"

lemma decimal_places_finds:
  assumes "is_integer (r * 10 ^ k)" "k < 1500"
  shows "is_integer (r * 10 ^ decimal_places r)"
proof -
  have "find (\<lambda>k. is_integer (r * 10 ^ k)) [0..<1500] \<noteq> None"
    using assms by (auto simp: find_None_iff)
  then obtain i where "find (\<lambda>k. is_integer (r * 10 ^ k)) [0..<1500] = Some i" by blast
  moreover from this have "is_integer (r * 10 ^ i)" by (auto simp: find_Some_iff)
  ultimately show ?thesis by (simp add: decimal_places_def)
qed

lemma decimal_places_integer:
  assumes "on_grid (- 374) r"
  shows "is_integer (r * 10 ^ decimal_places r)"
proof -
  define k :: nat where "k = 374"
  obtain a where "r = of_int a * 10 powi (- int k)" using assms by (auto simp: on_grid_iff k_def)
  then have "r * 10 ^ k = of_int a" by (simp add: power_int_minus field_simps)
  then have "is_integer (r * 10 ^ k)" by (simp add: is_integer_def)
  then show ?thesis by (rule decimal_places_finds) (simp add: k_def)
qed

lemma no_digit_point: "\<not> is_digit CHR ''.''"
  by code_simp

lemma decimal_round_trip:
  assumes "0 \<le> r" "on_grid (- 374) r"
  shows "decimal_value (decimal_text r) = r"
proof -
  define k where "k = decimal_places r"
  define ds where "ds = zeros (int k + 1 - int (length (int_digits \<lfloor>r * 10 ^ k\<rfloor>))) @ int_digits \<lfloor>r * 10 ^ k\<rfloor>"
  define n where "n = length ds - k"
  have "0 \<le> \<lfloor>r * 10 ^ k\<rfloor>" using assms(1) by simp
  note f = int_digits_facts [OF this]
  have r: "r * 10 ^ k = of_int \<lfloor>r * 10 ^ k\<rfloor>"
    using decimal_places_integer [OF assms(2)] by (simp add: is_integer_def k_def)
  have ds: "list_all is_digit ds" "digits_val ds = \<lfloor>r * 10 ^ k\<rfloor>" "k < length ds"
  proof -
    show "list_all is_digit ds" "digits_val ds = \<lfloor>r * 10 ^ k\<rfloor>"
      using f by (simp_all add: ds_def digits_val_zeros)
    show "k < length ds" by (simp add: ds_def zeros_def)
  qed
  then have drop: "length (drop n ds) = k" by (simp add: n_def)
  have digits: "list_all is_digit (take n ds)" "list_all is_digit (drop n ds)"
    using ds(1) by (auto simp: list_all_iff dest: in_set_takeD in_set_dropD)
  have shown: "decimal_text r = (if k = 0 then ds else take n ds @ ''.'' @ drop n ds)"
    by (simp add: decimal_text_def Let_def k_def ds_def n_def)
  have span: "takeWhile is_digit (us @ CHR ''.'' # bs) = us" "dropWhile is_digit (us @ CHR ''.'' # bs) = CHR ''.'' # bs"
    if "list_all is_digit us" for us bs
    using that no_digit_point by (simp_all add: list_all_iff takeWhile_append dropWhile_append)
  have "decimal_value (decimal_text r) = of_int (digits_val ds) / 10 ^ k"
  proof (cases "k = 0")
    case True
    have tw: "takeWhile is_digit ds = ds" "dropWhile is_digit ds = []"
      using ds(1) by (simp_all add: list_all_iff)
    show ?thesis
      using True shown by (simp add: decimal_value_def Let_def tw)
  next
    case False
    then show ?thesis
      using shown span [OF digits(1)] drop by (simp add: decimal_value_def Let_def)
  qed
  with ds(2) r show ?thesis by (simp add: field_simps)
qed

section \<open>Keys of ledger accounts\<close>

definition raw_escape :: "char \<Rightarrow> string" where
  \<comment> \<open>\<open>ensure_ascii=False\<close> writes DEL and the characters above ASCII as they are\<close>
  "raw_escape c = (if (of_char c :: int) < 127 then json_escape c else [c])"

definition raw_string :: "string \<Rightarrow> string" where
  "raw_string s = [quote] @ concat (List.map raw_escape s) @ [quote]"

definition account_key :: "string \<Rightarrow> string \<Rightarrow> string" where
  \<comment> \<open>\<open>json.dumps([kind, name], ensure_ascii=False, separators=(",", ":"))\<close>\<close>
  "account_key kind name = ''['' @ raw_string kind @ '','' @ raw_string name @ '']''"

lemma scan_raw_string: "scan_string (concat (List.map raw_escape s) @ quote # r) = Some (s, r)"
proof (induction s)
  case (Cons c s)
  show ?case
  proof (cases "(of_char c :: int) < 127")
    case True
    with Cons show ?thesis by (simp add: raw_escape_def scan_string_escape del: scan_string.simps(2))
  next
    case False
    have "(of_char quote :: int) < 127" "(of_char backslash :: int) < 127" by code_simp+
    with False have "c \<noteq> quote" "c \<noteq> backslash" by auto
    with False Cons show ?thesis by (simp add: raw_escape_def)
  qed
qed simp

lemma account_key_inj: "account_key kind name = account_key kind' name' \<longleftrightarrow> kind = kind' \<and> name = name'"
proof
  assume eq: "account_key kind name = account_key kind' name'"
  let ?r = "\<lambda>name. '','' @ raw_string name @ '']''"
  have "concat (List.map raw_escape kind) @ quote # ?r name = concat (List.map raw_escape kind') @ quote # ?r name'"
    using eq by (simp add: account_key_def raw_string_def)
  then have "Some (kind, ?r name) = Some (kind', ?r name')"
    by (metis scan_raw_string)
  then have "kind = kind'" and "concat (List.map raw_escape name) @ quote # '']'' = concat (List.map raw_escape name') @ quote # '']''"
    by (simp_all add: raw_string_def)
  then have "Some (name, '']'') = Some (name', '']'')"
    by (metis scan_raw_string)
  with \<open>kind = kind'\<close> show "kind = kind' \<and> name = name'" by simp
qed simp

end
