(* ===== verification/Budgets.thy ===== *)
theory Budgets
  imports Usage Policy Decimals
begin

text \<open>
  \<open>swarmauth/budgets.py\<close>: the trusted rules of shared budgets and \<open>BudgetUsageTracker\<close>, which
  reserves the allowance of every token of a chain and of its shared budget together. An \<open>account\<close>
  is the code's \<open>_Record\<close>, an \<open>entry\<close> the dictionary it keeps for a key.

  The tracker is another interpretation of \<open>usage_backend\<close>: it gives the verdicts of the ledger of
  accepted reservations, where the ledger also asks for room in the shared budget.
\<close>

abbreviation budget_violation :: exc where
  \<comment> \<open>\<open>_deny\<close>\<close>
  "budget_violation \<equiv> constraint_violation ''shared_budget''"

section \<open>Rules\<close>

record budget_rule =
  rule_id :: string
  rule_issuers :: "string list"
  rule_currency :: string
  max_amount_minor :: int
  rule_expires_at :: int
  rule_max_calls :: "int option"

definition safe_between :: "int \<Rightarrow> pyval \<Rightarrow> int result" where
  \<comment> \<open>\<open>type(v) is int\<close> and from \<open>lo\<close> to \<open>2**53 - 1\<close>\<close>
  "safe_between lo v =
     (case v of PInt n \<Rightarrow> if lo \<le> n \<and> n \<le> MAX_SAFE_INTEGER then Inr n else Inl ValueError
      | _ \<Rightarrow> Inl ValueError)"

definition make_budget_rule ::
  "pyval \<Rightarrow> pyval \<Rightarrow> pyval \<Rightarrow> pyval \<Rightarrow> pyval \<Rightarrow> pyval \<Rightarrow> budget_rule result" where
  \<comment> \<open>\<open>BudgetRule.__post_init__\<close>\<close>
  "make_budget_rule ident issuers currency max_minor expires calls =
     rbind (nonempty_string ident) (\<lambda>name.
     rbind (ensure (py_truth issuers) ValueError) (\<lambda>_.
     rbind (py_tuple issuers) (\<lambda>raw.
     rbind (traverse nonempty_string raw) (\<lambda>trusted.
     rbind (if currency_code currency then nonempty_string currency else Inl ValueError) (\<lambda>cur.
     rbind (safe_between 0 max_minor) (\<lambda>maximum.
     rbind (safe_between 1 expires) (\<lambda>expiry.
     rbind (case calls of PNone \<Rightarrow> Inr None | _ \<Rightarrow> rbind (safe_between 1 calls) (\<lambda>n. Inr (Some n))) (\<lambda>count.
     Inr \<lparr>rule_id = name, rule_issuers = trusted, rule_currency = cur, max_amount_minor = maximum,
       rule_expires_at = expiry, rule_max_calls = count\<rparr>))))))))"

definition rule_wf :: "budget_rule \<Rightarrow> bool" where
  "rule_wf r \<longleftrightarrow>
     rule_id r \<noteq> [] \<and> rule_issuers r \<noteq> [] \<and> list_all (\<lambda>i. i \<noteq> []) (rule_issuers r) \<and>
     currency_code (PStr (rule_currency r)) \<and>
     0 \<le> max_amount_minor r \<and> max_amount_minor r \<le> MAX_SAFE_INTEGER \<and>
     1 \<le> rule_expires_at r \<and> rule_expires_at r \<le> MAX_SAFE_INTEGER \<and>
     pred_option (\<lambda>n. 1 \<le> n \<and> n \<le> MAX_SAFE_INTEGER) (rule_max_calls r)"

lemma safe_between_eq_Inr [py_inv]:
  "safe_between lo v = Inr n \<longleftrightarrow> v = PInt n \<and> lo \<le> n \<and> n \<le> MAX_SAFE_INTEGER"
  by (cases v) (auto simp: safe_between_def)

lemma nonempty_string_eq_Inr [py_inv]: "nonempty_string v = Inr s \<longleftrightarrow> v = PStr s \<and> s \<noteq> []"
  by (cases v) (auto simp: nonempty_string_def)

section \<open>The tracker\<close>

record budget_config =
  rules :: "(string \<times> budget_rule) list"
  require_budget :: bool

definition make_budget_tracker :: "budget_rule list \<Rightarrow> bool \<Rightarrow> budget_config result" where
  \<comment> \<open>\<open>BudgetUsageTracker.__init__\<close>\<close>
  "make_budget_tracker rs require =
     (let d = fold (\<lambda>r. AList.update (rule_id r) r) rs []
      in rbind (ensure (length d = length rs) ValueError) (\<lambda>_.
         Inr \<lparr>rules = d, require_budget = require\<rparr>))"

record account =
  acct_key :: string
  acct_expiry :: int
  acct_calls :: "int option"
  acct_usd :: "pyfloat option"
  acct_rate :: "int option"
  acct_minor_limit :: "int option"
  acct_minor :: int

record entry =
  entry_calls :: int
  entry_usd :: string
  entry_minor :: int
  entry_stamps :: "rat list"
  entry_expiry :: int

definition no_entry :: entry where
  \<comment> \<open>\<open>{}\<close>, whose fields take the defaults of \<open>current.get(\<dots>)\<close>\<close>
  "no_entry = \<lparr>entry_calls = 0, entry_usd = ''0'', entry_minor = 0, entry_stamps = [], entry_expiry = 0\<rparr>"

definition token_account :: "capability_claims \<Rightarrow> account" where
  "token_account c =
     (let limits = constraints c
      in \<lparr>acct_key = account_key ''token'' (jti c), acct_expiry = exp_at c + RETENTION_AFTER_EXP_SECONDS,
          acct_calls = max_calls limits, acct_usd = max_amount_usd limits,
          acct_rate = rate_limit_per_min limits, acct_minor_limit = None, acct_minor = 0\<rparr>)"

definition budget_account :: "budget_rule \<Rightarrow> int \<Rightarrow> account" where
  "budget_account rule minor =
     \<lparr>acct_key = account_key ''budget'' (rule_id rule), acct_expiry = rule_expires_at rule,
      acct_calls = rule_max_calls rule, acct_usd = None, acct_rate = None,
      acct_minor_limit = Some (max_amount_minor rule), acct_minor = minor\<rparr>"

definition shared_account :: "budget_config \<Rightarrow> rat \<Rightarrow> capability_claims list \<Rightarrow> account list result" where
  \<comment> \<open>the record of the shared budget the last token of the chain names, if any\<close>
  "shared_account B now chain =
     (let limits = constraints (last chain); pins = allowed_params limits
      in case shared_budget limits of
           None \<Rightarrow> if require_budget B then Inl budget_violation else Inr []
         | Some b \<Rightarrow>
             rbind (of_option budget_violation (map_of (rules B) b)) (\<lambda>rule.
             rbind (ensure (iss (hd chain) \<in> set (rule_issuers rule)) budget_violation) (\<lambda>_.
             rbind (ensure (now < of_int (rule_expires_at rule)) budget_violation) (\<lambda>_.
             rbind (of_option budget_violation (safe_minor (dict_get pins ''amount_minor''))) (\<lambda>minor.
             rbind (ensure (py_eq (dict_get pins ''currency'') (PStr (rule_currency rule))) budget_violation) (\<lambda>_.
             Inr [budget_account rule minor]))))))"

definition records_of :: "budget_config \<Rightarrow> rat \<Rightarrow> capability_claims list \<Rightarrow> account list result" where
  \<comment> \<open>\<open>_records\<close>\<close>
  "records_of B now chain =
     rbind (ensure (chain_ids_ok chain) budget_violation) (\<lambda>_.
     rbind (traverse (\<lambda>c. rbind (ensure (\<not> retention_over now c) (swarm TokenExpiredError)) (\<lambda>_.
              Inr (token_account c))) chain) (\<lambda>tokens.
     rbind (shared_account B now chain) (\<lambda>shared.
     Inr (tokens @ shared))))"

definition pending :: "rat \<Rightarrow> pyfloat \<Rightarrow> account \<Rightarrow> entry \<Rightarrow> entry result" where
  \<comment> \<open>\<open>_pending\<close>\<close>
  "pending now amount r current =
     (let calls = entry_calls current + 1;
          total = decimal_sum (decimal_value (entry_usd current)) amount;
          minor = entry_minor current + acct_minor r;
          recent = recent_calls now (entry_stamps current)
      in rbind (ensure (pred_option (\<lambda>n. calls \<le> n) (acct_calls r)) budget_violation) (\<lambda>_.
         rbind (ensure (pred_option (\<lambda>f. total \<le> decimal_of_float f) (acct_usd r)) budget_violation) (\<lambda>_.
         rbind (ensure (pred_option (\<lambda>n. int (length recent) + 1 \<le> n) (acct_rate r)) budget_violation) (\<lambda>_.
         rbind (ensure (pred_option (\<lambda>n. minor \<le> n) (acct_minor_limit r)) budget_violation) (\<lambda>_.
         Inr \<lparr>entry_calls = calls, entry_usd = decimal_text total, entry_minor = minor,
           entry_stamps = (if acct_rate r = None then [] else recent @ [now]),
           entry_expiry = acct_expiry r\<rparr>)))))"

type_synonym entries = "string \<rightharpoonup> entry"

definition entry_get :: "entries \<Rightarrow> string \<Rightarrow> entry" where
  "entry_get E k = (case E k of None \<Rightarrow> no_entry | Some e \<Rightarrow> e)"

definition purge_entries :: "rat \<Rightarrow> entries \<Rightarrow> entries" where
  "purge_entries now E = (\<lambda>k. case E k of None \<Rightarrow> None | Some e \<Rightarrow> if now < of_int (entry_expiry e) then Some e else None)"

definition update_all :: "(string \<times> entry) list \<Rightarrow> entries \<Rightarrow> entries" where
  "update_all ps E = fold (\<lambda>(k, e) E. E(k \<mapsto> e)) ps E"

definition budget_reserve ::
  "budget_config \<Rightarrow> rat \<Rightarrow> capability_claims list \<Rightarrow> pyfloat \<Rightarrow> entries \<Rightarrow> unit result \<times> entries" where
  \<comment> \<open>what \<open>check_and_record_chain\<close> does under its lock, after reading the clock\<close>
  "budget_reserve B now chain amount E =
     (case rbind (records_of B now chain) (\<lambda>accounts.
           traverse (\<lambda>r. rbind (pending now amount r (entry_get E (acct_key r))) (\<lambda>e. Inr (acct_key r, e))) accounts) of
        Inl e \<Rightarrow> (Inl e, E)
      | Inr ps \<Rightarrow> (Inr (), update_all ps (purge_entries now E)))"

record budget_world = store_world +
  entries :: entries

definition budget_record_chain ::
  "budget_config \<Rightarrow> capability_claims list \<Rightarrow> pyval \<Rightarrow> ('x budget_world_scheme, unit) py" where
  \<comment> \<open>\<open>BudgetUsageTracker.check_and_record_chain\<close>\<close>
  "budget_record_chain B chain amount =
     abind (lift (validated_amount amount)) (\<lambda>amount.
     abind time_time (\<lambda>now w.
       case budget_reserve B now chain amount (entries w) of (r, E) \<Rightarrow> (r, w\<lparr>entries := E\<rparr>)))"

definition budget_record :: "budget_config \<Rightarrow> capability_claims \<Rightarrow> pyval \<Rightarrow> ('x budget_world_scheme, unit) py" where
  \<comment> \<open>\<open>BudgetUsageTracker.check_and_record\<close>\<close>
  "budget_record B claims amount = budget_record_chain B [claims] amount"

lemma py_tuple_nonempty: "py_tuple v = Inr xs \<Longrightarrow> py_truth v \<Longrightarrow> xs \<noteq> []"
  by (cases v) (auto simp: py_tuple_def py_truth_def)

lemma optional_count_eq_Inr:
  "(case v of PNone \<Rightarrow> Inr None | _ \<Rightarrow> rbind (safe_between 1 v) (\<lambda>n. Inr (Some n))) = Inr c \<Longrightarrow>
     pred_option (\<lambda>n. 1 \<le> n \<and> n \<le> MAX_SAFE_INTEGER) c"
  by (cases v) (auto simp: py_inv)

lemma make_budget_tracker_iff:
  "make_budget_tracker rs require = Inr B \<longleftrightarrow>
     distinct (List.map rule_id rs) \<and> B = \<lparr>rules = List.map (\<lambda>r. (rule_id r, r)) rs, require_budget = require\<rparr>"
  using dict_of_list [of rule_id rs "[]"] by (auto simp: make_budget_tracker_def Let_def py_inv)

section \<open>An entry and the charges behind it\<close>

text \<open>A charge to an account: its instant, its amount in USD and its amount in minor units.\<close>

type_synonym posting = "rat \<times> rat \<times> int"

abbreviation total_usd :: "posting list \<Rightarrow> rat" where
  "total_usd cs \<equiv> sum_list (List.map (\<lambda>(t, a, m). a) cs)"

abbreviation total_minor :: "posting list \<Rightarrow> int" where
  "total_minor cs \<equiv> sum_list (List.map (\<lambda>(t, a, m). m) cs)"

definition room :: "account \<Rightarrow> posting list \<Rightarrow> rat \<Rightarrow> rat \<Rightarrow> bool" where
  \<comment> \<open>one more charge at \<open>now\<close> of amount \<open>a\<close> is within the limits of the account\<close>
  "room r cs now a \<longleftrightarrow>
     pred_option (\<lambda>n. int (length cs) + 1 \<le> n) (acct_calls r) \<and>
     pred_option (\<lambda>f. total_usd cs + a \<le> decimal_of_float f) (acct_usd r) \<and>
     pred_option (\<lambda>n. int (length (recent_calls now (List.map fst cs))) + 1 \<le> n) (acct_rate r) \<and>
     pred_option (\<lambda>n. total_minor cs + acct_minor r \<le> n) (acct_minor_limit r)"

definition entry_matches :: "rat \<Rightarrow> account \<Rightarrow> posting list \<Rightarrow> entry \<Rightarrow> bool" where
  "entry_matches t r cs e \<longleftrightarrow>
     entry_calls e = int (length cs) \<and>
     (acct_usd r \<noteq> None \<longrightarrow>
        decimal_value (entry_usd e) = total_usd cs \<and> 0 \<le> total_usd cs \<and>
        total_usd cs < decimal_limit \<and> on_grid (- 374) (total_usd cs)) \<and>
     entry_minor e = total_minor cs \<and>
     (acct_rate r \<noteq> None \<longrightarrow> (\<forall>s \<ge> t. recent_calls s (entry_stamps e) = recent_calls s (List.map fst cs)))"

definition usd_limit_ok :: "account \<Rightarrow> bool" where
  "usd_limit_ok r \<longleftrightarrow> pred_option (\<lambda>f. \<exists>x. f = Fin x \<and> double_range x) (acct_usd r)"

lemma no_entry_matches: "entry_matches t r [] no_entry"
proof -
  have "decimal_value ''0'' = 0" by code_simp
  then show ?thesis by (simp add: entry_matches_def no_entry_def recent_calls_def decimal_limit_pos)
qed

lemma entry_matches_later: "entry_matches t r cs e \<Longrightarrow> t \<le> now \<Longrightarrow> entry_matches now r cs e"
  by (auto simp: entry_matches_def)

lemma entry_total:
  assumes "entry_matches t r cs e" "acct_usd r \<noteq> None" "amount_ok f"
  shows "decimal_sum (decimal_value (entry_usd e)) f = total_usd cs + decimal_of_float f"
  using assms decimal_sum_exact by (auto simp: entry_matches_def amount_ok_def decimal_of_float_def)

lemma pending_room:
  assumes "entry_matches now r cs e" "amount_ok f"
  shows "pending now f r e = Inr e' \<longrightarrow> room r cs now (decimal_of_float f)"
    and "room r cs now (decimal_of_float f) \<Longrightarrow> \<exists>e'. pending now f r e = Inr e'"
proof -
  have usd: "pred_option (\<lambda>g. decimal_sum (decimal_value (entry_usd e)) f \<le> decimal_of_float g) (acct_usd r)
      \<longleftrightarrow> pred_option (\<lambda>g. total_usd cs + decimal_of_float f \<le> decimal_of_float g) (acct_usd r)"
    using entry_total [OF assms(1) _ assms(2)] by (cases "acct_usd r") auto
  have rate: "pred_option (\<lambda>n. int (length (recent_calls now (entry_stamps e))) + 1 \<le> n) (acct_rate r)
      \<longleftrightarrow> pred_option (\<lambda>n. int (length (recent_calls now (List.map fst cs))) + 1 \<le> n) (acct_rate r)"
    using assms(1) by (cases "acct_rate r") (auto simp: entry_matches_def)
  have rest: "entry_calls e = int (length cs)" "entry_minor e = total_minor cs"
    using assms(1) by (simp_all add: entry_matches_def)
  show "pending now f r e = Inr e' \<longrightarrow> room r cs now (decimal_of_float f)"
    and "room r cs now (decimal_of_float f) \<Longrightarrow> \<exists>e'. pending now f r e = Inr e'"
    by (auto simp: pending_def room_def Let_def usd rate rest rbind_eq_Inr ensure_eq_Inr)
qed

lemma pending_matches:
  assumes "entry_matches now r cs e" "amount_ok f" "usd_limit_ok r" "pending now f r e = Inr e'"
  shows "entry_matches now r (cs @ [(now, decimal_of_float f, acct_minor r)]) e'"
    and "entry_expiry e' = acct_expiry r"
proof -
  have within: "room r cs now (decimal_of_float f)"
    using pending_room(1) [OF assms(1,2)] assms(4) by blast
  let ?s = "total_usd cs + decimal_of_float f"
  have e': "e' = \<lparr>entry_calls = entry_calls e + 1,
      entry_usd = decimal_text (decimal_sum (decimal_value (entry_usd e)) f),
      entry_minor = entry_minor e + acct_minor r,
      entry_stamps = (if acct_rate r = None then [] else recent_calls now (entry_stamps e) @ [now]),
      entry_expiry = acct_expiry r\<rparr>"
    using assms(4) by (auto simp: pending_def Let_def py_inv)
  then show "entry_expiry e' = acct_expiry r" by simp
  have usd: "decimal_value (entry_usd e') = ?s \<and> 0 \<le> ?s \<and> ?s < decimal_limit \<and> on_grid (- 374) ?s"
    if m: "acct_usd r \<noteq> None"
  proof -
    obtain x where f: "f = Fin x" "0 \<le> x" "double_range x"
      using assms(2) by (auto simp: amount_ok_def)
    obtain y where y: "acct_usd r = Some (Fin y)" "double_range y"
      using m assms(3) by (auto simp: usd_limit_ok_def)
    have "?s \<le> repr_value y"
      using within y by (simp add: room_def decimal_of_float_def)
    then have "?s < decimal_limit"
      using repr_value_bound [OF y(2)] by linarith
    moreover have s: "0 \<le> ?s" "on_grid (- 374) ?s"
      using f assms(1) m repr_value_nonneg [OF f(2)] repr_value_grid [OF f(3)]
      by (auto simp: entry_matches_def decimal_of_float_def intro: on_grid_add)
    ultimately show ?thesis
      using decimal_round_trip [OF s] entry_total [OF assms(1) m assms(2)] by (simp add: e')
  qed
  have rate: "\<forall>s \<ge> now. recent_calls s (entry_stamps e') = recent_calls s (List.map fst cs @ [now])"
    if "acct_rate r \<noteq> None"
    using assms(1) that by (auto simp: e' entry_matches_def recent_calls_append recent_calls_later)
  have calls: "entry_calls e' = int (length cs) + 1" "entry_minor e' = total_minor cs + acct_minor r"
    using assms(1) by (simp_all add: e' entry_matches_def)
  show "entry_matches now r (cs @ [(now, decimal_of_float f, acct_minor r)]) e'"
    unfolding entry_matches_def using usd rate calls by simp
qed

section \<open>The ledger with shared budgets\<close>

definition token_charges :: "reservation list \<Rightarrow> string \<Rightarrow> posting list" where
  "token_charges h j = List.map (\<lambda>(t, chain, a). (t, a, 0)) (filter (charged j) h)"

definition charged_minor :: "capability_claims list \<Rightarrow> int" where
  \<comment> \<open>the amount the last token of the chain pins\<close>
  "charged_minor chain =
     (case safe_minor (dict_get (allowed_params (constraints (last chain))) ''amount_minor'') of None \<Rightarrow> 0 | Some n \<Rightarrow> n)"

definition charges_budget :: "string \<Rightarrow> reservation \<Rightarrow> bool" where
  "charges_budget b r = (case r of (t, chain, a) \<Rightarrow> shared_budget (constraints (last chain)) = Some b)"

definition budget_charges :: "reservation list \<Rightarrow> string \<Rightarrow> posting list" where
  "budget_charges h b = List.map (\<lambda>(t, chain, a). (t, a, charged_minor chain)) (filter (charges_budget b) h)"

definition budget_admits :: "budget_config \<Rightarrow> admission" where
  "budget_admits B h now chain \<longleftrightarrow>
     (case shared_budget (constraints (last chain)) of
        None \<Rightarrow> \<not> require_budget B
      | Some b \<Rightarrow>
          (case map_of (rules B) b of
             None \<Rightarrow> False
           | Some rule \<Rightarrow>
               let pins = allowed_params (constraints (last chain))
               in iss (hd chain) \<in> set (rule_issuers rule) \<and>
                  now < of_int (rule_expires_at rule) \<and>
                  safe_minor (dict_get pins ''amount_minor'') \<noteq> None \<and>
                  py_eq (dict_get pins ''currency'') (PStr (rule_currency rule)) \<and>
                  pred_option (\<lambda>n. int (length (budget_charges h b)) + 1 \<le> n) (rule_max_calls rule) \<and>
                  total_minor (budget_charges h b) + charged_minor chain \<le> max_amount_minor rule))"

lemma token_charges_totals:
  "int (length (token_charges h j)) = calls_of h j" "total_usd (token_charges h j) = spent_of h j"
  "List.map fst (token_charges h j) = times_of h j" "total_minor (token_charges h j) = 0"
  by (induction h) (auto simp: token_charges_def calls_of_def spent_of_def times_of_def)

lemma allows_room:
  "allows h now a c \<longleftrightarrow> \<not> retention_over now c \<and> room (token_account c) (token_charges h (jti c)) now a"
  by (auto simp: allows_def retention_over_def room_def token_account_def Let_def token_charges_totals)

lemma token_charges_snoc:
  "token_charges (h @ [(t, chain, a)]) j = token_charges h j @ (if j \<in> jti ` set chain then [(t, a, 0)] else [])"
  by (simp add: token_charges_def charged_def)

lemma budget_charges_snoc:
  "budget_charges (h @ [(t, chain, a)]) b =
     budget_charges h b @ (if shared_budget (constraints (last chain)) = Some b then [(t, a, charged_minor chain)] else [])"
  by (simp add: budget_charges_def charges_budget_def)

section \<open>The tracker keeps the contract of a usage backend\<close>

definition slot_rep :: "rat \<Rightarrow> account \<Rightarrow> posting list \<Rightarrow> entry option \<Rightarrow> bool" where
  \<comment> \<open>what the tracker may hold for an account that had the charges \<open>cs\<close>\<close>
  "slot_rep t r cs slot \<longleftrightarrow>
     (case slot of
        None \<Rightarrow> cs = [] \<or> of_int (acct_expiry r) \<le> t
      | Some e \<Rightarrow> entry_matches t r cs e \<and> entry_expiry e = acct_expiry r)"

definition budget_rep ::
  "budget_config \<Rightarrow> capability_claims set \<Rightarrow> rat \<Rightarrow> reservation list \<Rightarrow> entries \<Rightarrow> bool" where
  "budget_rep B K t h E \<longleftrightarrow>
     (\<forall>c \<in> K. slot_rep t (token_account c) (token_charges h (jti c)) (E (account_key ''token'' (jti c)))) \<and>
     (\<forall>b r. map_of (rules B) b = Some r \<longrightarrow>
        slot_rep t (budget_account r 0) (budget_charges h b) (E (account_key ''budget'' b)))"

abbreviation configured :: "budget_rule list \<Rightarrow> bool \<Rightarrow> budget_config" where
  "configured rs require \<equiv> \<lparr>rules = List.map (\<lambda>r. (rule_id r, r)) rs, require_budget = require\<rparr>"

definition keyed :: "budget_config \<Rightarrow> bool" where
  \<comment> \<open>every rule is stored under its own id\<close>
  "keyed B \<longleftrightarrow> (\<forall>b r. map_of (rules B) b = Some r \<longrightarrow> rule_id r = b)"

lemma configured_keyed: "keyed (configured rs require)"
  by (auto simp: keyed_def dest: map_of_SomeD)

lemma account_fields [simp]:
  "acct_key (token_account c) = account_key ''token'' (jti c)"
  "acct_expiry (token_account c) = exp_at c + RETENTION_AFTER_EXP_SECONDS"
  "acct_minor (token_account c) = 0"
  "acct_key (budget_account r m) = account_key ''budget'' (rule_id r)"
  "acct_expiry (budget_account r m) = rule_expires_at r"
  "acct_minor (budget_account r m) = m"
  by (simp_all add: token_account_def budget_account_def Let_def)

lemma slot_rep_minor: "slot_rep t (budget_account r m) cs slot = slot_rep t (budget_account r 0) cs slot"
  by (cases slot) (simp_all add: slot_rep_def entry_matches_def budget_account_def)

lemma slot_rep_purge:
  assumes "slot_rep t r cs (E k)" "t \<le> now"
  shows "slot_rep now r cs (E k)" "slot_rep now r cs (purge_entries now E k)"
  using assms by (auto simp: slot_rep_def purge_entries_def intro: entry_matches_later split: option.splits)

lemma slot_get:
  assumes "slot_rep now r cs (E (acct_key r))" "now < of_int (acct_expiry r)"
  shows "entry_matches now r cs (entry_get E (acct_key r))"
  using assms no_entry_matches by (auto simp: slot_rep_def entry_get_def split: option.splits)

lemma update_all_distinct:
  assumes "distinct (List.map fst ps)"
  shows "update_all ps E = E ++ map_of ps"
  using assms
proof (induction ps arbitrary: E)
  case (Cons p ps)
  then have "map_of ps (fst p) = None" by (simp add: map_of_eq_None_iff)
  with Cons show ?case
    by (cases p) (auto simp: update_all_def fun_eq_iff map_add_def split: option.split)
qed (simp add: update_all_def)

definition posted :: "rat \<Rightarrow> rat \<Rightarrow> account \<times> posting list \<Rightarrow> string \<times> entry \<Rightarrow> bool" where
  \<comment> \<open>the entry written for an account charged once more\<close>
  "posted now a slot p \<longleftrightarrow>
     (case (slot, p) of ((r, cs), (k, e)) \<Rightarrow>
        k = acct_key r \<and> room r cs now a \<and> slot_rep now r (cs @ [(now, a, acct_minor r)]) (Some e))"

lemma post_all:
  assumes "\<And>r cs. (r, cs) \<in> set slots \<Longrightarrow> entry_matches now r cs (entry_get E (acct_key r)) \<and> usd_limit_ok r"
    and "amount_ok f"
  defines "post \<equiv> \<lambda>r. rbind (pending now f r (entry_get E (acct_key r))) (\<lambda>e. Inr (acct_key r, e))"
  shows "traverse post (List.map fst slots) = Inr ps \<Longrightarrow> list_all2 (posted now (decimal_of_float f)) slots ps"
    and "(\<And>r cs. (r, cs) \<in> set slots \<Longrightarrow> room r cs now (decimal_of_float f)) \<Longrightarrow> \<exists>ps. traverse post (List.map fst slots) = Inr ps"
proof -
  show "list_all2 (posted now (decimal_of_float f)) slots ps" if "traverse post (List.map fst slots) = Inr ps"
  proof -
    have "posted now (decimal_of_float f) (r, cs) p" if m: "(r, cs) \<in> set slots" and p: "post r = Inr p" for r cs p
    proof -
      obtain e where e: "pending now f r (entry_get E (acct_key r)) = Inr e" "p = (acct_key r, e)"
        using p by (auto simp: post_def py_inv)
      note before = assms(1) [OF m]
      show ?thesis
        using pending_room(1) [of now r cs, OF _ assms(2)] pending_matches [of now r cs, OF _ assms(2) _ e(1)] before e
        by (auto simp: posted_def slot_rep_def)
    qed
    moreover have "list_all2 (\<lambda>s p. post (fst s) = Inr p) slots ps"
      using that by (simp add: traverse_eq_Inr list_all2_map1)
    ultimately show ?thesis
      by (elim list.rel_mono_strong) (metis prod.collapse)
  qed
  show "\<exists>ps. traverse post (List.map fst slots) = Inr ps" if room: "\<And>r cs. (r, cs) \<in> set slots \<Longrightarrow> room r cs now (decimal_of_float f)"
    using assms(1) room
  proof (induction slots)
    case (Cons s slots)
    obtain r cs where s: "s = (r, cs)" by (cases s)
    with Cons.prems have "\<exists>e. pending now f r (entry_get E (acct_key r)) = Inr e"
      by (intro pending_room(2) [of now r cs, OF _ assms(2)]) auto
    moreover have "\<exists>ps. traverse post (List.map fst slots) = Inr ps"
      using Cons by auto
    ultimately show ?case by (auto simp: s post_def)
  qed simp
qed

lemma posted_lookup:
  assumes "list_all2 (posted now a) slots ps" "distinct (List.map (acct_key \<circ> fst) slots)"
  shows "(r, cs) \<in> set slots \<Longrightarrow> slot_rep now r (cs @ [(now, a, acct_minor r)]) (update_all ps E (acct_key r))"
    and "k \<notin> (acct_key \<circ> fst) ` set slots \<Longrightarrow> update_all ps E k = E k"
proof -
  have keys: "List.map fst ps = List.map (acct_key \<circ> fst) slots"
  proof -
    have "list_all2 (\<lambda>s p. fst p = acct_key (fst s)) slots ps"
      using assms(1) by (elim list_all2_mono) (simp add: posted_def split_def)
    then show ?thesis by (induction rule: list_all2_induct) auto
  qed
  then have update: "update_all ps E = E ++ map_of ps"
    using assms(2) by (intro update_all_distinct) simp
  show "slot_rep now r (cs @ [(now, a, acct_minor r)]) (update_all ps E (acct_key r))" if mem: "(r, cs) \<in> set slots"
  proof -
    obtain p where "p \<in> set ps" "posted now a (r, cs) p"
      using list_all2_mem [OF assms(1) mem] by blast
    then obtain k e where p: "(k, e) \<in> set ps" "posted now a (r, cs) (k, e)"
      by (metis prod.collapse)
    have "map_of ps k = Some e"
      using keys assms(2) p(1) by (intro map_of_is_SomeI) simp_all
    with p(2) show ?thesis
      by (simp add: posted_def update)
  qed
  show "update_all ps E k = E k" if "k \<notin> (acct_key \<circ> fst) ` set slots"
  proof -
    have "k \<notin> set (List.map fst ps)" using that keys by simp
    then show ?thesis by (simp add: update map_add_def map_of_eq_None_iff [THEN iffD2])
  qed
qed

lemma shared_account_cases:
  "shared_account B now chain = Inr s \<longleftrightarrow>
     (case shared_budget (constraints (last chain)) of
        None \<Rightarrow> \<not> require_budget B \<and> s = []
      | Some b \<Rightarrow> \<exists>r. map_of (rules B) b = Some r \<and> iss (hd chain) \<in> set (rule_issuers r) \<and>
          now < of_int (rule_expires_at r) \<and>
          safe_minor (dict_get (allowed_params (constraints (last chain))) ''amount_minor'') \<noteq> None \<and>
          py_eq (dict_get (allowed_params (constraints (last chain))) ''currency'') (PStr (rule_currency r)) \<and>
          s = [budget_account r (charged_minor chain)])"
  by (auto simp: shared_account_def charged_minor_def Let_def py_inv split: option.splits)

lemma records_of_iff:
  "records_of B now chain = Inr rs \<longleftrightarrow>
     chain_ids_ok chain \<and> \<not> list_ex (retention_over now) chain \<and>
     (\<exists>s. shared_account B now chain = Inr s \<and> rs = List.map token_account chain @ s)"
proof -
  have "traverse (\<lambda>c. rbind (ensure (\<not> retention_over now c) (swarm TokenExpiredError)) (\<lambda>_. Inr (token_account c))) cs = Inr ts
      \<longleftrightarrow> \<not> list_ex (retention_over now) cs \<and> ts = List.map token_account cs" for cs ts
    by (induction cs arbitrary: ts) (auto simp del: traverse_eq_Inr simp: rbind_eq_Inr ensure_eq_Inr)
  then show ?thesis
    by (auto simp del: traverse_eq_Inr simp: records_of_def rbind_eq_Inr ensure_eq_Inr)
qed

definition slots_of :: "reservation list \<Rightarrow> capability_claims list \<Rightarrow> account list \<Rightarrow> (account \<times> posting list) list" where
  \<comment> \<open>the accounts a chain charges, with their charges so far\<close>
  "slots_of h chain s =
     List.map (\<lambda>c. (token_account c, token_charges h (jti c))) chain @
     List.map (\<lambda>r. (r, budget_charges h (the (shared_budget (constraints (last chain)))))) s"

lemma slots_accounts: "List.map fst (slots_of h chain s) = List.map token_account chain @ s"
  by (simp add: slots_of_def o_def)

text \<open>
  What holds of every account with its charges: the accounts a chain charges move on, the others stay.
\<close>

definition all_slots ::
  "budget_config \<Rightarrow> capability_claims set \<Rightarrow> reservation list \<Rightarrow> (account \<Rightarrow> posting list \<Rightarrow> bool) \<Rightarrow> bool" where
  "all_slots B K h P \<longleftrightarrow>
     (\<forall>c \<in> K. P (token_account c) (token_charges h (jti c))) \<and>
     (\<forall>b r. map_of (rules B) b = Some r \<longrightarrow> P (budget_account r 0) (budget_charges h b))"

definition account_keys :: "budget_config \<Rightarrow> capability_claims set \<Rightarrow> string set" where
  "account_keys B K =
     account_key ''token'' ` jti ` K \<union> account_key ''budget'' ` dom (map_of (rules B))"

lemma budget_rep_slots:
  assumes "keyed B"
  shows "budget_rep B K t h E \<longleftrightarrow> all_slots B K h (\<lambda>r cs. slot_rep t r cs (E (acct_key r)))"
  using assms by (simp add: budget_rep_def all_slots_def keyed_def)

lemma slots_in_keys:
  assumes "keyed B" "set chain \<subseteq> K" "shared_account B now chain = Inr s" "(r, cs) \<in> set (slots_of h chain s)"
  shows "acct_key r \<in> account_keys B K"
  using assms by (auto simp: slots_of_def account_keys_def shared_account_cases keyed_def dom_def split: option.splits)

lemma all_slots_mem:
  assumes "keyed B" "all_slots B K h P" "set chain \<subseteq> K" "shared_account B now chain = Inr s"
    and "(r, cs) \<in> set (slots_of h chain s)" "\<And>r m cs. P (budget_account r m) cs = P (budget_account r 0) cs"
  shows "P r cs"
  using assms(2-5) assms(6) [of _ "charged_minor chain"]
  by (auto simp: slots_of_def all_slots_def shared_account_cases split: option.splits)

lemma slots_live:
  assumes "token_pool K" "set chain \<subseteq> K" "\<not> list_ex (retention_over now) chain"
    and "shared_account B now chain = Inr s" "(r, cs) \<in> set (slots_of h chain s)"
  shows "now < of_int (acct_expiry r) \<and> usd_limit_ok r"
proof -
  have "now < of_int (exp_at c + RETENTION_AFTER_EXP_SECONDS) \<and> usd_limit_ok (token_account c)" if "c \<in> set chain" for c
    using assms(1-3) that by (cases "max_amount_usd (constraints c)")
      (auto simp: list_ex_iff retention_over_def token_pool_def usd_limit_ok_def token_account_def Let_def)
  moreover have "now < of_int (acct_expiry r) \<and> usd_limit_ok r" if "r \<in> set s"
    using assms(4) that by (auto simp: shared_account_cases usd_limit_ok_def budget_account_def split: option.splits)
  ultimately show ?thesis using assms(5) by (auto simp: slots_of_def)
qed

lemma slots_ready:
  assumes "keyed B" "token_pool K" "budget_rep B K t h E" "t \<le> now" "set chain \<subseteq> K"
    and "\<not> list_ex (retention_over now) chain" "shared_account B now chain = Inr s"
    and "(r, cs) \<in> set (slots_of h chain s)"
  shows "entry_matches now r cs (entry_get E (acct_key r)) \<and> usd_limit_ok r"
proof -
  have "slot_rep t (budget_account r m) cs (E (acct_key (budget_account r m))) =
      slot_rep t (budget_account r 0) cs (E (acct_key (budget_account r 0)))" for r m cs
    by simp (rule slot_rep_minor)
  with all_slots_mem [OF assms(1) assms(3) [unfolded budget_rep_slots [OF assms(1)]] assms(5,7,8)]
  have "slot_rep t r cs (E (acct_key r))" by simp
  then show ?thesis
    using slots_live [OF assms(2,5-8)] slot_get slot_rep_purge(1) [of t r cs E "acct_key r" now] assms(4) by blast
qed

lemma budget_room:
  "room (budget_account r m) cs now a \<longleftrightarrow>
     pred_option (\<lambda>n. int (length cs) + 1 \<le> n) (rule_max_calls r) \<and> total_minor cs + m \<le> max_amount_minor r"
  by (simp add: room_def budget_account_def)

lemma slots_keys_distinct:
  assumes "chain_ids_ok chain" "shared_account B now chain = Inr s"
  shows "distinct (List.map (acct_key \<circ> fst) (slots_of h chain s))"
proof -
  have "distinct (List.map (\<lambda>c. account_key ''token'' (jti c)) chain)"
    using assms(1) by (auto simp: chain_ids_ok_def distinct_map inj_on_def account_key_inj)
  moreover have "s = [] \<or> (\<exists>r m. s = [budget_account r m])"
    using assms(2) by (auto simp: shared_account_cases split: option.splits)
  ultimately show ?thesis
    by (auto simp: slots_of_def o_def account_key_inj)
qed

lemma admitted_slots:
  "(\<exists>s. shared_account B now chain = Inr s \<and> (\<forall>(r, cs) \<in> set (slots_of h chain s). room r cs now a)) \<and>
     \<not> list_ex (retention_over now) chain \<longleftrightarrow>
   budget_admits B h now chain \<and> list_all (allows h now a) chain"
proof -
  have tokens: "list_all (allows h now a) chain \<longleftrightarrow>
      \<not> list_ex (retention_over now) chain \<and> (\<forall>c \<in> set chain. room (token_account c) (token_charges h (jti c)) now a)"
    by (auto simp: allows_room list_all_iff list_ex_iff)
  have shared: "(\<exists>s. shared_account B now chain = Inr s \<and>
      (\<forall>r \<in> set s. room r (budget_charges h (the (shared_budget (constraints (last chain))))) now a)) \<longleftrightarrow>
      budget_admits B h now chain"
    by (auto simp: shared_account_cases budget_admits_def budget_room Let_def split: option.split)
  show ?thesis unfolding tokens shared [symmetric] slots_of_def by auto
qed

lemma budget_reserve_cases:
  assumes "keyed B" "token_pool K" "budget_rep B K t h E" "t \<le> now" "request_ok K (chain, f)"
  obtains (accepted) s ps where "budget_admits B h now chain" "list_all (allows h now (decimal_of_float f)) chain"
      "shared_account B now chain = Inr s"
      "list_all2 (posted now (decimal_of_float f)) (slots_of h chain s) ps"
      "budget_reserve B now chain f E = (Inr (), update_all ps (purge_entries now E))"
    | (rejected) e where "\<not> (budget_admits B h now chain \<and> list_all (allows h now (decimal_of_float f)) chain)"
      "budget_reserve B now chain f E = (Inl e, E)"
proof -
  define post where "post = (\<lambda>r. rbind (pending now f r (entry_get E (acct_key r))) (\<lambda>e. Inr (acct_key r, e)))"
  have ok: "set chain \<subseteq> K" "chain_ids_ok chain" "amount_ok f"
    using assms(5) by (auto simp: request_ok_def)
  have run: "budget_reserve B now chain f E = (case rbind (records_of B now chain) (traverse post) of
      Inl e \<Rightarrow> (Inl e, E) | Inr ps \<Rightarrow> (Inr (), update_all ps (purge_entries now E)))"
    by (simp add: budget_reserve_def post_def)
  show thesis
  proof (cases "rbind (records_of B now chain) (traverse post)")
    case (Inr ps)
    then obtain s where s: "\<not> list_ex (retention_over now) chain" "shared_account B now chain = Inr s"
        "traverse post (List.map fst (slots_of h chain s)) = Inr ps"
      by (auto simp del: traverse_eq_Inr simp: rbind_eq_Inr records_of_iff slots_accounts)
    note ready = slots_ready [OF assms(1-4) ok(1) s(1,2)]
    have posted: "list_all2 (posted now (decimal_of_float f)) (slots_of h chain s) ps"
      using s(3) unfolding post_def by (intro post_all(1) [OF ready ok(3)])
    have "room r cs now (decimal_of_float f)" if "(r, cs) \<in> set (slots_of h chain s)" for r cs
      using list_all2_mem [OF posted that] by (auto simp: posted_def)
    then have "budget_admits B h now chain \<and> list_all (allows h now (decimal_of_float f)) chain"
      using s by (subst admitted_slots [symmetric]) auto
    then show thesis using accepted [of s ps] s(2) posted run Inr by simp
  next
    case (Inl e)
    have "\<not> (budget_admits B h now chain \<and> list_all (allows h now (decimal_of_float f)) chain)"
    proof
      assume "budget_admits B h now chain \<and> list_all (allows h now (decimal_of_float f)) chain"
      then obtain s where s: "\<not> list_ex (retention_over now) chain" "shared_account B now chain = Inr s"
          "\<And>r cs. (r, cs) \<in> set (slots_of h chain s) \<Longrightarrow> room r cs now (decimal_of_float f)"
        unfolding admitted_slots [symmetric] by auto
      obtain ps where "traverse post (List.map fst (slots_of h chain s)) = Inr ps"
        using post_all(2) [OF slots_ready [OF assms(1-4) ok(1) s(1,2)] ok(3) s(3)] unfolding post_def by blast
      moreover have "records_of B now chain = Inr (List.map fst (slots_of h chain s))"
        using s(1,2) ok(2) by (auto simp: records_of_iff slots_accounts)
      ultimately show False using Inl by simp
    qed
    then show thesis using rejected [of e] run Inl by simp
  qed
qed

lemma budget_rep_later:
  assumes "budget_rep B K t h E" "t \<le> now"
  shows "budget_rep B K now h E" "budget_rep B K now h (purge_entries now E)"
  using assms slot_rep_purge unfolding budget_rep_def by blast+

lemma all_slots_post:
  assumes "keyed B" "token_pool K" "set chain \<subseteq> K" "all_slots B K h P" "shared_account B now chain = Inr s"
    and charged: "\<And>r cs. (r, cs) \<in> set (slots_of h chain s) \<Longrightarrow> P' r (cs @ [(now, a, acct_minor r)])"
    and others: "\<And>r cs. P r cs \<Longrightarrow> acct_key r \<in> account_keys B K \<Longrightarrow> acct_key r \<notin> (acct_key \<circ> fst) ` set (slots_of h chain s) \<Longrightarrow> P' r cs"
    and minor: "\<And>r m cs. P' (budget_account r m) cs = P' (budget_account r 0) cs"
  shows "all_slots B K (h @ [(now, chain, a)]) P'"
  unfolding all_slots_def
proof (intro conjI ballI allI impI)
  have shared: "s = [] \<and> shared_budget (constraints (last chain)) = None \<or>
      (\<exists>b r. s = [budget_account r (charged_minor chain)] \<and> shared_budget (constraints (last chain)) = Some b \<and>
         map_of (rules B) b = Some r \<and> rule_id r = b)"
    using assms(1,5) by (auto simp: shared_account_cases keyed_def split: option.splits)
  show "P' (token_account c) (token_charges (h @ [(now, chain, a)]) (jti c))" if c: "c \<in> K" for c
  proof (cases "jti c \<in> jti ` set chain")
    case True
    with c assms(2,3) have "c \<in> set chain" by (auto simp: token_pool_def dest: inj_onD)
    then have "(token_account c, token_charges h (jti c)) \<in> set (slots_of h chain s)"
      by (simp add: slots_of_def)
    from charged [OF this] True show ?thesis by (simp add: token_charges_snoc)
  next
    case False
    then have "account_key ''token'' (jti c) \<notin> (acct_key \<circ> fst) ` set (slots_of h chain s)"
      using shared by (auto simp: slots_of_def account_key_inj)
    with False c assms(4) others show ?thesis
      by (simp add: token_charges_snoc all_slots_def account_keys_def)
  qed
  show "P' (budget_account r 0) (budget_charges (h @ [(now, chain, a)]) b)" if r: "map_of (rules B) b = Some r" for b r
  proof (cases "shared_budget (constraints (last chain)) = Some b")
    case True
    with shared r have "(budget_account r (charged_minor chain), budget_charges h b) \<in> set (slots_of h chain s)"
      by (auto simp: slots_of_def)
    from charged [OF this] True show ?thesis
      by (simp add: budget_charges_snoc minor [of _ "charged_minor chain"])
  next
    case False
    have id: "rule_id r = b" using assms(1) r by (simp add: keyed_def)
    with False have "account_key ''budget'' (rule_id r) \<notin> (acct_key \<circ> fst) ` set (slots_of h chain s)"
      using shared by (auto simp: slots_of_def account_key_inj)
    moreover have "account_key ''budget'' (rule_id r) \<in> account_keys B K"
      using r id by (auto simp: account_keys_def)
    ultimately show ?thesis
      using False r assms(4) others [of "budget_account r 0"] by (simp add: budget_charges_snoc all_slots_def)
  qed
qed

lemma budget_rep_post:
  assumes "keyed B" "token_pool K" "budget_rep B K now h E" "request_ok K (chain, f)"
    and "shared_account B now chain = Inr s" "list_all2 (posted now a) (slots_of h chain s) ps"
  shows "budget_rep B K now (h @ [(now, chain, a)]) (update_all ps E)"
proof -
  have ok: "set chain \<subseteq> K" "chain_ids_ok chain"
    using assms(4) by (auto simp: request_ok_def)
  note lookup = posted_lookup [OF assms(6) slots_keys_distinct [OF ok(2) assms(5)]]
  show ?thesis unfolding budget_rep_slots [OF assms(1)]
    by (rule all_slots_post [OF assms(1,2) ok(1) assms(3) [unfolded budget_rep_slots [OF assms(1)]] assms(5)])
       (simp_all add: lookup, rule slot_rep_minor)
qed

interpretation budgets: usage_backend Map.empty "budget_reserve (configured rs require)"
    "budget_rep (configured rs require)" "budget_admits (configured rs require)" for rs require
proof unfold_locales
  fix K t
  show "budget_rep (configured rs require) K t [] Map.empty"
    by (simp add: budget_rep_def slot_rep_def token_charges_def budget_charges_def)
next
  fix K t h E now chain f
  let ?B = "configured rs require"
  assume a: "token_pool K" "budget_rep ?B K t h E" "t \<le> now" "request_ok K (chain, f)"
  note run = budget_reserve_cases [OF configured_keyed a]
  show "budget_rep ?B K now (ledger_step (budget_admits ?B) (ledger_request (now, chain, f)) h) (snd (budget_reserve ?B now chain f E))"
  proof (cases rule: run)
    case (1 s ps)
    from budget_rep_post [OF configured_keyed a(1) budget_rep_later(2) [OF a(2,3)] a(4) 1(3,4)] 1
    show ?thesis by (simp add: ledger_step_def ledger_request_def)
  next
    case (2 e)
    with budget_rep_later(1) [OF a(2,3)] show ?thesis
      by (auto simp: ledger_step_def ledger_request_def)
  qed
  show "fst (budget_reserve ?B now chain f E) = Inr () \<longleftrightarrow>
      budget_admits ?B h now chain \<and> list_all (allows h now (decimal_of_float f)) chain"
    by (cases rule: run) auto
qed

section \<open>What a shared budget guarantees\<close>

definition budget_within :: "budget_config \<Rightarrow> reservation list \<Rightarrow> bool" where
  \<comment> \<open>every charge to a budget is the rule's to allow, and their totals are within its allowances\<close>
  "budget_within B h \<longleftrightarrow>
     (\<forall>b r. map_of (rules B) b = Some r \<longrightarrow>
        total_minor (budget_charges h b) \<le> max_amount_minor r \<and>
        pred_option (\<lambda>n. int (length (budget_charges h b)) \<le> n) (rule_max_calls r) \<and>
        (\<forall>(t, chain, a) \<in> set h. charges_budget b (t, chain, a) \<longrightarrow>
           iss (hd chain) \<in> set (rule_issuers r) \<and> t < of_int (rule_expires_at r) \<and>
           dict_get (allowed_params (constraints (last chain))) ''currency'' = PStr (rule_currency r)))"

definition rules_wf :: "budget_config \<Rightarrow> bool" where
  "rules_wf B \<longleftrightarrow> (\<forall>b r. map_of (rules B) b = Some r \<longrightarrow> rule_wf r)"

lemma ledger_step_budget:
  assumes "budget_within B h"
  shows "budget_within B (ledger_step (budget_admits B) (now, chain, a) h)"
proof (cases "budget_admits B h now chain \<and> list_all (allows h now a) chain")
  case True
  then have admitted: "budget_admits B h now chain" by simp
  have "total_minor (budget_charges (h @ [(now, chain, a)]) b) \<le> max_amount_minor r \<and>
      pred_option (\<lambda>n. int (length (budget_charges (h @ [(now, chain, a)]) b)) \<le> n) (rule_max_calls r)"
    if r: "map_of (rules B) b = Some r" for b r
  proof (cases "shared_budget (constraints (last chain)) = Some b")
    case True
    with admitted r show ?thesis
      by (cases "rule_max_calls r") (simp_all add: budget_admits_def budget_charges_snoc Let_def)
  next
    case False
    with assms r show ?thesis by (simp add: budget_within_def budget_charges_snoc)
  qed
  moreover have "iss (hd chain) \<in> set (rule_issuers r) \<and> now < of_int (rule_expires_at r) \<and>
      dict_get (allowed_params (constraints (last chain))) ''currency'' = PStr (rule_currency r)"
    if "map_of (rules B) b = Some r" "charges_budget b (now, chain, a)" for b r
    using admitted that by (simp add: budget_admits_def charges_budget_def Let_def)
  ultimately show ?thesis
    using True assms unfolding ledger_step_def budget_within_def by auto
qed (use assms in \<open>auto simp: ledger_step_def\<close>)

lemma ledger_budget:
  assumes "rules_wf B"
  shows "budget_within B (ledger (budget_admits B) rs)"
proof (induction rs rule: rev_induct)
  case Nil
  show ?case unfolding budget_within_def
  proof (intro allI impI)
    fix b r
    assume "map_of (rules B) b = Some r"
    with assms have "rule_wf r" by (simp add: rules_wf_def)
    then show "total_minor (budget_charges (ledger (budget_admits B) []) b) \<le> max_amount_minor r \<and>
        pred_option (\<lambda>n. int (length (budget_charges (ledger (budget_admits B) []) b)) \<le> n) (rule_max_calls r) \<and>
        (\<forall>(t, chain, a) \<in> set (ledger (budget_admits B) []). charges_budget b (t, chain, a) \<longrightarrow>
           iss (hd chain) \<in> set (rule_issuers r) \<and> t < of_int (rule_expires_at r) \<and>
           dict_get (allowed_params (constraints (last chain))) ''currency'' = PStr (rule_currency r))"
      by (cases "rule_max_calls r") (simp_all add: ledger_def budget_charges_def rule_wf_def)
  qed
next
  case (snoc r rs)
  obtain now chain f where "r = (now, chain, f)" by (cases r)
  with ledger_step_budget [OF snoc] show ?case by (simp add: ledger_snoc ledger_request_def)
qed

section \<open>A sample budget\<close>

definition sample_rule :: budget_rule where
  "sample_rule = \<lparr>rule_id = ''b'', rule_issuers = [''a''], rule_currency = ''USD'', max_amount_minor = 10,
     rule_expires_at = 1000, rule_max_calls = None\<rparr>"

definition spender :: "string \<Rightarrow> capability_claims" where
  \<comment> \<open>a token that spends seven minor units of the sample budget\<close>
  "spender j = \<lparr>iss = ''a'', sub = ''t'', capabilities = [''pay''],
     constraints = no_constraints\<lparr>shared_budget := Some ''b'', allowed_params :=
       [(''budget_id'', PStr ''b''), (''amount_minor'', PInt 7), (''currency'', PStr ''USD'')]\<rparr>,
     iat = 100, exp_at = 110, jti = j, dlg = None, prf_token = None\<rparr>"

definition spenders :: "request list" where
  "spenders = [(101, [spender ''i''], Fin 0), (102, [spender ''j''], Fin 0)]"

lemma spenders_ok: "requests_ok {spender ''i'', spender ''j''} spenders"
  by (simp add: requests_ok_def spenders_def spender_def token_pool_def request_ok_def chain_ids_ok_def amount_ok_def
      no_constraints_def double_range_def)

lemma sample_tracker: "make_budget_tracker [sample_rule] True = Inr (configured [sample_rule] True)"
  by (simp add: make_budget_tracker_iff)

lemma sample_lookup: "map_of (rules (configured [sample_rule] True)) ''b'' = Some sample_rule"
  by (simp add: sample_rule_def)

lemma spenders_accepted:
  "accepted (budget_reserve (configured [sample_rule] True)) Map.empty spenders = [(101, [spender ''i''], Fin 0)]"
proof -
  have zero: "decimal_sum q (Fin 0) = round_sig 1000 q" "round_sig 1000 0 = 0" "decimal_value ''0'' = 0" for q
    by (simp_all add: decimal_sum_def decimal_of_float_def repr_value_def round_sig_def decimal_value_def)
       (code_simp)
  show ?thesis
    by (simp add: spenders_def budget_reserve_def records_of_def chain_ids_ok_def retention_over_def spender_def
        shared_account_def sample_rule_def no_constraints_def dict_get_def safe_minor_def MAX_SAFE_INTEGER_def
        limits_defs pending_def budget_account_def token_account_def entry_get_def no_entry_def zero update_all_def
        purge_entries_def account_key_inj recent_calls_def Let_def)
qed

section \<open>Properties\<close>

text \<open>C16. The shared-budget tracker refines the ledger. For rules with distinct ids and any requests at instants
  that never decrease, it accepts the next request exactly when the ledger of the requests accepted so far leaves
  room for every token of the chain, and the shared budget that the last token names is configured, trusts the
  root issuer, has not expired, is in the token's currency, and has a call and the pinned amount left. The
  decimal text in which sums are kept and the purging of entries never change a verdict.\<close>

theorem shared_budget_is_ledger:
  assumes "make_budget_tracker brs require = Inr B" "requests_ok K (rs @ [(now, chain, f)])"
  defines "h \<equiv> List.map ledger_request (accepted (budget_reserve B) Map.empty rs)"
  shows "fst (budget_reserve B now chain f (fold (\<lambda>(now, chain, f) E. snd (budget_reserve B now chain f E)) rs Map.empty)) = Inr ()
     \<longleftrightarrow> budget_admits B h now chain \<and> list_all (allows h now (decimal_of_float f)) chain"
proof -
  have B: "B = configured brs require" using assms(1) by (simp add: make_budget_tracker_iff)
  have "requests_ok K rs" using assms(2) by (auto simp: requests_ok_def sorted_append)
  from budgets.accepted_ledger [OF this, of brs require] budgets.run_verdict [OF assms(2), of brs require]
  show ?thesis unfolding B h_def budgets.run_def by simp
qed

theorem shared_budget_is_ledger_witness:
  "fst (budget_reserve (configured [sample_rule] True) 103 [spender ''j''] (Fin 0)
     (fold (\<lambda>(now, chain, f) E. snd (budget_reserve (configured [sample_rule] True) now chain f E)) spenders Map.empty)) \<noteq> Inr ()"
proof -
  have "requests_ok {spender ''i'', spender ''j''} (spenders @ [(103, [spender ''j''], Fin 0)])"
    by (simp add: requests_ok_def spenders_def spender_def token_pool_def request_ok_def chain_ids_ok_def amount_ok_def
        no_constraints_def double_range_def)
  moreover have "\<not> budget_admits (configured [sample_rule] True)
      (List.map ledger_request [(101, [spender ''i''], Fin 0)]) 103 [spender ''j'']"
    using sample_lookup
    by (simp add: budget_admits_def spender_def no_constraints_def ledger_request_def budget_charges_def
        charges_budget_def charged_minor_def dict_get_def safe_minor_def MAX_SAFE_INTEGER_def sample_rule_def Let_def)
  ultimately show ?thesis
    using shared_budget_is_ledger [OF sample_tracker, of _ spenders 103 "[spender ''j'']" "Fin 0"]
    unfolding spenders_accepted by blast
qed

text \<open>C17. A shared budget is never overspent. With well-formed rules and whatever tokens are presented, the
  accepted reservations that charge a budget sum to at most its \<open>max_amount_minor\<close>, are at most
  \<open>max_calls\<close> many, and each of them came from an issuer the rule trusts, before the rule's expiry and in its
  currency; and every single token stays within its own limits.\<close>

theorem shared_budget_holds:
  assumes "make_budget_tracker brs require = Inr B" "list_all rule_wf brs" "requests_ok K rs"
  defines "h \<equiv> List.map ledger_request (accepted (budget_reserve B) Map.empty rs)"
  shows "budget_within B h \<and> ledger_within K h"
proof -
  have B: "B = configured brs require" using assms(1) by (simp add: make_budget_tracker_iff)
  have "rules_wf B"
    using assms(2) unfolding B rules_wf_def list_all_iff by (auto dest!: map_of_SomeD)
  from ledger_budget [OF this, of rs] budgets.accepted_ledger [OF assms(3), of brs require]
    budgets.requests_within [OF assms(3), of brs require]
  show ?thesis by (simp add: B h_def)
qed

theorem shared_budget_holds_witness:
  "total_minor (budget_charges (List.map ledger_request (accepted (budget_reserve (configured [sample_rule] True))
      Map.empty spenders)) ''b'') \<le> 10"
proof -
  have "currency_code (PStr ''USD'')" by code_simp
  then have "rule_wf sample_rule" by (simp add: rule_wf_def sample_rule_def MAX_SAFE_INTEGER_def)
  with shared_budget_holds [OF sample_tracker _ spenders_ok]
  have "budget_within (configured [sample_rule] True)
      (List.map ledger_request (accepted (budget_reserve (configured [sample_rule] True)) Map.empty spenders))"
    by simp
  with sample_lookup show ?thesis unfolding budget_within_def by (fastforce simp: sample_rule_def)
qed

text \<open>A rule that \<open>BudgetRule\<close> builds from any values is within its declared bounds: a non-empty id, at
  least one issuer and none empty, a three-letter currency, and safe integers in range.\<close>

theorem budget_rule_bounds:
  assumes "make_budget_rule ident issuers currency max_minor expires calls = Inr r"
  shows "rule_wf r"
proof -
  from assms obtain raw where raw: "py_truth issuers" "py_tuple issuers = Inr raw"
    and trusted: "traverse nonempty_string raw = Inr (rule_issuers r)"
    and cur: "currency_code (PStr (rule_currency r))"
    and calls: "(case calls of PNone \<Rightarrow> Inr None | _ \<Rightarrow> rbind (safe_between 1 calls) (\<lambda>n. Inr (Some n))) = Inr (rule_max_calls r)"
    and rest: "rule_id r \<noteq> []" "0 \<le> max_amount_minor r" "max_amount_minor r \<le> MAX_SAFE_INTEGER"
      "1 \<le> rule_expires_at r" "rule_expires_at r \<le> MAX_SAFE_INTEGER"
    unfolding make_budget_rule_def rbind_eq_Inr ensure_eq_Inr nonempty_string_eq_Inr safe_between_eq_Inr
    by (elim exE conjE) (auto simp: nonempty_string_eq_Inr split: if_splits)
  have "rule_issuers r \<noteq> []"
    using traverse_nonempty [OF trusted] py_tuple_nonempty [OF raw(2,1)] by auto
  moreover have "list_all (\<lambda>i. i \<noteq> []) (rule_issuers r)"
    using traverse_nonempty [OF trusted] by (auto simp: list_all_iff)
  ultimately show ?thesis using optional_count_eq_Inr [OF calls] cur rest
    by (simp add: rule_wf_def)
qed

theorem budget_rule_bounds_witness:
  "rule_wf \<lparr>rule_id = ''b'', rule_issuers = [''a''], rule_currency = ''USD'', max_amount_minor = 10,
     rule_expires_at = 1000, rule_max_calls = None\<rparr>"
  by (rule budget_rule_bounds [of "PStr ''b''" "PList [PStr ''a'']" "PStr ''USD''" "PInt 10" "PInt 1000" PNone]) code_simp

end
