(* ===== verification/Redis.thy ===== *)
theory Redis
  imports JsonRoundTrip Revocation
begin

text \<open>
  The Redis backends run in many processes against one server. A method of such a backend is a
  \<^emph>\<open>program\<close>: what it does next, with its continuation. Programs of several connections are interleaved at
  every read of the clock and every command (\<open>sys_step\<close>), so a check and the write it guards are
  not atomic; the backends rely on \<open>WATCH\<close>, \<open>MULTI\<close> and \<open>EXEC\<close>.

  The server is a parameter, a record of its commands, and \<open>redis_ok\<close> states what the Redis documentation
  promises of them. The locale \<open>optimistic\<close> proves once what the backends need: the commands a program
  commits are those its reads call for in the database \<^emph>\<open>at the commit\<close>, as if the attempt ran alone.
\<close>

section \<open>Databases\<close>

datatype stored =
    Text string
  | Hash "string \<rightharpoonup> string"
  | Zset "(string \<times> rat) list"

text \<open>A key holds a value and, if it was given a time to live, the instant it ends.\<close>

type_synonym database = "string \<rightharpoonup> stored \<times> rat option"

definition visible :: "rat \<Rightarrow> database \<Rightarrow> string \<Rightarrow> stored option" where
  "visible t D k =
     (case D k of
        None \<Rightarrow> None
      | Some (v, None) \<Rightarrow> Some v
      | Some (v, Some d) \<Rightarrow> if t < d then Some v else None)"

datatype command =
    SetPx string string int
  | SetEx string string int
  | Delete string
  | HIncr string string
  | HSet string string string
  | ZAdd string string rat
  | ZDropBelow string rat
  | Expire string int

fun command_key :: "command \<Rightarrow> string" where
  "command_key (SetPx k v ms) = k"
| "command_key (SetEx k v s) = k"
| "command_key (Delete k) = k"
| "command_key (HIncr k f) = k"
| "command_key (HSet k f v) = k"
| "command_key (ZAdd k m x) = k"
| "command_key (ZDropBelow k x) = k"
| "command_key (Expire k s) = k"

datatype query = QGet string | QHGet string string | QZCount string rat | QTtl string | QExists string

fun query_key :: "query \<Rightarrow> string" where
  "query_key (QGet k) = k"
| "query_key (QHGet k f) = k"
| "query_key (QZCount k x) = k"
| "query_key (QTtl k) = k"
| "query_key (QExists k) = k"

datatype answer = AText "string option" | AInt int | ABool bool | AError

section \<open>Programs\<close>

datatype 'a prog =
    Return "exc + 'a"
  | Now "rat \<Rightarrow> 'a prog"                       \<comment> \<open>\<open>time.time()\<close>\<close>
  | Fresh "string \<Rightarrow> 'a prog"                  \<comment> \<open>\<open>generate_jti()\<close>\<close>
  | Watch "string list" "'a prog"
  | Query query "answer \<Rightarrow> 'a prog"
  | Exec "command list" "bool \<Rightarrow> 'a prog"      \<comment> \<open>\<open>MULTI\<close>, the commands, \<open>EXEC\<close>; False: \<open>WatchError\<close>\<close>

definition from_result :: "exc + 'a \<Rightarrow> ('a \<Rightarrow> 'b prog) \<Rightarrow> 'b prog" where
  "from_result m f = (case m of Inl e \<Rightarrow> Return (Inl e) | Inr x \<Rightarrow> f x)"

lemma from_result_simps [simp]: "from_result (Inl e) f = Return (Inl e)" "from_result (Inr x) f = f x"
  by (simp_all add: from_result_def)

section \<open>The server\<close>

record 's redis =
  data :: "'s \<Rightarrow> database"
  watched :: "'s \<Rightarrow> nat \<Rightarrow> (string \<times> rat) set"   \<comment> \<open>with the instants of the \<open>WATCH\<close>\<close>
  dirty :: "'s \<Rightarrow> nat \<Rightarrow> bool"   \<comment> \<open>a watched key changed since its \<open>WATCH\<close>\<close>
  watch :: "rat \<Rightarrow> nat \<Rightarrow> string list \<Rightarrow> 's \<Rightarrow> 's"
  unwatch :: "nat \<Rightarrow> 's \<Rightarrow> 's"
  query :: "rat \<Rightarrow> query \<Rightarrow> 's \<Rightarrow> answer"
  exec :: "rat \<Rightarrow> nat \<Rightarrow> command list \<Rightarrow> 's \<Rightarrow> bool \<times> 's"

text \<open>What the commands do to the database, and which answers a query may give, at instant \<open>t\<close>.\<close>

definition deadline :: "database \<Rightarrow> string \<Rightarrow> rat option" where
  "deadline D k = (case D k of None \<Rightarrow> None | Some (v, d) \<Rightarrow> d)"

definition hash_at :: "rat \<Rightarrow> database \<Rightarrow> string \<Rightarrow> string \<rightharpoonup> string" where
  "hash_at t D k = (case visible t D k of Some (Hash h) \<Rightarrow> h | _ \<Rightarrow> Map.empty)"

definition zset_at :: "rat \<Rightarrow> database \<Rightarrow> string \<Rightarrow> (string \<times> rat) list" where
  "zset_at t D k = (case visible t D k of Some (Zset z) \<Rightarrow> z | _ \<Rightarrow> [])"

definition keep_deadline :: "rat \<Rightarrow> database \<Rightarrow> string \<Rightarrow> rat option" where
  \<comment> \<open>a command that changes a value keeps its time to live; a key that is gone starts without one\<close>
  "keep_deadline t D k = (if visible t D k = None then None else deadline D k)"

fun apply_command :: "rat \<Rightarrow> command \<Rightarrow> database \<Rightarrow> database" where
  "apply_command t (SetPx k v ms) D = D(k \<mapsto> (Text v, Some (t + of_int ms / 1000)))"
| "apply_command t (SetEx k v s) D = D(k \<mapsto> (Text v, Some (t + of_int s)))"
| "apply_command t (Delete k) D = D(k := None)"
| "apply_command t (HIncr k f) D =
     (let h = hash_at t D k; n = (case h f of None \<Rightarrow> 0 | Some s \<Rightarrow> digits_val s)
      in D(k \<mapsto> (Hash (h(f \<mapsto> int_str (n + 1))), keep_deadline t D k)))"
| "apply_command t (HSet k f v) D =
     (let h = hash_at t D k in D(k \<mapsto> (Hash (h(f \<mapsto> v)), keep_deadline t D k)))"
| "apply_command t (ZAdd k m x) D =
     D(k \<mapsto> (Zset (AList.update m x (zset_at t D k)), keep_deadline t D k))"
| "apply_command t (ZDropBelow k x) D =
     (case filter (\<lambda>(m, s). x \<le> s) (zset_at t D k) of
        [] \<Rightarrow> D(k := None)
      | z \<Rightarrow> D(k \<mapsto> (Zset z, keep_deadline t D k)))"
| "apply_command t (Expire k s) D =
     (case visible t D k of None \<Rightarrow> D | Some v \<Rightarrow> D(k \<mapsto> (v, Some (t + of_int s))))"

text \<open>A command on a key of another type, or an increment of a text that is no number, is an error.\<close>

fun fits :: "rat \<Rightarrow> command \<Rightarrow> database \<Rightarrow> bool" where
  "fits t (HIncr k f) D =
     (case visible t D k of
        None \<Rightarrow> True
      | Some (Hash h) \<Rightarrow> pred_option (\<lambda>s. s \<noteq> [] \<and> list_all is_digit s) (h f)
      | Some v \<Rightarrow> False)"
| "fits t (HSet k f v) D = (case visible t D k of None \<Rightarrow> True | Some (Hash h) \<Rightarrow> True | Some v \<Rightarrow> False)"
| "fits t (ZAdd k m x) D = (case visible t D k of None \<Rightarrow> True | Some (Zset z) \<Rightarrow> True | Some v \<Rightarrow> False)"
| "fits t (ZDropBelow k x) D = (case visible t D k of None \<Rightarrow> True | Some (Zset z) \<Rightarrow> True | Some v \<Rightarrow> False)"
| "fits t c D = True"

fun all_fit :: "rat \<Rightarrow> command list \<Rightarrow> database \<Rightarrow> bool" where
  "all_fit t [] D = True"
| "all_fit t (c # cs) D = (fits t c D \<and> all_fit t cs (apply_command t c D))"

definition apply_all :: "rat \<Rightarrow> command list \<Rightarrow> database \<Rightarrow> database" where
  "apply_all t cmds D = fold (apply_command t) cmds D"

fun answers :: "rat \<Rightarrow> database \<Rightarrow> query \<Rightarrow> answer \<Rightarrow> bool" where
  "answers t D (QGet k) a =
     (case visible t D k of
        None \<Rightarrow> a = AText None
      | Some (Text v) \<Rightarrow> a = AText (Some v)
      | Some _ \<Rightarrow> a = AError)"
| "answers t D (QHGet k f) a =
     (case visible t D k of
        None \<Rightarrow> a = AText None
      | Some (Hash h) \<Rightarrow> a = AText (h f)
      | Some _ \<Rightarrow> a = AError)"
| "answers t D (QZCount k x) a =
     (case visible t D k of
        None \<Rightarrow> a = AInt 0
      | Some (Zset z) \<Rightarrow> a = AInt (int (length (filter (\<lambda>(m, s). x \<le> s) z)))
      | Some _ \<Rightarrow> a = AError)"
| "answers t D (QTtl k) a =
     (case visible t D k of
        None \<Rightarrow> a = AInt (- 2)
      | Some v \<Rightarrow>
          (case deadline D k of
             None \<Rightarrow> a = AInt (- 1)
           | Some d \<Rightarrow> \<exists>n. a = AInt n \<and> 0 \<le> n \<and> \<bar>of_int n - (d - t)\<bar> \<le> 1))"
| "answers t D (QExists k) a = (a = ABool (visible t D k \<noteq> None))"

text \<open>One answer the server may give.\<close>

fun plain_answer :: "rat \<Rightarrow> database \<Rightarrow> query \<Rightarrow> answer" where
  "plain_answer t D (QGet k) =
     (case visible t D k of None \<Rightarrow> AText None | Some (Text v) \<Rightarrow> AText (Some v) | Some _ \<Rightarrow> AError)"
| "plain_answer t D (QHGet k f) =
     (case visible t D k of None \<Rightarrow> AText None | Some (Hash h) \<Rightarrow> AText (h f) | Some _ \<Rightarrow> AError)"
| "plain_answer t D (QZCount k x) =
     (case visible t D k of
        None \<Rightarrow> AInt 0
      | Some (Zset z) \<Rightarrow> AInt (int (length (filter (\<lambda>(m, s). x \<le> s) z)))
      | Some _ \<Rightarrow> AError)"
| "plain_answer t D (QTtl k) =
     (case visible t D k of
        None \<Rightarrow> AInt (- 2)
      | Some v \<Rightarrow> (case deadline D k of None \<Rightarrow> AInt (- 1) | Some d \<Rightarrow> AInt \<lfloor>d - t\<rfloor>))"
| "plain_answer t D (QExists k) = ABool (visible t D k \<noteq> None)"

lemma plain_answers: "answers t D q (plain_answer t D q)"
proof (cases q)
  case (QTtl k)
  show ?thesis
  proof (cases "visible t D k")
    case (Some v)
    have "0 \<le> \<lfloor>d - t\<rfloor> \<and> \<bar>of_int \<lfloor>d - t\<rfloor> - (d - t)\<bar> \<le> 1" if "deadline D k = Some d" for d
      using Some that floor_correct [of "d - t"]
      by (auto simp: visible_def deadline_def abs_le_iff split: option.splits if_splits)
    with Some QTtl show ?thesis by (auto split: option.split)
  qed (simp add: QTtl)
qed (auto split: option.split stored.split)

text \<open>Only the time to live leaves the server a choice.\<close>

lemma answers_plain: "(\<forall>k. q \<noteq> QTtl k) \<Longrightarrow> answers t D q a \<longleftrightarrow> a = plain_answer t D q"
  by (cases q) (auto split: option.split stored.split)

text \<open>
  The promises: a query answers from the database and changes nothing; \<open>WATCH\<close> accumulates keys until the next
  \<open>EXEC\<close> or \<open>UNWATCH\<close>; a key written by another connection marks the connections that watch it (the server may
  mark more), and \<open>EXEC\<close> runs all its commands at once (if none is an error), or none if the connection is marked or a key that was there at
  its \<open>WATCH\<close> has expired since (the behaviour from Redis 6.0.9 on).
\<close>

definition lapsed :: "rat \<Rightarrow> database \<Rightarrow> (string \<times> rat) set \<Rightarrow> bool" where
  \<comment> \<open>a key visible when it was watched no longer is\<close>
  "lapsed t D W \<longleftrightarrow> (\<exists>(k, w) \<in> W. visible w D k \<noteq> None \<and> visible t D k = None)"

definition redis_ok :: "'s redis \<Rightarrow> bool" where
  "redis_ok R \<longleftrightarrow>
     (\<forall>t i ks s. data R (watch R t i ks s) = data R s \<and>
        watched R (watch R t i ks s) = (watched R s)(i := watched R s i \<union> set ks \<times> {t}) \<and>
        dirty R (watch R t i ks s) = dirty R s) \<and>
     (\<forall>i s. data R (unwatch R i s) = data R s \<and>
        watched R (unwatch R i s) = (watched R s)(i := {}) \<and>
        dirty R (unwatch R i s) = (dirty R s)(i := False)) \<and>
     (\<forall>t q s. answers t (data R s) q (query R t q s)) \<and>
     (\<forall>t i cmds s ok s'. exec R t i cmds s = (ok, s') \<longrightarrow>
        ok = (\<not> dirty R s i \<and> \<not> lapsed t (data R s) (watched R s i)) \<and>
        (ok \<and> all_fit t cmds (data R s) \<longrightarrow> data R s' = apply_all t cmds (data R s)) \<and>
        (\<not> ok \<longrightarrow> data R s' = data R s) \<and>
        watched R s' = (watched R s)(i := {}) \<and> \<not> dirty R s' i \<and>
        (\<forall>j. j \<noteq> i \<longrightarrow>
           (dirty R s j \<or> ok \<and> fst ` watched R s j \<inter> command_key ` set cmds \<noteq> {} \<longrightarrow> dirty R s' j) \<and>
           (dirty R s' j \<longrightarrow> dirty R s j \<or> watched R s j \<noteq> {})))"

lemma redis_watch:
  assumes "redis_ok R"
  shows "data R (redis.watch R t i ks s) = data R s" "dirty R (redis.watch R t i ks s) = dirty R s"
    "watched R (redis.watch R t i ks s) = (watched R s)(i := watched R s i \<union> set ks \<times> {t})"
  using assms by (simp_all add: redis_ok_def)

lemma redis_answers:
  assumes "redis_ok R"
  shows "answers t (data R s) q (redis.query R t q s)"
  using assms unfolding redis_ok_def by (elim conjE) (drule spec, drule spec, drule spec, assumption)

lemma redis_fires:
  assumes "redis_ok R" "\<not> dirty R s i" "snd ` watched R s i \<subseteq> {t}"
  shows "\<exists>S. redis.exec R t i cmds s = (True, S)"
proof -
  obtain ok S where run: "redis.exec R t i cmds s = (ok, S)" by fastforce
  have "ok = (\<not> dirty R s i \<and> \<not> lapsed t (data R s) (watched R s i))"
    using assms(1) run unfolding redis_ok_def by (elim conjE) blast
  moreover have "\<not> lapsed t (data R s) (watched R s i)"
    using assms(3) by (force simp: lapsed_def)
  ultimately show ?thesis using run assms(2) by simp
qed

definition idle :: "'s redis \<Rightarrow> 's \<Rightarrow> bool" where
  \<comment> \<open>a server that just started: nothing stored, nobody watching\<close>
  "idle R s \<longleftrightarrow> data R s = Map.empty \<and> (\<forall>i. watched R s i = {} \<and> \<not> dirty R s i)"

section \<open>Many connections\<close>

record ('r, 'a) process =
  serving :: 'r            \<comment> \<open>the call this connection is serving\<close>
  reading :: rat           \<comment> \<open>its last reading of the clock\<close>
  program :: "'a prog"     \<comment> \<open>what remains to be done\<close>
  commits :: nat           \<comment> \<open>the transactions it has executed\<close>

record ('s, 'r, 'a) system =
  time :: rat
  server :: 's
  procs :: "nat \<Rightarrow> ('r, 'a) process option"
  finished :: "('r \<times> (exc + 'a)) list"   \<comment> \<open>the calls that returned, with their outcomes\<close>

type_synonym 'r commit = "rat \<times> 'r \<times> command list"

inductive sys_step ::
  "'s redis \<Rightarrow> ('r \<Rightarrow> 'a prog) \<Rightarrow> 'r set \<Rightarrow> ('s, 'r, 'a) system \<Rightarrow> 'r commit option \<Rightarrow> ('s, 'r, 'a) system \<Rightarrow> bool"
  for R start calls where
  tick: "time s \<le> t \<Longrightarrow> binary64_number t \<Longrightarrow> sys_step R start calls s None (s\<lparr>time := t\<rparr>)"
| call: "procs s i = None \<Longrightarrow> r \<in> calls \<Longrightarrow>
     sys_step R start calls s None (s\<lparr>procs := (procs s)(i \<mapsto>
       \<lparr>serving = r, reading = 0, program = start r, commits = 0\<rparr>)\<rparr>)"
| return: "procs s i = Some p \<Longrightarrow> program p = Return x \<Longrightarrow>
     sys_step R start calls s None (s\<lparr>server := unwatch R i (server s), procs := (procs s)(i := None),
       finished := (serving p, x) # finished s\<rparr>)"
| now: "procs s i = Some p \<Longrightarrow> program p = Now f \<Longrightarrow>
     sys_step R start calls s None (s\<lparr>procs := (procs s)(i \<mapsto> p\<lparr>reading := time s, program := f (time s)\<rparr>)\<rparr>)"
| fresh: "procs s i = Some p \<Longrightarrow> program p = Fresh f \<Longrightarrow>
     sys_step R start calls s None (s\<lparr>procs := (procs s)(i \<mapsto> p\<lparr>program := f x\<rparr>)\<rparr>)"
| watch: "procs s i = Some p \<Longrightarrow> program p = Watch ks q \<Longrightarrow>
     sys_step R start calls s None (s\<lparr>server := redis.watch R (time s) i ks (server s), procs := (procs s)(i \<mapsto> p\<lparr>program := q\<rparr>)\<rparr>)"
| query: "procs s i = Some p \<Longrightarrow> program p = Query q f \<Longrightarrow>
     sys_step R start calls s None (s\<lparr>procs := (procs s)(i \<mapsto> p\<lparr>program := f (redis.query R (time s) q (server s))\<rparr>)\<rparr>)"
| exec: "procs s i = Some p \<Longrightarrow> program p = Exec cmds f \<Longrightarrow>
     redis.exec R (time s) i cmds (server s) = (ok, S') \<Longrightarrow>
     sys_step R start calls s (if ok then Some (reading p, serving p, cmds) else None)
       (s\<lparr>server := S', procs := (procs s)(i \<mapsto> p\<lparr>program := f ok, commits := commits p + of_bool ok\<rparr>)\<rparr>)"

text \<open>A run from a server that just started, with the commits in their order.\<close>

inductive sys_run ::
  "'s redis \<Rightarrow> ('r \<Rightarrow> 'a prog) \<Rightarrow> 'r set \<Rightarrow> 'r commit list \<Rightarrow> ('s, 'r, 'a) system \<Rightarrow> bool"
  for R start calls where
  init: "idle R S \<Longrightarrow> 0 \<le> t \<Longrightarrow> binary64_number t \<Longrightarrow>
     sys_run R start calls [] \<lparr>time = t, server = S, procs = (\<lambda>i. None), finished = []\<rparr>"
| step: "sys_run R start calls cs s \<Longrightarrow> sys_step R start calls s e s' \<Longrightarrow>
     sys_run R start calls (cs @ (case e of None \<Rightarrow> [] | Some c \<Rightarrow> [c])) s'"

section \<open>What a program commits\<close>

text \<open>
  \<open>commits_only Q W w D t u p\<close>: the program watched the keys \<open>W\<close> at \<open>w\<close>; from the moment \<open>p\<close> is reached, at instant \<open>t\<close> with
  the last clock reading \<open>u\<close>, until its next \<open>WATCH\<close> it commits only commands that \<open>Q\<close> allows, provided that it reads the
  watched keys from the database \<open>D\<close> and none of them has expired since \<open>w\<close>. (\<open>Q\<close> is given the instant of the commit,
  \<open>u\<close> and the commands.)
\<close>

primrec commits_only ::
  "(rat \<Rightarrow> rat \<Rightarrow> command list \<Rightarrow> bool) \<Rightarrow> string set \<Rightarrow> rat \<Rightarrow> database \<Rightarrow> rat \<Rightarrow> rat \<Rightarrow> 'a prog \<Rightarrow> bool" where
  "commits_only Q W w D t u (Return x) = True"
| "commits_only Q W w D t u (Now f) = (\<forall>t'. t \<le> t' \<and> binary64_number t' \<longrightarrow> commits_only Q W w D t' t' (f t'))"
| "commits_only Q W w D t u (Fresh f) = (\<forall>x. commits_only Q W w D t u (f x))"
| "commits_only Q W w D t u (Watch ks p) = True"
| "commits_only Q W w D t u (Query q f) =
     (\<forall>t' a. t \<le> t' \<and> (query_key q \<in> W \<longrightarrow> answers t' D q a) \<longrightarrow> commits_only Q W w D t' u (f a))"
| "commits_only Q W w D t u (Exec cmds f) =
     (\<forall>t'. t \<le> t' \<and> \<not> lapsed t' D (W \<times> {w}) \<longrightarrow> Q t' u cmds)"

text \<open>
  A program runs in segments: it starts one at its call, one at every \<open>WATCH\<close> and one after every \<open>EXEC\<close>. Each segment
  satisfies \<open>P\<close>, whose first argument names the keys just watched.
\<close>

primrec each_segment :: "(string list \<Rightarrow> 'a prog \<Rightarrow> bool) \<Rightarrow> 'a prog \<Rightarrow> bool" where
  "each_segment P (Return x) = True"
| "each_segment P (Now f) = (\<forall>t. each_segment P (f t))"
| "each_segment P (Fresh f) = (\<forall>x. each_segment P (f x))"
| "each_segment P (Watch ks p) = (P ks p \<and> each_segment P p)"
| "each_segment P (Query q f) = (\<forall>a. each_segment P (f a))"
| "each_segment P (Exec cmds f) = (\<forall>ok. P [] (f ok) \<and> each_segment P (f ok))"

text \<open>
  A call that returns normally has committed once, and one that raises has not committed: nothing follows a
  commit, and nothing but a commit lets the method return.
\<close>

primrec one_commit :: "'a prog \<Rightarrow> bool" where
  "one_commit (Return x) = isl x"
| "one_commit (Now f) = (\<forall>t. one_commit (f t))"
| "one_commit (Fresh f) = (\<forall>x. one_commit (f x))"
| "one_commit (Watch ks p) = one_commit p"
| "one_commit (Query q f) = (\<forall>a. one_commit (f a))"
| "one_commit (Exec cmds f) = ((\<exists>x. f True = Return (Inr x)) \<and> one_commit (f False))"

section \<open>Optimistic transactions\<close>

lemma visible_cong: "D k = D' k \<Longrightarrow> visible t D k = visible t D' k"
  by (simp add: visible_def)

lemma answers_cong: "D (query_key q) = D' (query_key q) \<Longrightarrow> answers t D q a = answers t D' q a"
  by (cases q) (simp_all add: visible_cong [of D _ D'] deadline_def split: option.split stored.split)

lemma lapsed_mono: "W \<subseteq> W' \<Longrightarrow> lapsed t D W \<Longrightarrow> lapsed t D W'"
  unfolding lapsed_def by blast

lemma visible_between:
  assumes "\<not> lapsed t D (W \<times> {w})" "k \<in> W" "w \<le> a" "a \<le> t" "w \<le> b" "b \<le> t"
  shows "visible a D k = visible b D k"
  using assms by (force simp: lapsed_def visible_def split: option.splits if_splits)

lemma commits_only_cong:
  assumes "\<And>k. k \<in> W \<Longrightarrow> D k = D' k"
  shows "commits_only Q W w D t u p = commits_only Q W w D' t u p"
proof (induction p arbitrary: t u)
  case (Query q f)
  have "query_key q \<in> W \<Longrightarrow> answers t D q a = answers t D' q a" for t a
    by (rule answers_cong) (rule assms)
  with Query show ?case by (auto simp: all_conj_distrib)
next
  case (Exec cmds f)
  have "visible t D k = visible t D' k" if "k \<in> W" for t k
    by (rule visible_cong) (rule assms [OF that])
  then have "lapsed t D (W \<times> {w}) = lapsed t D' (W \<times> {w})" for t by (auto simp: lapsed_def)
  then show ?case by simp
qed auto

lemma commits_only_mono:
  assumes "\<And>t u cmds. Q t u cmds \<Longrightarrow> Q' t u cmds" "commits_only Q W w D t u p"
  shows "commits_only Q' W w D t u p"
  using assms(2) by (induction p arbitrary: t u) (use assms(1) in auto)

lemma commits_only_later: "commits_only Q W w D t u p \<Longrightarrow> t \<le> t' \<Longrightarrow> commits_only Q W w D t' u p"
proof (induction p arbitrary: t u)
  case (Now f)
  then show ?case by simp
next
  case (Query q f)
  then show ?case by simp
next
  case (Fresh f)
  then show ?case by simp blast
qed auto

lemma apply_other: "k \<noteq> command_key c \<Longrightarrow> apply_command t c D k = D k"
  by (cases c) (auto simp: Let_def split: list.split option.split)

lemma apply_all_other: "k \<notin> command_key ` set cmds \<Longrightarrow> apply_all t cmds D k = D k"
  by (induction cmds arbitrary: D) (simp_all add: apply_all_def apply_other)

lemma commits_only_result [intro!]:
  "(\<And>x. m = Inr x \<Longrightarrow> commits_only Q W w D t u (f x)) \<Longrightarrow> commits_only Q W w D t u (from_result m f)"
  by (cases m) simp_all

lemma each_segment_result [intro!]:
  "(\<And>x. m = Inr x \<Longrightarrow> each_segment P (f x)) \<Longrightarrow> each_segment P (from_result m f)"
  by (cases m) simp_all

lemma one_commit_result [intro!]:
  "(\<And>x. m = Inr x \<Longrightarrow> one_commit (f x)) \<Longrightarrow> one_commit (from_result m f)"
  by (cases m) simp_all

locale optimistic =
  fixes start :: "'r \<Rightarrow> 'a prog"
    and calls :: "'r set"
    and spec :: "'r \<Rightarrow> string list \<Rightarrow> database \<Rightarrow> rat \<Rightarrow> rat \<Rightarrow> command list \<Rightarrow> bool"
    and fine :: "rat \<Rightarrow> database \<Rightarrow> bool"
  assumes segments: "r \<in> calls \<Longrightarrow>
      each_segment (\<lambda>ks p. \<forall>D t u. fine t D \<longrightarrow> commits_only (spec r ks D) (set ks) t D t u p) (Watch [] (start r))"
    and spec_local: "(\<And>k. k \<in> set ks \<Longrightarrow> D k = D' k) \<Longrightarrow> spec r ks D t u cmds \<Longrightarrow> spec r ks D' t u cmds"
    and fine_empty: "fine t Map.empty"
    and fine_later: "fine t D \<Longrightarrow> t \<le> t' \<Longrightarrow> fine t' D"
    and fine_commit: "fine t D \<Longrightarrow> r \<in> calls \<Longrightarrow> spec r ks D t u cmds \<Longrightarrow> u \<le> t \<Longrightarrow> fine t (apply_all t cmds D)"
    and fine_fits: "fine t D \<Longrightarrow> r \<in> calls \<Longrightarrow> spec r ks D t u cmds \<Longrightarrow> u \<le> t \<Longrightarrow> all_fit t cmds D"
begin

abbreviation segment :: "'r \<Rightarrow> string list \<Rightarrow> 'a prog \<Rightarrow> bool" where
  "segment r ks p \<equiv> \<forall>D t u. fine t D \<longrightarrow> commits_only (spec r ks D) (set ks) t D t u p"

definition proc_ok :: "database \<Rightarrow> rat \<Rightarrow> (string \<times> rat) set \<Rightarrow> bool \<Rightarrow> ('r, 'a) process \<Rightarrow> bool" where
  "proc_ok D t W d p \<longleftrightarrow>
     serving p \<in> calls \<and> reading p \<le> t \<and> each_segment (segment (serving p)) (program p) \<and>
     (\<exists>ks w. set ks \<times> {w} \<subseteq> W \<and>
        (\<not> d \<longrightarrow> commits_only (spec (serving p) ks D) (set ks) w D t (reading p) (program p)))"

definition conn_ok :: "database \<Rightarrow> rat \<Rightarrow> (string \<times> rat) set \<Rightarrow> bool \<Rightarrow> ('r, 'a) process option \<Rightarrow> bool" where
  "conn_ok D t W d x = (case x of None \<Rightarrow> W = {} \<and> \<not> d | Some p \<Rightarrow> proc_ok D t W d p)"

definition sys_inv :: "'s redis \<Rightarrow> ('s, 'r, 'a) system \<Rightarrow> bool" where
  "sys_inv R s \<longleftrightarrow>
     0 \<le> time s \<and> binary64_number (time s) \<and> fine (time s) (data R (server s)) \<and>
     (\<forall>i. conn_ok (data R (server s)) (time s) (watched R (server s) i) (dirty R (server s) i) (procs s i))"

lemma proc_ok_later: "proc_ok D t W d p \<Longrightarrow> t \<le> t' \<Longrightarrow> proc_ok D t' W d p"
  unfolding proc_ok_def by (meson commits_only_later order_trans)

lemma proc_ok_other:
  assumes "proc_ok D t W d p" "W \<subseteq> W'" "\<not> d' \<Longrightarrow> \<not> d \<and> (\<forall>k \<in> fst ` W. D' k = D k)"
  shows "proc_ok D' t W' d' p"
proof -
  obtain ks w where ks: "set ks \<times> {w} \<subseteq> W"
    and c: "\<not> d \<Longrightarrow> commits_only (spec (serving p) ks D) (set ks) w D t (reading p) (program p)"
    using assms(1) by (auto simp: proc_ok_def)
  have "commits_only (spec (serving p) ks D') (set ks) w D' t (reading p) (program p)" if "\<not> d'"
  proof -
    have same: "D k = D' k" if "k \<in> set ks" for k using assms(3) [OF \<open>\<not> d'\<close>] ks that by force
    have "commits_only (spec (serving p) ks D) (set ks) w D t (reading p) (program p)"
      using c assms(3) [OF that] by simp
    then have "commits_only (spec (serving p) ks D') (set ks) w D t (reading p) (program p)"
      by (rule commits_only_mono [rotated]) (rule spec_local [OF same])
    then show ?thesis
      by (subst commits_only_cong [of "set ks" D' D]) (simp_all add: same)
  qed
  moreover have "set ks \<times> {w} \<subseteq> W'" using ks assms(2) by simp
  ultimately show ?thesis using assms(1) unfolding proc_ok_def by (intro conjI exI [of _ ks] exI [of _ w]) simp_all
qed

lemma proc_ok_step:
  assumes "proc_ok D t W d p" "serving q = serving p" "reading q \<le> t"
    and "each_segment (segment (serving p)) (program p) \<Longrightarrow> each_segment (segment (serving p)) (program q)"
    and "\<And>Q V w. commits_only Q V w D t (reading p) (program p) \<Longrightarrow> commits_only Q V w D t (reading q) (program q)"
  shows "proc_ok D t W d q"
proof -
  obtain ks w where ks: "set ks \<times> {w} \<subseteq> W"
    and c: "\<not> d \<longrightarrow> commits_only (spec (serving p) ks D) (set ks) w D t (reading p) (program p)"
    using assms(1) by (auto simp: proc_ok_def)
  show ?thesis
    unfolding proc_ok_def
  proof (intro conjI exI [of _ ks] exI [of _ w] impI)
    assume "\<not> d"
    with c have "commits_only (spec (serving p) ks D) (set ks) w D t (reading p) (program p)" by simp
    from assms(5) [OF this]
    show "commits_only (spec (serving q) ks D) (set ks) w D t (reading q) (program q)" unfolding assms(2) .
  qed (use assms(1-4) ks in \<open>simp_all add: proc_ok_def\<close>)
qed

lemma proc_ok_start: "fine t D \<Longrightarrow> r \<in> calls \<Longrightarrow> 0 \<le> t \<Longrightarrow>
    proc_ok D t {} False \<lparr>serving = r, reading = 0, program = start r, commits = 0\<rparr>"
  using segments [of r] by (auto simp: proc_ok_def)

lemma conn_ok_simps [simp]:
  "conn_ok D t W d None \<longleftrightarrow> W = {} \<and> \<not> d" "conn_ok D t W d (Some p) \<longleftrightarrow> proc_ok D t W d p"
  by (simp_all add: conn_ok_def)

lemma conn_ok_later: "conn_ok D t W d x \<Longrightarrow> t \<le> t' \<Longrightarrow> conn_ok D t' W d x"
  by (cases x) (auto intro: proc_ok_later)

lemma sys_inv_proc:
  assumes "sys_inv R s" "procs s i = Some p"
  shows "proc_ok (data R (server s)) (time s) (watched R (server s) i) (dirty R (server s) i) p"
  using assms unfolding sys_inv_def by (metis conn_ok_simps(2))

text \<open>A step of one connection that leaves the server alone.\<close>

lemma sys_inv_local:
  assumes "sys_inv R s"
    and "conn_ok (data R (server s)) (time s) (watched R (server s) i) (dirty R (server s) i) x"
  shows "sys_inv R (s\<lparr>procs := (procs s)(i := x)\<rparr>)"
  using assms by (simp add: sys_inv_def)

lemma sys_inv_step:
  assumes R: "redis_ok R" and inv: "sys_inv R s" and step: "sys_step R start calls s e s'"
  shows "sys_inv R s' \<and>
    (case e of
       None \<Rightarrow> data R (server s') = data R (server s) \<and> time s \<le> time s'
     | Some (u, r, cmds) \<Rightarrow> r \<in> calls \<and> u \<le> time s \<and> time s' = time s \<and>
         data R (server s') = apply_all (time s) cmds (data R (server s)) \<and>
         (\<exists>ks. spec r ks (data R (server s)) (time s) u cmds))"
  using step
proof (cases rule: sys_step.cases)
  case (tick t)
  then show ?thesis
    using inv by (auto simp: sys_inv_def intro: conn_ok_later fine_later)
next
  case (call i r)
  have "watched R (server s) i = {}" "\<not> dirty R (server s) i"
    using inv call(3) unfolding sys_inv_def by (metis conn_ok_simps(1))+
  then have "sys_inv R s'"
    unfolding call(2) using inv proc_ok_start [of "time s" "data R (server s)" r] call(4)
    by (intro sys_inv_local) (simp_all add: sys_inv_def)
  with call(1,2) show ?thesis by simp
next
  case (return i p x)
  then show ?thesis
    using inv R by (auto simp: sys_inv_def redis_ok_def)
next
  case (now i p f)
  have "proc_ok (data R (server s)) (time s) (watched R (server s) i) (dirty R (server s) i)
      (p\<lparr>reading := time s, program := f (time s)\<rparr>)"
    by (rule proc_ok_step [OF sys_inv_proc [OF inv now(3)]]) (use now(4) inv in \<open>simp_all add: sys_inv_def\<close>)
  then show ?thesis unfolding now(1,2) by (simp add: sys_inv_local [OF inv])
next
  case (fresh i p f x)
  have "proc_ok (data R (server s)) (time s) (watched R (server s) i) (dirty R (server s) i) (p\<lparr>program := f x\<rparr>)"
    by (rule proc_ok_step [OF sys_inv_proc [OF inv fresh(3)]])
       (use fresh(4) sys_inv_proc [OF inv fresh(3)] in \<open>simp_all add: proc_ok_def\<close>)
  then show ?thesis unfolding fresh(1,2) by (simp add: sys_inv_local [OF inv])
next
  case (query i p q f)
  note answer = redis_answers [OF R, of "time s" "server s" q]
  have "proc_ok (data R (server s)) (time s) (watched R (server s) i) (dirty R (server s) i)
      (p\<lparr>program := f (redis.query R (time s) q (server s))\<rparr>)"
    by (rule proc_ok_step [OF sys_inv_proc [OF inv query(3)]])
       (use query(4) answer sys_inv_proc [OF inv query(3)] in \<open>simp_all add: proc_ok_def\<close>)
  then show ?thesis unfolding query(1,2) by (simp add: sys_inv_local [OF inv])
next
  case (watch i p ks q)
  let ?S = "redis.watch R (time s) i ks (server s)"
  note w = redis_watch [OF R]
  have "proc_ok (data R (server s)) (time s) (watched R (server s) i \<union> set ks \<times> {time s}) (dirty R (server s) i) (p\<lparr>program := q\<rparr>)"
    using sys_inv_proc [OF inv watch(3)] watch(4) inv unfolding proc_ok_def sys_inv_def
    by (intro conjI exI [of _ ks] exI [of _ "time s"]) auto
  with inv show ?thesis unfolding watch(1,2) by (auto simp: sys_inv_def w)
next
  case (exec i p cmds f ok S')
  let ?D = "data R (server s)"
  have ok: "ok = (\<not> dirty R (server s) i \<and> \<not> lapsed (time s) ?D (watched R (server s) i))"
      "ok \<Longrightarrow> all_fit (time s) cmds ?D \<Longrightarrow> data R S' = apply_all (time s) cmds ?D" "\<not> ok \<Longrightarrow> data R S' = ?D"
      "watched R S' = (watched R (server s))(i := {})" "\<not> dirty R S' i"
      "\<And>j. j \<noteq> i \<Longrightarrow> dirty R S' j \<Longrightarrow> dirty R (server s) j \<or> watched R (server s) j \<noteq> {}"
      "\<And>j. j \<noteq> i \<Longrightarrow> dirty R (server s) j \<or> ok \<and> fst ` watched R (server s) j \<inter> command_key ` set cmds \<noteq> {} \<Longrightarrow> dirty R S' j"
    using R exec(5) unfolding redis_ok_def by metis+
  note own = sys_inv_proc [OF inv exec(3)]
  then have r: "serving p \<in> calls" "reading p \<le> time s" by (simp_all add: proc_ok_def)
  have spec: "\<exists>ks. spec (serving p) ks ?D (time s) (reading p) cmds" if yes: ok
  proof -
    obtain ks w where ks: "set ks \<times> {w} \<subseteq> watched R (server s) i"
      and c: "commits_only (spec (serving p) ks ?D) (set ks) w ?D (time s) (reading p) (Exec cmds f)"
      using own exec(4) yes ok(1) unfolding proc_ok_def by (elim conjE exE) auto
    moreover have "\<not> lapsed (time s) ?D (set ks \<times> {w})"
      using ks yes ok(1) lapsed_mono by blast
    ultimately show ?thesis by auto
  qed
  have "all_fit (time s) cmds ?D" if ok
    using fine_fits [OF _ r(1) _ r(2)] spec [OF that] inv unfolding sys_inv_def by blast
  with ok have x: "ok = (\<not> dirty R (server s) i \<and> \<not> lapsed (time s) ?D (watched R (server s) i))"
      "data R S' = (if ok then apply_all (time s) cmds ?D else ?D)"
      "watched R S' = (watched R (server s))(i := {})" "\<not> dirty R S' i"
      "\<And>j. j \<noteq> i \<Longrightarrow> dirty R S' j \<Longrightarrow> dirty R (server s) j \<or> watched R (server s) j \<noteq> {}"
      "\<And>j. j \<noteq> i \<Longrightarrow> dirty R (server s) j \<or> ok \<and> fst ` watched R (server s) j \<inter> command_key ` set cmds \<noteq> {} \<Longrightarrow> dirty R S' j"
    by simp_all
  have fine: "fine (time s) (data R S')"
    using inv spec fine_commit r x(2) by (auto simp: sys_inv_def)
  have mine: "proc_ok (data R S') (time s) {} False (p\<lparr>program := f ok, commits := commits p + of_bool ok\<rparr>)"
    unfolding proc_ok_def
    by (intro conjI exI [of _ "[]"] exI [of _ "time s"]) (use own exec(4) fine in \<open>auto simp: proc_ok_def\<close>)
  have others: "conn_ok (data R S') (time s) (watched R (server s) j) (dirty R S' j) (procs s j)" if "j \<noteq> i" for j
  proof (cases "procs s j")
    case None
    then have "watched R (server s) j = {}" "\<not> dirty R (server s) j"
      using inv unfolding sys_inv_def by (metis conn_ok_simps(1))+
    with x(5) [OF that] None show ?thesis by auto
  next
    case (Some q)
    have "\<not> dirty R (server s) j \<and> (\<forall>k \<in> fst ` watched R (server s) j. data R S' k = ?D k)" if "\<not> dirty R S' j"
    proof -
      have "\<not> dirty R (server s) j" "ok \<Longrightarrow> fst ` watched R (server s) j \<inter> command_key ` set cmds = {}"
        using x(6) [OF \<open>j \<noteq> i\<close>] that by blast+
      then show ?thesis
        using apply_all_other [of _ cmds "time s" ?D] by (cases ok) (auto simp: x(2) disjoint_iff)
    qed
    with proc_ok_other [OF sys_inv_proc [OF inv Some]] Some show ?thesis by simp
  qed
  have "sys_inv R s'"
    unfolding exec(2) using inv fine mine others by (simp add: sys_inv_def x(3,4))
  then show ?thesis
    unfolding exec(1,2) using spec r x(2) by auto
qed

lemma sys_run_inv:
  assumes "redis_ok R" "sys_run R start calls cs s"
  shows "sys_inv R s"
  using assms(2)
proof (induction rule: sys_run.induct)
  case (init S t)
  then show ?case by (auto simp: sys_inv_def idle_def fine_empty)
next
  case (step cs s e s')
  with sys_inv_step [OF assms(1)] show ?case by blast
qed

text \<open>
  Serializability: to keep a property of the commits so far and the database, it is enough that one attempt that runs
  alone keeps it.
\<close>

lemma run_invariant:
  assumes "redis_ok R" "sys_run R start calls cs s"
    and "\<And>t. J t [] Map.empty"
    and "\<And>t t' cs D. J t cs D \<Longrightarrow> t \<le> t' \<Longrightarrow> J t' cs D"
    and "\<And>t cs D r ks u cmds. J t cs D \<Longrightarrow> fine t D \<Longrightarrow> r \<in> calls \<Longrightarrow> spec r ks D t u cmds \<Longrightarrow> u \<le> t \<Longrightarrow>
       J t (cs @ [(u, r, cmds)]) (apply_all t cmds D)"
  shows "J (time s) cs (data R (server s))"
  using assms(2)
proof (induction rule: sys_run.induct)
  case (init S t)
  with assms(3) show ?case by (simp add: idle_def)
next
  case (step cs s e s')
  note inv = sys_run_inv [OF assms(1) step(1)]
  note after = sys_inv_step [OF assms(1) inv step(2)]
  have "fine (time s) (data R (server s))" using inv by (simp add: sys_inv_def)
  with step after assms(4,5) show ?case by (cases e) fastforce+
qed

end

section \<open>What a finished call leaves behind\<close>

text \<open>
  \<open>settles P t b p\<close>: whatever the other connections do from instant \<open>t\<close> on, \<open>p\<close> returns normally only if \<open>P\<close> was seen to hold:
  before (\<open>b\<close>), from the clock alone, from an answer of the server, or by its own commit.
\<close>

primrec settles :: "(rat \<Rightarrow> database \<Rightarrow> bool) \<Rightarrow> rat \<Rightarrow> bool \<Rightarrow> 'a prog \<Rightarrow> bool" where
  "settles P t b (Return x) = (isl x \<or> b)"
| "settles P t b (Now f) = (\<forall>t' \<ge> t. settles P t' (b \<or> (\<forall>D. P t' D)) (f t'))"
| "settles P t b (Fresh f) = (\<forall>x. settles P t b (f x))"
| "settles P t b (Watch ks p) = settles P t b p"
| "settles P t b (Query q f) = (\<forall>t' \<ge> t. \<forall>a. settles P t' (b \<or> (\<forall>D. answers t' D q a \<longrightarrow> P t' D)) (f a))"
| "settles P t b (Exec cmds f) =
     (\<forall>t' \<ge> t. settles P t' b (f False) \<and> settles P t' (b \<or> (\<forall>D. P t' (apply_all t' cmds D))) (f True))"

lemma settles_mono: "settles P t b p \<Longrightarrow> t \<le> t' \<Longrightarrow> (b \<Longrightarrow> b') \<Longrightarrow> settles P t' b' p"
proof (induction p arbitrary: t t' b b')
  case (Now f)
  show ?case
    unfolding settles.simps
  proof (intro allI impI)
    fix x assume x: "t' \<le> x"
    with Now.prems have seen: "settles P x (b \<or> (\<forall>D. P x D)) (f x)" by simp
    show "settles P x (b' \<or> (\<forall>D. P x D)) (f x)"
      by (rule Now.IH [OF rangeI seen order_refl]) (use Now.prems(3) in blast)
  qed
next
  case (Query q f)
  show ?case
    unfolding settles.simps
  proof (intro allI impI)
    fix x a assume x: "t' \<le> x"
    with Query.prems have seen: "settles P x (b \<or> (\<forall>D. answers x D q a \<longrightarrow> P x D)) (f a)" by simp
    show "settles P x (b' \<or> (\<forall>D. answers x D q a \<longrightarrow> P x D)) (f a)"
      by (rule Query.IH [OF rangeI seen order_refl]) (use Query.prems(3) in blast)
  qed
next
  case (Exec cmds f)
  show ?case
    unfolding settles.simps
  proof (intro allI impI)
    fix x assume x: "t' \<le> x"
    with Exec.prems have "settles P x b (f False)" "settles P x (b \<or> (\<forall>D. P x (apply_all x cmds D))) (f True)" by simp_all
    note both = this
    have "settles P x b' (f False)"
      by (rule Exec.IH [OF rangeI both(1) order_refl]) (use Exec.prems(3) in blast)
    moreover have "settles P x (b' \<or> (\<forall>D. P x (apply_all x cmds D))) (f True)"
      by (rule Exec.IH [OF rangeI both(2) order_refl]) (use Exec.prems(3) in blast)
    ultimately show "settles P x b' (f False) \<and> settles P x (b' \<or> (\<forall>D. P x (apply_all x cmds D))) (f True)" ..
  qed
next
  case (Fresh f)
  then have seen: "settles P t b (f x)" for x by simp
  have "settles P t' b' (f x)" for x
    by (rule Fresh.IH [OF rangeI seen Fresh.prems(2)]) (use Fresh.prems(3) in blast)
  then show ?case by simp
qed auto

lemma settles_result [intro!]:
  "(\<And>x. m = Inr x \<Longrightarrow> settles P t b (f x)) \<Longrightarrow> settles P t b (from_result m f)"
  by (cases m) simp_all

locale settling = optimistic start calls spec fine
  for start :: "'r \<Rightarrow> 'a prog" and calls spec fine +
  fixes post :: "'r \<Rightarrow> rat \<Rightarrow> database \<Rightarrow> bool"
  assumes start_settles: "r \<in> calls \<Longrightarrow> settles (post r) t False (start r)"
    and post_later: "post r t D \<Longrightarrow> t \<le> t' \<Longrightarrow> post r t' D"
    and post_commit: "post r t D \<Longrightarrow> fine t D \<Longrightarrow> q \<in> calls \<Longrightarrow> spec q ks D t u cmds \<Longrightarrow> u \<le> t \<Longrightarrow>
      post r t (apply_all t cmds D)"
begin

definition settled :: "rat \<Rightarrow> database \<Rightarrow> ('r, 'a) process \<Rightarrow> bool" where
  "settled t D p \<longleftrightarrow> (\<exists>b. settles (post (serving p)) t b (program p) \<and> (b \<longrightarrow> post (serving p) t D))"

definition all_settled :: "'s redis \<Rightarrow> ('s, 'r, 'a) system \<Rightarrow> bool" where
  "all_settled R s \<longleftrightarrow>
     (\<forall>i p. procs s i = Some p \<longrightarrow> settled (time s) (data R (server s)) p) \<and>
     (\<forall>(r, x) \<in> set (finished s). \<not> isl x \<longrightarrow> post r (time s) (data R (server s)))"

lemma settled_later: "settled t D p \<Longrightarrow> t \<le> t' \<Longrightarrow> settled t' D p"
  unfolding settled_def by (meson settles_mono post_later)

lemma all_settled_step:
  assumes R: "redis_ok R" and run: "sys_run R start calls cs s" and step: "sys_step R start calls s e s'"
    and inv: "all_settled R s"
  shows "all_settled R s'"
proof -
  let ?D = "data R (server s)" and ?D' = "data R (server s')"
  note sys = sys_run_inv [OF R run]
  note after = sys_inv_step [OF R sys step]
  have fine: "fine (time s) ?D" using sys by (simp add: sys_inv_def)
  have later: "time s \<le> time s'" using after by (cases e) (auto split: prod.splits)
  have keeps: "post r (time s') ?D'" if "post r (time s) ?D" for r
  proof (cases e)
    case None
    with after post_later [OF that] show ?thesis by simp
  next
    case (Some c)
    then obtain u q cmds ks where "q \<in> calls" "spec q ks ?D (time s) u cmds" "u \<le> time s" "time s' = time s"
        "?D' = apply_all (time s) cmds ?D"
      using after by (cases c) auto
    with post_commit [OF that fine] show ?thesis by simp
  qed
  have others: "settled (time s') ?D' p" if "settled (time s) ?D p" for p
    using that keeps settles_mono [OF _ later] unfolding settled_def by blast
  have old: "settled (time s') ?D' p" if "procs s i = Some p" for i p
    using inv that others unfolding all_settled_def by blast
  have past: "post r (time s') ?D'" if "(r, x) \<in> set (finished s)" "\<not> isl x" for r x
    using inv that keeps unfolding all_settled_def by blast
  have one: "all_settled R s'" if "procs s' = (procs s)(i := x)" "finished s' = finished s"
    "\<And>p. x = Some p \<Longrightarrow> settled (time s') ?D' p" for i x
    using that old past unfolding all_settled_def by (auto split: if_splits)
  show ?thesis
    using step
  proof (cases rule: sys_step.cases)
    case (tick t)
    then show ?thesis using old past unfolding all_settled_def by auto
  next
    case (call i r)
    have "settled (time s) ?D \<lparr>serving = r, reading = 0, program = start r, commits = 0\<rparr>"
      using start_settles [OF call(4)] unfolding settled_def by (intro exI [of _ False]) simp
    from others [OF this] call(2) show ?thesis by (intro one [of i "Some _"]) auto
  next
    case (return i p x)
    have "post (serving p) (time s') ?D'" if "\<not> isl x"
      using old [OF return(3)] return(4) that by (auto simp: settled_def)
    with old past return(2) show ?thesis unfolding all_settled_def by (auto split: if_splits)
  next
    case (now i p f)
    have "settled (time s) ?D (p\<lparr>reading := time s, program := f (time s)\<rparr>)"
      using inv now(3,4) unfolding all_settled_def settled_def by fastforce
    from others [OF this] now(2) show ?thesis by (intro one [of i "Some _"]) auto
  next
    case (fresh i p f x)
    have "settled (time s) ?D (p\<lparr>program := f x\<rparr>)"
      using inv fresh(3,4) unfolding all_settled_def settled_def by fastforce
    from others [OF this] fresh(2) show ?thesis by (intro one [of i "Some _"]) auto
  next
    case (watch i p ks q)
    have "settled (time s) ?D (p\<lparr>program := q\<rparr>)"
      using inv watch(3,4) unfolding all_settled_def settled_def by fastforce
    from others [OF this] watch(2) show ?thesis by (intro one [of i "Some _"]) auto
  next
    case (query i p q f)
    have "settled (time s) ?D (p\<lparr>program := f (redis.query R (time s) q (server s))\<rparr>)"
      using inv query(3,4) redis_answers [OF R, of "time s" "server s" q] unfolding all_settled_def settled_def
      by fastforce
    from others [OF this] query(2) show ?thesis by (intro one [of i "Some _"]) auto
  next
    case (exec i p cmds f ok S')
    have "settled (time s') ?D' (p\<lparr>program := f ok, commits := commits p + of_bool ok\<rparr>)"
    proof -
      obtain b where b: "settles (post (serving p)) (time s) b (Exec cmds f)" "b \<longrightarrow> post (serving p) (time s) ?D"
        using inv exec(3,4) unfolding all_settled_def settled_def by metis
      show ?thesis
      proof (cases ok)
        case True
        with after exec(1) have "?D' = apply_all (time s) cmds ?D" "time s' = time s" by auto
        with True b keeps show ?thesis
          unfolding settled_def
          by (intro exI [of _ "b \<or> (\<forall>D. post (serving p) (time s) (apply_all (time s) cmds D))"]) auto
      next
        case False
        with b later keeps show ?thesis
          unfolding settled_def by (intro exI [of _ b]) auto
      qed
    qed
    with exec(2) show ?thesis by (intro one [of i "Some _"]) auto
  qed
qed

lemma run_settled:
  assumes "redis_ok R" "sys_run R start calls cs s"
  shows "all_settled R s"
  using assms(2)
proof (induction rule: sys_run.induct)
  case (step cs s e s')
  with all_settled_step [OF assms(1)] show ?case by blast
qed (simp add: all_settled_def)

end

section \<open>One commit for each call that succeeds\<close>

text \<open>
  The commits are counted, in the log of the run and in each process: a second transaction of one call would show in both.
\<close>

definition once :: "('r, 'a) process \<Rightarrow> bool" where
  \<comment> \<open>no transaction yet and at most one to come, or exactly one and nothing left but to return\<close>
  "once p \<longleftrightarrow>
     (if commits p = 0 then one_commit (program p) else commits p = 1 \<and> (\<exists>x. program p = Return (Inr x)))"

lemma commits_once:
  assumes "sys_run R start calls cs s" "\<And>r. r \<in> calls \<Longrightarrow> one_commit (start r)" "procs s i = Some p"
  shows "once p"
  using assms(1,3)
proof (induction arbitrary: i p rule: sys_run.induct)
  case (step cs s e s')
  note before = step.IH
  have "\<forall>i p. procs s' i = Some p \<longrightarrow> once p"
    using step(2)
  proof cases
    case (exec j q cmds f ok S')
    have "once (q\<lparr>program := f ok, commits := commits q + of_bool ok\<rparr>)"
      using before [OF exec(3)] exec(4) by (cases ok) (auto simp: once_def split: if_splits)
    with before exec(2) show ?thesis by auto
  qed (use before assms(2) in \<open>fastforce simp: once_def split: if_splits\<close>)+
  with step.prems show ?case by blast
qed simp

definition debtors :: "('r \<Rightarrow> bool) \<Rightarrow> ('s, 'r, 'a) system \<Rightarrow> nat set" where
  \<comment> \<open>the connections with a commit whose call has not returned yet\<close>
  "debtors \<phi> s = {i. \<exists>p. procs s i = Some p \<and> 0 < commits p \<and> \<phi> (serving p)}"

definition balanced :: "('r \<Rightarrow> bool) \<Rightarrow> 'r commit list \<Rightarrow> ('s, 'r, 'a) system \<Rightarrow> bool" where
  \<comment> \<open>every commit for the calls \<open>\<phi>\<close> belongs to its own call: one that returned normally, or one that is about to\<close>
  "balanced \<phi> cs s \<longleftrightarrow>
     finite (debtors \<phi> s) \<and>
     length (filter (\<lambda>(u, r, cmds). \<phi> r) cs) =
       length (filter (\<lambda>(r, x). \<phi> r \<and> \<not> isl x) (finished s)) + card (debtors \<phi> s)"

lemma debtors_same:
  assumes "procs s' = (procs s)(i \<mapsto> q)" "procs s i = Some p" "commits q = commits p" "serving q = serving p"
  shows "debtors \<phi> s' = debtors \<phi> s"
  using assms by (auto simp: debtors_def split: if_splits)

lemma balanced_same:
  "balanced \<phi> cs s \<Longrightarrow> debtors \<phi> s' = debtors \<phi> s \<Longrightarrow> finished s' = finished s \<Longrightarrow> balanced \<phi> cs s'"
  by (simp add: balanced_def)

lemma balanced_step:
  assumes bal: "balanced \<phi> cs s" and once: "\<And>i p. procs s i = Some p \<Longrightarrow> once p"
    and step: "sys_step R start calls s e s'"
  shows "balanced \<phi> (cs @ (case e of None \<Rightarrow> [] | Some c \<Rightarrow> [c])) s'"
proof -
  have silent: ?thesis if "e = None" "debtors \<phi> s' = debtors \<phi> s" "finished s' = finished s"
    using balanced_same [OF bal that(2,3)] that(1) by simp
  have local: ?thesis if "e = None" "s' = s\<lparr>server := S, procs := (procs s)(i \<mapsto> q)\<rparr>" "procs s i = Some p"
      "commits q = commits p" "serving q = serving p" for i p q S
    using debtors_same [of s' s i q p \<phi>] that by (intro silent) simp_all
  show ?thesis
    using step
  proof (cases rule: sys_step.cases)
    case (tick t)
    then show ?thesis by (intro silent) (simp_all add: debtors_def)
  next
    case (call i r)
    then show ?thesis by (intro silent) (auto simp: debtors_def split: if_splits)
  next
    case (return i p x)
    have i: "i \<in> debtors \<phi> s \<longleftrightarrow> \<phi> (serving p) \<and> \<not> isl x"
      using once [OF return(3)] return(3,4) by (auto simp: debtors_def once_def split: if_splits)
    have d: "debtors \<phi> s' = debtors \<phi> s - {i}" using return(2) by (auto simp: debtors_def)
    show ?thesis
    proof (cases "i \<in> debtors \<phi> s")
      case True
      moreover from this have "0 < card (debtors \<phi> s)" using bal by (auto simp: balanced_def card_gt_0_iff)
      ultimately show ?thesis using i d bal return(1,2) by (simp add: balanced_def)
    next
      case False
      with i d bal return(1,2) show ?thesis by (auto simp: balanced_def)
    qed
  next
    case (now i p f)
    then show ?thesis by (intro local [where i = i and p = p and q = "p\<lparr>reading := time s, program := f (time s)\<rparr>" and S = "server s"]) simp_all
  next
    case (fresh i p f x)
    then show ?thesis by (intro local [where i = i and p = p and q = "p\<lparr>program := f x\<rparr>" and S = "server s"]) simp_all
  next
    case (watch i p ks q)
    then show ?thesis by (intro local [where i = i and p = p and q = "p\<lparr>program := q\<rparr>" and S = "redis.watch R (time s) i ks (server s)"]) simp_all
  next
    case (query i p q f)
    then show ?thesis
      by (intro local [where i = i and p = p and q = "p\<lparr>program := f (redis.query R (time s) q (server s))\<rparr>" and S = "server s"]) simp_all
  next
    case (exec i p cmds f ok S')
    show ?thesis
    proof (cases ok)
      case True
      have i: "i \<notin> debtors \<phi> s"
        using once [OF exec(3)] exec(3,4) by (auto simp: debtors_def once_def split: if_splits)
      have "debtors \<phi> s' = (if \<phi> (serving p) then insert i (debtors \<phi> s) else debtors \<phi> s)"
        using exec(2,3) True i by (auto simp: debtors_def split: if_splits)
      with i bal exec(1,2) True show ?thesis by (simp add: balanced_def)
    next
      case False
      with exec show ?thesis by (intro local [where i = i and p = p and q = "p\<lparr>program := f ok\<rparr>" and S = S']) simp_all
    qed
  qed
qed

lemma log_balanced:
  assumes "sys_run R start calls cs s" "\<And>r. r \<in> calls \<Longrightarrow> one_commit (start r)"
  shows "balanced \<phi> cs s"
  using assms(1)
proof (induction rule: sys_run.induct)
  case (init S t)
  show ?case by (simp add: balanced_def debtors_def)
next
  case (step cs s e s')
  from balanced_step [OF step.IH commits_once [OF step(1) assms(2)] step(2)] show ?case .
qed

section \<open>A call that nobody disturbs\<close>

text \<open>
  What a call does that runs from start to end while nothing else happens: its outcome, the server after it and its
  commits. Token ids it draws are \<open>g\<close>.
\<close>

primrec alone ::
  "'s redis \<Rightarrow> rat \<Rightarrow> nat \<Rightarrow> string \<Rightarrow> 'r \<Rightarrow> 'a prog \<Rightarrow> rat \<Rightarrow> 's \<Rightarrow> (exc + 'a) \<times> 's \<times> 'r commit list" where
  "alone R t i g r (Return x) u s = (x, unwatch R i s, [])"
| "alone R t i g r (Now f) u s = alone R t i g r (f t) t s"
| "alone R t i g r (Fresh f) u s = alone R t i g r (f g) u s"
| "alone R t i g r (Watch ks p) u s = alone R t i g r p u (redis.watch R t i ks s)"
| "alone R t i g r (Query q f) u s = alone R t i g r (f (redis.query R t q s)) u s"
| "alone R t i g r (Exec cmds f) u s =
     (case redis.exec R t i cmds s of (ok, s') \<Rightarrow>
      case alone R t i g r (f ok) u s' of (x, s'', cs) \<Rightarrow> (x, s'', (if ok then [(u, r, cmds)] else []) @ cs))"

lemma alone_result [simp]:
  "alone R t i g r (from_result m f) u s =
     (case m of Inl e \<Rightarrow> (Inl e, unwatch R i s, []) | Inr x \<Rightarrow> alone R t i g r (f x) u s)"
  by (cases m) simp_all

lemma sys_run_silent: "sys_run R start calls cs s \<Longrightarrow> sys_step R start calls s None s' \<Longrightarrow> sys_run R start calls cs s'"
  using sys_run.step [of R start calls cs s None] by simp

definition one_busy ::
  "('s, 'r, 'a) system \<Rightarrow> nat \<Rightarrow> 'r \<Rightarrow> nat \<Rightarrow> rat \<Rightarrow> 'a prog \<Rightarrow> 's \<Rightarrow> ('s, 'r, 'a) system" where
  "one_busy sys i r c u p s =
     sys\<lparr>server := s, procs := (procs sys)(i \<mapsto> \<lparr>serving = r, reading = u, program = p, commits = c\<rparr>)\<rparr>"

lemma one_busy_steps:
  "sys_step R start calls (one_busy sys i r c u (Return x) s) None
     (sys\<lparr>server := unwatch R i s, procs := (procs sys)(i := None), finished := (r, x) # finished sys\<rparr>)"
  "sys_step R start calls (one_busy sys i r c u (Now f) s) None (one_busy sys i r c (time sys) (f (time sys)) s)"
  "sys_step R start calls (one_busy sys i r c u (Fresh h) s) None (one_busy sys i r c u (h g) s)"
  "sys_step R start calls (one_busy sys i r c u (Watch ks p) s) None (one_busy sys i r c u p (redis.watch R (time sys) i ks s))"
  "sys_step R start calls (one_busy sys i r c u (Query q k) s) None
     (one_busy sys i r c u (k (redis.query R (time sys) q s)) s)"
  "redis.exec R (time sys) i cmds s = (ok, S) \<Longrightarrow> sys_step R start calls (one_busy sys i r c u (Exec cmds e) s)
     (if ok then Some (u, r, cmds) else None) (one_busy sys i r (c + of_bool ok) u (e ok) S)"
  subgoal using sys_step.return [of "one_busy sys i r c u (Return x) s" i _ x R start calls]
    by (simp add: one_busy_def)
  subgoal using sys_step.now [of "one_busy sys i r c u (Now f) s" i _ f R start calls]
    by (simp add: one_busy_def)
  subgoal using sys_step.fresh [of "one_busy sys i r c u (Fresh h) s" i _ h R start calls g]
    by (simp add: one_busy_def)
  subgoal using sys_step.watch [of "one_busy sys i r c u (Watch ks p) s" i _ ks p R start calls]
    by (simp add: one_busy_def)
  subgoal using sys_step.query [of "one_busy sys i r c u (Query q k) s" i _ q k R start calls]
    by (simp add: one_busy_def)
  subgoal using sys_step.exec [of "one_busy sys i r c u (Exec cmds e) s" i _ cmds e R ok S start calls]
    by (cases ok) (simp_all add: one_busy_def)
  done

lemma alone_continues:
  assumes "sys_run R start calls cs (one_busy sys i r c u p s)"
    and "alone R (time sys) i g r p u s = (x, s', cs')"
  shows "sys_run R start calls (cs @ cs') (sys\<lparr>server := s', procs := (procs sys)(i := None), finished := (r, x) # finished sys\<rparr>)"
  using assms
proof (induction p arbitrary: cs u s c cs')
  case (Return y)
  have "s' = unwatch R i s" "cs' = []" "x = y" using Return(2) by simp_all
  with sys_run_silent [OF Return(1) one_busy_steps(1)] show ?case by (simp only: append_Nil2)
next
  case (Now f)
  from Now(1) [OF _ sys_run_silent [OF Now(2) one_busy_steps(2)]] Now(3) show ?case by simp
next
  case (Fresh f)
  from Fresh(1) [OF _ sys_run_silent [OF Fresh(2) one_busy_steps(3) [where g = g]]] Fresh(3) show ?case by simp
next
  case (Watch ks p)
  from Watch(1) [OF sys_run_silent [OF Watch(2) one_busy_steps(4)]] Watch(3) show ?case by simp
next
  case (Query q f)
  from Query(1) [OF _ sys_run_silent [OF Query(2) one_busy_steps(5)]] Query(3) show ?case by simp
next
  case (Exec cmds f)
  obtain ok S where x: "redis.exec R (time sys) i cmds s = (ok, S)" by fastforce
  obtain cs'' where cs'': "alone R (time sys) i g r (f ok) u S = (x, s', cs'')" "cs' = (if ok then [(u, r, cmds)] else []) @ cs''"
    using Exec(3) x by (auto split: prod.splits)
  have "sys_run R start calls (cs @ (if ok then [(u, r, cmds)] else [])) (one_busy sys i r (c + of_bool ok) u (f ok) S)"
    using sys_run.step [OF Exec(2) one_busy_steps(6) [OF x]] by (cases ok) simp_all
  from Exec(1) [OF _ this cs''(1)] cs''(2) show ?case by (cases ok) simp_all
qed

lemma alone_run:
  assumes "sys_run R start calls cs sys" "procs sys i = None" "r \<in> calls"
    and "alone R (time sys) i g r (start r) 0 (server sys) = (x, s', cs')"
  shows "sys_run R start calls (cs @ cs') (sys\<lparr>server := s', finished := (r, x) # finished sys\<rparr>)"
proof -
  have "sys_run R start calls (cs @ cs') (sys\<lparr>server := s', procs := (procs sys)(i := None), finished := (r, x) # finished sys\<rparr>)"
    using sys_run_silent [OF assms(1) sys_step.call [OF assms(2,3)]]
    by (intro alone_continues [OF _ assms(4), where c = 0]) (simp add: one_busy_def)
  moreover have "(procs sys)(i := None) = procs sys" using assms(2) by auto
  ultimately show ?thesis by simp
qed

lemma alone_once:
  assumes "one_commit p" "alone R t i g r p u s = (x, s', cs)"
  shows "if isl x then cs = [] else \<exists>v cmds. cs = [(v, r, cmds)]"
  using assms
proof (induction p arbitrary: u s cs)
  case (Now f)
  show ?case by (rule Now(1) [OF rangeI, of t]) (use Now(2,3) in auto)
next
  case (Fresh f)
  show ?case by (rule Fresh(1) [OF rangeI, of g]) (use Fresh(2,3) in auto)
next
  case (Query q f)
  show ?case by (rule Query(1) [OF rangeI, of "redis.query R t q s"]) (use Query(2,3) in auto)
next
  case (Exec cmds f)
  obtain ok S where run: "redis.exec R t i cmds s = (ok, S)" by fastforce
  obtain cs' where cs': "alone R t i g r (f ok) u S = (x, s', cs')" "cs = (if ok then [(u, r, cmds)] else []) @ cs'"
    using Exec(3) run by (auto split: prod.splits)
  show ?case
  proof (cases ok)
    case True
    moreover obtain y where "f True = Return (Inr y)" using Exec(2) by auto
    ultimately have "x = Inr y" "cs = [(u, r, cmds)]" using cs' by simp_all
    then show ?thesis by simp
  next
    case False
    with cs' Exec(1) [of "f False" u S cs'] Exec(2) show ?thesis by simp
  qed
qed auto

section \<open>A commit for every answer that needs one\<close>

text \<open>
  \<open>pays good c p\<close>: \<open>p\<close>, which has committed already if \<open>c\<close>, returns a good value only after a commit.
\<close>

primrec pays :: "('a \<Rightarrow> bool) \<Rightarrow> bool \<Rightarrow> 'a prog \<Rightarrow> bool" where
  "pays good c (Return x) = (\<forall>y. x = Inr y \<and> good y \<longrightarrow> c)"
| "pays good c (Now f) = (\<forall>t. pays good c (f t))"
| "pays good c (Fresh f) = (\<forall>x. pays good c (f x))"
| "pays good c (Watch ks p) = pays good c p"
| "pays good c (Query q f) = (\<forall>a. pays good c (f a))"
| "pays good c (Exec cmds f) = (pays good True (f True) \<and> pays good c (f False))"

lemma pays_result [intro!]:
  "(\<And>x. m = Inr x \<Longrightarrow> pays good c (f x)) \<Longrightarrow> pays good c (from_result m f)"
  by (cases m) simp_all

definition paid_inv :: "('a \<Rightarrow> bool) \<Rightarrow> ('r \<Rightarrow> bool) \<Rightarrow> 'r commit list \<Rightarrow> ('s, 'r, 'a) system \<Rightarrow> bool" where
  "paid_inv good \<phi> cs s \<longleftrightarrow>
     finite (debtors \<phi> s) \<and> (\<forall>i p. procs s i = Some p \<longrightarrow> pays good (0 < commits p) (program p)) \<and>
     length (filter (\<lambda>(r, x). \<phi> r \<and> (\<exists>y. x = Inr y \<and> good y)) (finished s)) + card (debtors \<phi> s)
       \<le> length (filter (\<lambda>(u, r, cmds). \<phi> r) cs)"

lemma debtors_update:
  "debtors \<phi> (s\<lparr>procs := (procs s)(i := x)\<rparr>) =
     (if \<exists>p. x = Some p \<and> 0 < commits p \<and> \<phi> (serving p) then insert i (debtors \<phi> s) else debtors \<phi> s - {i})"
  by (auto simp: debtors_def)

lemma debtors_cong: "procs s' = procs s \<Longrightarrow> debtors \<phi> s' = debtors \<phi> s"
  by (simp add: debtors_def)

lemma paid_step:
  assumes "paid_inv good \<phi> cs s" "sys_step R start calls s e s'" "\<And>r. r \<in> calls \<Longrightarrow> pays good False (start r)"
  shows "paid_inv good \<phi> (cs @ (case e of None \<Rightarrow> [] | Some c \<Rightarrow> [c])) s'"
proof -
  let ?F = "\<lambda>s. length (filter (\<lambda>(r, x). \<phi> r \<and> (\<exists>y. x = Inr y \<and> good y)) (finished s))"
    and ?C = "\<lambda>cs. length (filter (\<lambda>(u, r, cmds). \<phi> r) cs)"
  have fin: "finite (debtors \<phi> s)" and progs: "\<And>i p. procs s i = Some p \<Longrightarrow> pays good (0 < commits p) (program p)"
    and count: "?F s + card (debtors \<phi> s) \<le> ?C cs"
    using assms(1) by (auto simp: paid_inv_def)
  have same: "paid_inv good \<phi> cs s'" if "procs s' = (procs s)(i \<mapsto> q)" "finished s' = finished s"
      "procs s i = Some p" "commits q = commits p" "serving q = serving p" "pays good (0 < commits q) (program q)" for i p q
  proof -
    have "debtors \<phi> s' = debtors \<phi> s" using that by (auto simp: debtors_def split: if_splits)
    with that fin progs count show ?thesis unfolding paid_inv_def by (auto split: if_splits)
  qed
  show ?thesis
    using assms(2)
  proof (cases rule: sys_step.cases)
    case (tick t)
    then show ?thesis using assms(1) by (simp add: paid_inv_def debtors_def)
  next
    case (call i r)
    have "debtors \<phi> s' = debtors \<phi> s" using call by (auto simp: debtors_def split: if_splits)
    with call fin progs count assms(3) show ?thesis unfolding paid_inv_def by (auto split: if_splits)
  next
    case (return i p x)
    have d: "debtors \<phi> s' = debtors \<phi> s - {i}" using return(2) by (auto simp: debtors_def)
    have p: "pays good (0 < commits p) (Return x)" using progs return(3,4) by metis
    have "?F s' + card (debtors \<phi> s') \<le> ?F s + card (debtors \<phi> s)"
    proof (cases "\<phi> (serving p) \<and> (\<exists>y. x = Inr y \<and> good y)")
      case True
      with p return(3) have "i \<in> debtors \<phi> s" by (auto simp: debtors_def)
      then have "Suc (card (debtors \<phi> s - {i})) = card (debtors \<phi> s)" using fin by (metis card.remove)
      with True d return(2) show ?thesis by simp
    next
      case False
      have "card (debtors \<phi> s - {i}) \<le> card (debtors \<phi> s)" using fin by (intro card_mono) auto
      with False d return(2) show ?thesis by auto
    qed
    with count fin progs d return(1,2) show ?thesis unfolding paid_inv_def by (auto split: if_splits)
  next
    case (now i p f)
    have "pays good (0 < commits p) (f (time s))" using progs [OF now(3)] now(4) by simp
    with now same [of i "p\<lparr>reading := time s, program := f (time s)\<rparr>" p] show ?thesis by simp
  next
    case (fresh i p f x)
    have "pays good (0 < commits p) (f x)" using progs [OF fresh(3)] fresh(4) by simp
    with fresh same [of i "p\<lparr>program := f x\<rparr>" p] show ?thesis by simp
  next
    case (watch i p ks q)
    have "pays good (0 < commits p) q" using progs [OF watch(3)] watch(4) by simp
    with watch same [of i "p\<lparr>program := q\<rparr>" p] show ?thesis by simp
  next
    case (query i p q f)
    have "pays good (0 < commits p) (f (redis.query R (time s) q (server s)))" using progs [OF query(3)] query(4) by simp
    with query same [of i "p\<lparr>program := f (redis.query R (time s) q (server s))\<rparr>" p] show ?thesis by simp
  next
    case (exec i p cmds f ok S')
    have p: "pays good True (f True)" "pays good (0 < commits p) (f False)" using progs [OF exec(3)] exec(4) by simp_all
    show ?thesis
    proof (cases ok)
      case True
      have d: "debtors \<phi> s' = (if \<phi> (serving p) then insert i (debtors \<phi> s) else debtors \<phi> s)"
        using exec(2,3) True by (auto simp: debtors_def split: if_splits)
      have "card (debtors \<phi> s') \<le> card (debtors \<phi> s) + of_bool (\<phi> (serving p))"
        unfolding d by (simp add: card_insert_le_m1 card_insert_if fin)
      moreover have "?C (cs @ [(reading p, serving p, cmds)]) = ?C cs + of_bool (\<phi> (serving p))" by simp
      moreover have "finite (debtors \<phi> s')" using fin d by simp
      ultimately show ?thesis
        using True exec(1,2) p progs count unfolding paid_inv_def by (auto split: if_splits)
    next
      case False
      with exec(1,2,3) p same [of i "p\<lparr>program := f ok, commits := commits p + of_bool ok\<rparr>" p] show ?thesis by simp
    qed
  qed
qed

lemma returns_paid:
  assumes "sys_run R start calls cs s" "\<And>r. r \<in> calls \<Longrightarrow> pays good False (start r)"
  shows "length (filter (\<lambda>(r, x). \<phi> r \<and> (\<exists>y. x = Inr y \<and> good y)) (finished s)) \<le> length (filter (\<lambda>(u, r, cmds). \<phi> r) cs)"
proof -
  have "paid_inv good \<phi> cs s"
    using assms(1)
  proof (induction rule: sys_run.induct)
    case (init S t)
    show ?case by (simp add: paid_inv_def debtors_def)
  next
    case (step cs s e s')
    from paid_step [OF step.IH step(2) assms(2)] show ?case .
  qed
  then show ?thesis by (simp add: paid_inv_def)
qed

section \<open>Calls that end\<close>

text \<open>
  \<open>ends_within P p n\<close>: whatever the clock and the server answer and whichever transactions fail, \<open>p\<close> returns after at most \<open>n\<close>
  commands and clock readings of its own, with a result in \<open>P\<close>.
\<close>

primrec ends_within :: "(exc + 'a \<Rightarrow> bool) \<Rightarrow> 'a prog \<Rightarrow> nat \<Rightarrow> bool" where
  "ends_within P (Return x) n = P x"
| "ends_within P (Now f) n = (n \<noteq> 0 \<and> (\<forall>t. ends_within P (f t) (n - 1)))"
| "ends_within P (Fresh f) n = (n \<noteq> 0 \<and> (\<forall>x. ends_within P (f x) (n - 1)))"
| "ends_within P (Watch ks p) n = (n \<noteq> 0 \<and> ends_within P p (n - 1))"
| "ends_within P (Query q f) n = (n \<noteq> 0 \<and> (\<forall>a. ends_within P (f a) (n - 1)))"
| "ends_within P (Exec cmds f) n = (n \<noteq> 0 \<and> (\<forall>ok. ends_within P (f ok) (n - 1)))"

lemma ends_within_mono: "ends_within P p n \<Longrightarrow> n \<le> m \<Longrightarrow> ends_within P p m"
proof (induction p arbitrary: n m)
  case (Now f)
  then show ?case by (metis diff_le_mono ends_within.simps(2) le_zero_eq rangeI)
next
  case (Fresh f)
  then show ?case by (metis diff_le_mono ends_within.simps(3) le_zero_eq rangeI)
next
  case (Query q f)
  then show ?case by (metis diff_le_mono ends_within.simps(5) le_zero_eq rangeI)
next
  case (Exec cmds f)
  then show ?case by (metis diff_le_mono ends_within.simps(6) le_zero_eq rangeI)
qed (auto intro: diff_le_mono)

section \<open>A server that keeps its promises\<close>

type_synonym plain_server = "database \<times> (nat \<Rightarrow> (string \<times> rat) set) \<times> (nat \<Rightarrow> bool)"

definition plain_redis :: "plain_server redis" where
  "plain_redis =
     \<lparr>data = fst, watched = \<lambda>s. fst (snd s), dirty = \<lambda>s. snd (snd s),
      watch = \<lambda>t i ks (D, W, d). (D, W(i := W i \<union> set ks \<times> {t}), d),
      unwatch = \<lambda>i (D, W, d). (D, W(i := {}), d(i := False)),
      query = \<lambda>t q (D, W, d). plain_answer t D q,
      exec = \<lambda>t i cmds (D, W, d).
        if d i \<or> lapsed t D (W i) then (False, D, W(i := {}), d(i := False))
        else (True, apply_all t cmds D, W(i := {}),
              \<lambda>j. j \<noteq> i \<and> (d j \<or> fst ` W j \<inter> command_key ` set cmds \<noteq> {}))\<rparr>"

lemma plain_redis_ok: "redis_ok plain_redis"
  unfolding redis_ok_def by (auto simp: plain_redis_def plain_answers split: if_splits)

definition plain_start :: "rat \<Rightarrow> (plain_server, 'r, 'a) system" where
  "plain_start t = \<lparr>time = t, server = (Map.empty, \<lambda>i. {}, \<lambda>i. False), procs = (\<lambda>i. None), finished = []\<rparr>"

lemma plain_start_run: "0 \<le> t \<Longrightarrow> binary64_number t \<Longrightarrow> sys_run plain_redis start calls [] (plain_start t)"
  unfolding plain_start_def by (rule sys_run.init) (simp_all add: idle_def plain_redis_def)

end
