(* ===== verification/RedisLedger.thy ===== *)
theory RedisLedger
  imports Budgets Redis
begin

text \<open>
  What the two Redis ledgers share: the calls they serve, what a commit reserves, and the replay of the commits on the
  abstract ledger of \<open>Usage\<close>.
\<close>

section \<open>Calls\<close>

definition typed_amount :: "pyval \<Rightarrow> bool" where
  \<comment> \<open>a float is a number of binary64\<close>
  "typed_amount v \<longleftrightarrow> (\<forall>x. v = PFloat (Fin x) \<longrightarrow> double_range x)"

lemma validated_typed: "validated_amount v = Inr f \<Longrightarrow> typed_amount v \<Longrightarrow> amount_ok f"
proof (cases v)
  case (PInt n)
  then show "validated_amount v = Inr f \<Longrightarrow> amount_ok f"
    using round_double_range [of "of_int n"]
    by (cases f) (auto simp: validated_amount_def amount_ok_def float_of_int_def py_inv split: pyfloat.splits if_splits)
next
  case (PFloat g)
  then show "validated_amount v = Inr f \<Longrightarrow> typed_amount v \<Longrightarrow> amount_ok f"
    by (cases g) (auto simp: validated_amount_def typed_amount_def amount_ok_def split: if_splits)
qed (simp_all add: validated_amount_def)

definition ledger_calls :: "capability_claims set \<Rightarrow> (capability_claims list \<times> pyval) set" where
  "ledger_calls K = {(chain, amount). set chain \<subseteq> K \<and> typed_amount amount}"

section \<open>Commits\<close>

definition commit_entry :: "(capability_claims list \<times> pyval) commit \<Rightarrow> reservation" where
  \<comment> \<open>what a commit reserves: its instant, the chain and the amount, an exact decimal\<close>
  "commit_entry c =
     (case c of (u, (chain, amount), cmds) \<Rightarrow>
        (u, chain, case validated_amount amount of Inr f \<Rightarrow> decimal_of_float f | Inl e \<Rightarrow> 0))"

definition replays :: "admission \<Rightarrow> reservation list \<Rightarrow> bool" where
  \<comment> \<open>the ledger accepts all these reservations, in this order\<close>
  "replays admit h \<longleftrightarrow> fold (ledger_step admit) h [] = h"

lemma replays_snoc:
  assumes "replays admit h" "admit h u chain" "list_all (allows h u a) chain"
  shows "replays admit (h @ [(u, chain, a)])"
  using assms by (simp add: replays_def ledger_step_def)

lemma replays_within:
  assumes "inj_on jti K" "\<forall>(u, chain, a) \<in> set h. set chain \<subseteq> K" "replays admit h"
  shows "ledger_within K h"
proof -
  have "ledger_within K (fold (ledger_step admit) g [])" if "\<forall>(u, chain, a) \<in> set g. set chain \<subseteq> K" for g
    using that
  proof (induction g rule: rev_induct)
    case (snoc c g)
    then show ?case by (cases c) (simp add: ledger_step_within [OF assms(1)])
  qed (simp add: ledger_within_def)
  from this [OF assms(2)] assms(3) show ?thesis by (simp add: replays_def)
qed

lemma replays_bounds:
  assumes "rules_wf B" "inj_on jti K" "\<forall>(u, chain, a) \<in> set h. set chain \<subseteq> K" "replays (budget_admits B) h"
  shows "budget_within B h \<and> ledger_within K h"
proof -
  have "budget_within B (fold (ledger_step (budget_admits B)) g [])" for g
  proof (induction g rule: rev_induct)
    case Nil
    show ?case using ledger_budget [OF assms(1), of "[]"] by (simp add: ledger_def)
  next
    case (snoc c g)
    then show ?case by (cases c) (simp add: ledger_step_budget)
  qed
  from this [of h] replays_within [OF assms(2-4)] assms(4) show ?thesis by (simp add: replays_def)
qed

end
