(* ===== verification/RedisUsage.thy ===== *)
theory RedisUsage
  imports RedisLedger
begin

text \<open>
  \<open>RedisUsageTracker\<close> of \<open>swarmauth/backends/redis_backend.py\<close>: the counters of a token are a hash, its recent calls a
  sorted set. A call watches both keys of every token of the chain, reads the clock, checks all limits and writes in
  one transaction.

  The code retries a conflicting transaction for as long as it takes; \<open>fuel\<close> bounds the attempts here, and a call that
  runs out of it is one that has not returned yet. All properties hold for every fuel.
\<close>

section \<open>The tracker\<close>

record usage_config =
  usage_prefix :: string
  usage_ttl :: int

definition make_redis_usage_tracker :: "string \<Rightarrow> pyval \<Rightarrow> usage_config result" where
  \<comment> \<open>\<open>RedisUsageTracker.__init__\<close>\<close>
  "make_redis_usage_tracker pre ttl =
     (case ttl of
        PInt n \<Rightarrow> if n < 1 then Inl ValueError else Inr \<lparr>usage_prefix = pre, usage_ttl = n\<rparr>
      | _ \<Rightarrow> Inl ValueError)"

definition hash_key :: "usage_config \<Rightarrow> string \<Rightarrow> string" where
  "hash_key C j = usage_prefix C @ j"

definition zset_key :: "usage_config \<Rightarrow> string \<Rightarrow> string" where
  "zset_key C j = usage_prefix C @ j @ '':calls''"

definition usage_keys :: "usage_config \<Rightarrow> capability_claims list \<Rightarrow> string list" where
  "usage_keys C chain = concat (List.map (\<lambda>c. [hash_key C (jti c), zset_key C (jti c)]) chain)"

definition stored_int :: "answer \<Rightarrow> int result" where
  \<comment> \<open>\<open>int(\<dots> or 0)\<close>; a text other than digits is refused here\<close>
  "stored_int a =
     (case a of
        AText None \<Rightarrow> Inr 0
      | AText (Some s) \<Rightarrow>
          if s = [] then Inr 0 else if list_all is_digit s then Inr (digits_val s) else Inl ValueError
      | _ \<Rightarrow> Inl (OtherError ''ResponseError''))"

definition stored_decimal :: "answer \<Rightarrow> rat result" where
  \<comment> \<open>\<open>Decimal(\<dots> or b"0")\<close>\<close>
  "stored_decimal a =
     (case a of
        AText None \<Rightarrow> Inr 0
      | AText (Some s) \<Rightarrow> Inr (if s = [] then 0 else decimal_value s)
      | _ \<Rightarrow> Inl (OtherError ''ResponseError''))"

definition stored_count :: "answer \<Rightarrow> int result" where
  "stored_count a = (case a of AInt n \<Rightarrow> Inr n | _ \<Rightarrow> Inl (OtherError ''ResponseError''))"

definition within_limits :: "pyfloat \<Rightarrow> capability_claims \<Rightarrow> int \<Rightarrow> rat \<Rightarrow> int \<Rightarrow> rat result" where
  \<comment> \<open>the three checks of the loop; the value is the new total\<close>
  "within_limits amount c calls spent recent =
     (let limits = constraints c; total = decimal_sum spent amount
      in rbind (ensure (pred_option (\<lambda>n. calls + 1 \<le> n) (max_calls limits)) (constraint_violation ''max_calls'')) (\<lambda>_.
         rbind (ensure (pred_option (\<lambda>f. total \<le> decimal_of_float f) (max_amount_usd limits))
           (constraint_violation ''max_amount_usd'')) (\<lambda>_.
         rbind (ensure (pred_option (\<lambda>n. recent + 1 \<le> n) (rate_limit_per_min limits))
           (constraint_violation ''rate_limit_per_min'')) (\<lambda>_.
         Inr total))))"

definition count_recent :: "rat \<Rightarrow> usage_config \<Rightarrow> capability_claims \<Rightarrow> (int \<Rightarrow> 'a prog) \<Rightarrow> 'a prog" where
  \<comment> \<open>\<open>pipe.zcount(\<dots>) if limits.rate_limit_per_min is not None else 0\<close>\<close>
  "count_recent now C c k =
     (if rate_limit_per_min (constraints c) = None then k 0
      else Query (QZCount (zset_key C (jti c)) (now - 60)) (\<lambda>a. from_result (stored_count a) k))"

fun read_usages ::
  "rat \<Rightarrow> pyfloat \<Rightarrow> usage_config \<Rightarrow> capability_claims list \<Rightarrow> (rat list \<Rightarrow> 'a prog) \<Rightarrow> 'a prog" where
  \<comment> \<open>the loop that reads and checks\<close>
  "read_usages now amount C [] k = k []"
| "read_usages now amount C (c # cs) k =
     Query (QHGet (hash_key C (jti c)) ''calls'') (\<lambda>a. from_result (stored_int a) (\<lambda>calls.
     Query (QHGet (hash_key C (jti c)) ''amount'') (\<lambda>a. from_result (stored_decimal a) (\<lambda>spent.
     count_recent now C c (\<lambda>recent.
     from_result (within_limits amount c calls spent recent) (\<lambda>total.
     read_usages now amount C cs (\<lambda>totals. k (total # totals))))))))"

definition usage_commands :: "rat \<Rightarrow> usage_config \<Rightarrow> capability_claims \<Rightarrow> rat \<Rightarrow> string \<Rightarrow> command list" where
  \<comment> \<open>the body of the loop that queues the writes\<close>
  "usage_commands now C c tot member =
     (let h = hash_key C (jti c); z = zset_key C (jti c);
          ttl = max (usage_ttl C) \<lceil>of_int (exp_at c + RETENTION_AFTER_EXP_SECONDS) - now\<rceil>
      in [HIncr h ''calls'', HSet h ''amount'' (decimal_text tot), ZAdd z member now,
          ZDropBelow z (now - 60), Expire h ttl, Expire z ttl])"

fun queue_usages ::
  "rat \<Rightarrow> usage_config \<Rightarrow> (capability_claims \<times> rat) list \<Rightarrow> (command list \<Rightarrow> 'a prog) \<Rightarrow> 'a prog" where
  "queue_usages now C [] k = k []"
| "queue_usages now C ((c, tot) # xs) k =
     Fresh (\<lambda>member. queue_usages now C xs (\<lambda>cmds. k (usage_commands now C c tot member @ cmds)))"

definition usage_attempt ::
  "usage_config \<Rightarrow> capability_claims list \<Rightarrow> pyfloat \<Rightarrow> unit prog \<Rightarrow> unit prog" where
  \<comment> \<open>the body of the retry loop\<close>
  "usage_attempt C chain amount again =
     Watch (usage_keys C chain)
       (Now (\<lambda>now. from_result (ensure (\<not> list_ex (retention_over now) chain) (swarm TokenExpiredError)) (\<lambda>_.
        read_usages now amount C chain (\<lambda>totals.
        queue_usages now C (zip chain totals) (\<lambda>cmds.
        Exec cmds (\<lambda>ok. if ok then Return (Inr ()) else again))))))"

fun usage_attempts :: "nat \<Rightarrow> usage_config \<Rightarrow> capability_claims list \<Rightarrow> pyfloat \<Rightarrow> unit prog" where
  "usage_attempts 0 C chain amount = Return (Inl (OtherError ''retrying''))"
| "usage_attempts (Suc n) C chain amount = usage_attempt C chain amount (usage_attempts n C chain amount)"

definition redis_record_chain :: "nat \<Rightarrow> usage_config \<Rightarrow> capability_claims list \<times> pyval \<Rightarrow> unit prog" where
  \<comment> \<open>\<open>RedisUsageTracker.check_and_record_chain\<close>\<close>
  "redis_record_chain fuel C request =
     (case request of (chain, amount) \<Rightarrow>
        from_result (validated_amount amount) (\<lambda>amount.
        from_result (ensure (chain_ids_ok chain) (constraint_violation ''max_calls'')) (\<lambda>_.
        usage_attempts fuel C chain amount)))"

definition redis_record :: "nat \<Rightarrow> usage_config \<Rightarrow> capability_claims \<times> pyval \<Rightarrow> unit prog" where
  \<comment> \<open>\<open>RedisUsageTracker.check_and_record\<close>\<close>
  "redis_record fuel C request = (case request of (c, amount) \<Rightarrow> redis_record_chain fuel C ([c], amount))"

section \<open>What an attempt commits\<close>

definition usage_total :: "rat \<Rightarrow> pyfloat \<Rightarrow> usage_config \<Rightarrow> database \<Rightarrow> capability_claims \<Rightarrow> rat result" where
  \<comment> \<open>what the first loop computes for a token if it reads the database at \<open>u\<close>\<close>
  "usage_total u f C D c =
     rbind (stored_int (plain_answer u D (QHGet (hash_key C (jti c)) ''calls''))) (\<lambda>calls.
     rbind (stored_decimal (plain_answer u D (QHGet (hash_key C (jti c)) ''amount''))) (\<lambda>spent.
     rbind (if rate_limit_per_min (constraints c) = None then Inr 0
            else stored_count (plain_answer u D (QZCount (zset_key C (jti c)) (u - 60)))) (\<lambda>recent.
     within_limits f c calls spent recent)))"

definition all_commands ::
  "rat \<Rightarrow> usage_config \<Rightarrow> capability_claims list \<Rightarrow> rat list \<Rightarrow> string list \<Rightarrow> command list" where
  "all_commands u C chain tots members =
     concat (List.map (\<lambda>((c, tot), m). usage_commands u C c tot m) (zip (zip chain tots) members))"

definition scores_by :: "rat \<Rightarrow> database \<Rightarrow> string list \<Rightarrow> bool" where
  \<comment> \<open>no stored call is later than \<open>u\<close>\<close>
  "scores_by u D ks \<longleftrightarrow> (\<forall>k \<in> set ks. \<forall>z d. D k = Some (Zset z, d) \<longrightarrow> (\<forall>(m, s) \<in> set z. s \<le> u))"

text \<open>
  An attempt that is not disturbed writes at \<open>t\<close> what the loop computes from the database at its reading \<open>u\<close> of the
  clock; the keys it saw are there until the commit.
\<close>

definition usage_spec ::
  "usage_config \<Rightarrow> capability_claims list \<times> pyval \<Rightarrow> string list \<Rightarrow> database \<Rightarrow> rat \<Rightarrow> rat \<Rightarrow> command list \<Rightarrow> bool" where
  "usage_spec C request ks D t u cmds \<longleftrightarrow>
     (\<exists>chain amount f tots members. request = (chain, amount) \<and> validated_amount amount = Inr f \<and>
        chain_ids_ok chain \<and> binary64_number u \<and> ks = usage_keys C chain \<and>
        \<not> list_ex (retention_over u) chain \<and> scores_by u D ks \<and>
        (\<forall>k \<in> set ks. visible t D k = visible u D k) \<and>
        traverse (usage_total u f C D) chain = Inr tots \<and> length members = length chain \<and>
        cmds = all_commands u C chain tots members)"

definition slot_typed :: "usage_config \<Rightarrow> rat \<Rightarrow> database \<Rightarrow> capability_claims \<Rightarrow> bool" where
  \<comment> \<open>the keys of a token hold what the tracker writes, by \<open>t\<close>\<close>
  "slot_typed C t D c \<longleftrightarrow>
     (\<forall>v d. D (hash_key C (jti c)) = Some (v, d) \<longrightarrow>
        (\<exists>h. v = Hash h \<and> pred_option (\<lambda>s. s \<noteq> [] \<and> list_all is_digit s) (h ''calls''))) \<and>
     (\<forall>v d. D (zset_key C (jti c)) = Some (v, d) \<longrightarrow> (\<exists>z. v = Zset z \<and> (\<forall>(m, s) \<in> set z. s \<le> t)))"

definition fine_usage :: "usage_config \<Rightarrow> capability_claims set \<Rightarrow> rat \<Rightarrow> database \<Rightarrow> bool" where
  "fine_usage C K t D \<longleftrightarrow> (\<forall>c \<in> K. slot_typed C t D c)"

text \<open>
  Token ids whose keys cannot be confused: the sorted set of one token is not the hash of another.
\<close>

definition ids_apart :: "capability_claims set \<Rightarrow> bool" where
  "ids_apart K \<longleftrightarrow> (\<forall>c \<in> K. \<forall>c' \<in> K. jti c \<noteq> jti c' @ '':calls'')"

lemma key_eqs [simp]:
  "hash_key C j = hash_key C j' \<longleftrightarrow> j = j'" "zset_key C j = zset_key C j' \<longleftrightarrow> j = j'"
  "hash_key C j \<noteq> zset_key C j" "zset_key C j \<noteq> hash_key C j"
  by (simp_all add: hash_key_def zset_key_def)

lemma keys_apart:
  assumes "ids_apart K" "c \<in> K" "c' \<in> K"
  shows "hash_key C (jti c) \<noteq> zset_key C (jti c')" "zset_key C (jti c) \<noteq> hash_key C (jti c')"
  using assms unfolding hash_key_def zset_key_def ids_apart_def by (simp_all) metis

lemma in_usage_keys: "k \<in> set (usage_keys C chain) \<longleftrightarrow> (\<exists>c \<in> set chain. k = hash_key C (jti c) \<or> k = zset_key C (jti c))"
  by (auto simp: usage_keys_def)

lemma other_keys:
  assumes "ids_apart K" "c \<in> K" "set chain \<subseteq> K" "jti c \<notin> jti ` set chain"
  shows "hash_key C (jti c) \<notin> set (usage_keys C chain)" "zset_key C (jti c) \<notin> set (usage_keys C chain)"
proof -
  have "jti c \<noteq> jti c' \<and> hash_key C (jti c) \<noteq> zset_key C (jti c') \<and> zset_key C (jti c) \<noteq> hash_key C (jti c')"
    if "c' \<in> set chain" for c'
    using keys_apart [OF assms(1,2)] assms(3,4) that by (metis image_eqI subsetD)
  then show "hash_key C (jti c) \<notin> set (usage_keys C chain)" "zset_key C (jti c) \<notin> set (usage_keys C chain)"
    unfolding in_usage_keys by simp_all
qed

lemma scores_by_subset: "scores_by u D ks \<Longrightarrow> set ks' \<subseteq> set ks \<Longrightarrow> scores_by u D ks'"
  unfolding scores_by_def by blast

section \<open>The writes of one token\<close>

definition hash_after :: "rat \<Rightarrow> database \<Rightarrow> usage_config \<Rightarrow> capability_claims \<Rightarrow> rat \<Rightarrow> string \<rightharpoonup> string" where
  "hash_after t D C c tot =
     (let h = hash_at t D (hash_key C (jti c));
          n = (case h ''calls'' of None \<Rightarrow> 0 | Some s \<Rightarrow> digits_val s)
      in h(''calls'' \<mapsto> int_str (n + 1), ''amount'' \<mapsto> decimal_text tot))"

definition zset_after :: "rat \<Rightarrow> database \<Rightarrow> usage_config \<Rightarrow> capability_claims \<Rightarrow> rat \<Rightarrow> string \<Rightarrow> (string \<times> rat) list" where
  "zset_after t D C c u m =
     filter (\<lambda>(m, s). u - 60 \<le> s) (AList.update m u (zset_at t D (zset_key C (jti c))))"

definition lifetime :: "rat \<Rightarrow> usage_config \<Rightarrow> capability_claims \<Rightarrow> int" where
  "lifetime u C c = max (usage_ttl C) \<lceil>of_int (exp_at c + RETENTION_AFTER_EXP_SECONDS) - u\<rceil>"

lemma visible_upd [simp]: "visible t (D(k \<mapsto> (v, d))) k = (case d of None \<Rightarrow> Some v | Some x \<Rightarrow> if t < x then Some v else None)"
  by (simp add: visible_def split: option.split)

lemma visible_upd_other [simp]: "k' \<noteq> k \<Longrightarrow> visible t (D(k \<mapsto> x)) k' = visible t D k'"
  by (simp add: visible_def)

lemma visible_kept: "visible t (D(k \<mapsto> (v, keep_deadline t D k))) k = Some v"
  by (auto simp: visible_def keep_deadline_def deadline_def split: option.splits if_splits)

lemma update_mem: "(m, u) \<in> set (AList.update m u z)"
  by (induction z) auto

lemma update_subset: "set (AList.update m u z) \<subseteq> insert (m, u) (set z)"
  by (induction z) auto

lemma update_fresh: "m \<notin> fst ` set z \<Longrightarrow> AList.update m u z = z @ [(m, u)]"
  by (induction z) auto

lemma apply_all_Cons [simp]: "apply_all t (c # cs) D = apply_all t cs (apply_command t c D)" "apply_all t [] D = D"
  by (simp_all add: apply_all_def)

lemma hash_zset_at:
  "visible t D k = Some (Hash h) \<Longrightarrow> hash_at t D k = h" "visible t D k = Some (Zset z) \<Longrightarrow> zset_at t D k = z"
  by (simp_all add: hash_at_def zset_at_def)

lemma one_usage:
  assumes "u \<le> t"
  shows "apply_all t (usage_commands u C c tot m) D =
    D(hash_key C (jti c) \<mapsto> (Hash (hash_after t D C c tot), Some (t + of_int (lifetime u C c))),
      zset_key C (jti c) \<mapsto> (Zset (zset_after t D C c u m), Some (t + of_int (lifetime u C c))))"
    and "slot_typed C t D c \<Longrightarrow> all_fit t (usage_commands u C c tot m) D"
proof -
  define h where "h = hash_key C (jti c)"
  define z where "z = zset_key C (jti c)"
  have hz [simp]: "h \<noteq> z" "z \<noteq> h" by (simp_all add: h_def z_def)
  define x where "x = hash_at t D h"
  define x1 where "x1 = x(''calls'' \<mapsto> int_str ((case x ''calls'' of None \<Rightarrow> 0 | Some s \<Rightarrow> digits_val s) + 1))"
  define D1 where "D1 = D(h \<mapsto> (Hash x1, keep_deadline t D h))"
  define x2 where "x2 = x1(''amount'' \<mapsto> decimal_text tot)"
  define D2 where "D2 = D1(h \<mapsto> (Hash x2, keep_deadline t D1 h))"
  define y where "y = AList.update m u (zset_at t D z)"
  define D3 where "D3 = D2(z \<mapsto> (Zset y, keep_deadline t D2 z))"
  define y1 where "y1 = filter (\<lambda>(m, s). u - 60 \<le> s) y"
  define D4 where "D4 = D3(z \<mapsto> (Zset y1, keep_deadline t D3 z))"
  let ?e = "Some (t + of_int (lifetime u C c)) :: rat option"
  have v1: "visible t D1 h = Some (Hash x1)" unfolding D1_def by (rule visible_kept)
  have s1: "apply_command t (HIncr h ''calls'') D = D1" by (simp add: D1_def x1_def x_def Let_def)
  have s2: "apply_command t (HSet h ''amount'' (decimal_text tot)) D1 = D2"
    using hash_zset_at(1) [OF v1] by (simp add: D2_def x2_def Let_def)
  have z2: "zset_at t D2 z = zset_at t D z" "D2 z = D z"
    by (simp_all add: zset_at_def D2_def D1_def)
  have s3: "apply_command t (ZAdd z m u) D2 = D3" by (simp add: D3_def y_def z2)
  have v3: "visible t D3 z = Some (Zset y)" unfolding D3_def by (rule visible_kept)
  have "(m, u) \<in> set y1" using update_mem [of m u] by (simp add: y1_def y_def)
  then have "y1 \<noteq> []" by auto
  then have s4: "apply_command t (ZDropBelow z (u - 60)) D3 = D4"
    using hash_zset_at(2) [OF v3] by (simp add: D4_def y1_def split: list.split)
  have "visible t D2 h = Some (Hash x2)" unfolding D2_def by (rule visible_kept)
  then have v4: "visible t D4 h = Some (Hash x2)" by (simp add: D4_def D3_def)
  then have s5: "apply_command t (Expire h (lifetime u C c)) D4 = D4(h \<mapsto> (Hash x2, ?e))" by simp
  have "visible t D4 z = Some (Zset y1)" unfolding D4_def by (rule visible_kept)
  then have s6: "apply_command t (Expire z (lifetime u C c)) (D4(h \<mapsto> (Hash x2, ?e))) = D4(h \<mapsto> (Hash x2, ?e), z \<mapsto> (Zset y1, ?e))"
    by simp
  have cmds: "usage_commands u C c tot m = [HIncr h ''calls'', HSet h ''amount'' (decimal_text tot), ZAdd z m u,
      ZDropBelow z (u - 60), Expire h (lifetime u C c), Expire z (lifetime u C c)]"
    by (simp add: usage_commands_def Let_def h_def z_def lifetime_def)
  have run: "apply_all t (usage_commands u C c tot m) D = D4(h \<mapsto> (Hash x2, ?e), z \<mapsto> (Zset y1, ?e))"
    by (simp only: cmds apply_all_Cons s1 s2 s3 s4 s5 s6)
  have "x2 = hash_after t D C c tot" "y1 = zset_after t D C c u m"
    by (simp_all add: x2_def x1_def x_def hash_after_def y1_def y_def zset_after_def h_def z_def Let_def)
  moreover have "D4(h \<mapsto> (Hash x2, ?e), z \<mapsto> (Zset y1, ?e)) = D(h \<mapsto> (Hash x2, ?e), z \<mapsto> (Zset y1, ?e))"
    by (simp add: D4_def D3_def D2_def D1_def fun_upd_twist)
  ultimately show "apply_all t (usage_commands u C c tot m) D =
    D(hash_key C (jti c) \<mapsto> (Hash (hash_after t D C c tot), ?e), zset_key C (jti c) \<mapsto> (Zset (zset_after t D C c u m), ?e))"
    using run by (simp flip: h_def z_def)
  assume typed: "slot_typed C t D c"
  have "fits t (HIncr h ''calls'') D"
    using typed by (auto simp: slot_typed_def h_def visible_def split: option.splits if_splits)
  moreover have "fits t (ZAdd z m u) D2"
    using typed z2(2) by (auto simp: slot_typed_def visible_def simp flip: z_def split: option.splits if_splits)
  ultimately show "all_fit t (usage_commands u C c tot m) D"
    unfolding cmds all_fit.simps s1 s2 s3 s4 s5 s6 by (simp add: v1 v3)
qed

section \<open>The writes of a chain\<close>

lemma all_commands_Cons [simp]:
  "all_commands u C (c # cs) (tot # tots) (m # ms) = usage_commands u C c tot m @ all_commands u C cs tots ms"
  "all_commands u C [] tots ms = []"
  by (simp_all add: all_commands_def)

lemma apply_all_append: "apply_all t (xs @ ys) D = apply_all t ys (apply_all t xs D)"
  by (simp add: apply_all_def)

lemma all_fit_append: "all_fit t (xs @ ys) D \<longleftrightarrow> all_fit t xs D \<and> all_fit t ys (apply_all t xs D)"
  by (induction xs arbitrary: D) simp_all

lemma usage_commands_keys: "command_key ` set (usage_commands u C c tot m) = {hash_key C (jti c), zset_key C (jti c)}"
  by (auto simp: usage_commands_def Let_def)

lemma all_commands_keys:
  "length tots = length cs \<Longrightarrow> length ms = length cs \<Longrightarrow>
     command_key ` set (all_commands u C cs tots ms) = set (usage_keys C cs)"
proof (induction cs arbitrary: tots ms)
  case (Cons c cs)
  then obtain tot tots' m ms' where "tots = tot # tots'" "ms = m # ms'" "length tots' = length cs" "length ms' = length cs"
    by (metis length_Suc_conv)
  with Cons.IH [of tots' ms'] show ?case by (auto simp: usage_commands_keys image_Un usage_keys_def)
qed (simp add: usage_keys_def)

lemma other_id: "distinct (List.map jti (c # cs)) \<Longrightarrow> c' \<in> set cs \<Longrightarrow> jti c' \<noteq> jti c"
  by (metis distinct.simps(2) image_eqI list.set_map list.simps(9))

text \<open>Every token of the chain gets its writes, from the database before the transaction.\<close>

lemma chain_writes:
  assumes "u \<le> t" "ids_apart K" "set cs \<subseteq> K" "distinct (List.map jti cs)"
    and "length tots = length cs" "length ms = length cs"
  shows "i < length cs \<Longrightarrow>
      (let D' = apply_all t (all_commands u C cs tots ms) D; c = cs ! i; e = Some (t + of_int (lifetime u C c))
       in D' (hash_key C (jti c)) = Some (Hash (hash_after t D C c (tots ! i)), e) \<and>
          D' (zset_key C (jti c)) = Some (Zset (zset_after t D C c u (ms ! i)), e))"
    and "\<forall>c \<in> set cs. slot_typed C t D c \<Longrightarrow> all_fit t (all_commands u C cs tots ms) D"
  using assms(3-6)
proof (induction cs arbitrary: D tots ms i)
  case (Cons c cs)
  {
    case 1
    then obtain tot tots' m ms' where lists: "tots = tot # tots'" "ms = m # ms'" "length tots' = length cs" "length ms' = length cs"
      by (metis length_Suc_conv)
    let ?D = "apply_all t (usage_commands u C c tot m) D"
    have other: "apply_all t (all_commands u C cs tots' ms') ?D k = ?D k" if "k \<in> {hash_key C (jti c), zset_key C (jti c)}" for k
    proof (rule apply_all_other)
      show "k \<notin> command_key ` set (all_commands u C cs tots' ms')"
      proof
        assume "k \<in> command_key ` set (all_commands u C cs tots' ms')"
        then obtain c' where c': "c' \<in> set cs" "k = hash_key C (jti c') \<or> k = zset_key C (jti c')"
          unfolding all_commands_keys [OF lists(3,4)] in_usage_keys by blast
        then have "c \<in> K" "c' \<in> K" "jti c' \<noteq> jti c" using 1(2) other_id [OF 1(3)] by auto
        with c'(2) that keys_apart [OF assms(2), of c c'] keys_apart [OF assms(2), of c' c] show False by auto
      qed
    qed
    show ?case
    proof (cases i)
      case 0
      then show ?thesis
        using other by (simp add: lists apply_all_append one_usage(1) [OF assms(1)] Let_def)
    next
      case (Suc j)
      have "c \<in> K" "cs ! j \<in> K" "jti (cs ! j) \<noteq> jti c"
      proof -
        have j: "cs ! j \<in> set cs" using 1(1) Suc by simp
        with 1(2) other_id [OF 1(3) j] show "c \<in> K" "cs ! j \<in> K" "jti (cs ! j) \<noteq> jti c" by auto
      qed
      then have keys: "hash_key C (jti (cs ! j)) \<noteq> zset_key C (jti c)" "zset_key C (jti (cs ! j)) \<noteq> hash_key C (jti c)"
        "jti (cs ! j) \<noteq> jti c"
        using keys_apart [OF assms(2)] by auto
      have "hash_at t ?D (hash_key C (jti (cs ! j))) = hash_at t D (hash_key C (jti (cs ! j)))"
        "zset_at t ?D (zset_key C (jti (cs ! j))) = zset_at t D (zset_key C (jti (cs ! j)))"
        by (simp_all add: one_usage(1) [OF assms(1)] hash_at_def zset_at_def keys)
      note same = this
      have "hash_after t ?D C (cs ! j) = hash_after t D C (cs ! j)"
        by (intro ext) (simp only: hash_after_def same)
      moreover have "zset_after t ?D C (cs ! j) = zset_after t D C (cs ! j)"
        by (intro ext) (simp only: zset_after_def same)
      moreover note Cons.IH(1) [of j tots' ms' ?D] 1 Suc lists
      ultimately show ?thesis
        by (simp add: apply_all_append Let_def)
    qed
  next
    case 2
    then obtain tot tots' m ms' where lists: "tots = tot # tots'" "ms = m # ms'" "length tots' = length cs" "length ms' = length cs"
      by (metis length_Suc_conv)
    let ?D = "apply_all t (usage_commands u C c tot m) D"
    have "slot_typed C t ?D c'" if c': "c' \<in> set cs" for c'
    proof -
      have "c \<in> K" "c' \<in> K" "jti c' \<noteq> jti c" using 2(2) c' other_id [OF 2(3) c'] by auto
      then have "hash_key C (jti c') \<noteq> zset_key C (jti c)" "zset_key C (jti c') \<noteq> hash_key C (jti c)" "jti c' \<noteq> jti c"
        using keys_apart [OF assms(2)] by auto
      with 2(1) c' show ?thesis by (simp add: slot_typed_def one_usage(1) [OF assms(1)])
    qed
    with Cons.IH(2) [of ?D tots' ms'] 2 lists show ?case
      by (simp add: all_fit_append one_usage(2) [OF assms(1)])
  }
qed simp_all

section \<open>The transactions are optimistic\<close>

lemma fine_scores:
  assumes "fine_usage C K t D" "set chain \<subseteq> K"
  shows "scores_by t D (usage_keys C chain)"
proof -
  have "\<forall>(m, s) \<in> set z. s \<le> t"
    if "c \<in> set chain" "D (hash_key C (jti c)) = Some (Zset z, d) \<or> D (zset_key C (jti c)) = Some (Zset z, d)" for c z d
  proof -
    have "slot_typed C t D c" using assms that(1) by (auto simp: fine_usage_def)
    with that(2) show ?thesis unfolding slot_typed_def by fastforce
  qed
  note bound = this
  show ?thesis unfolding scores_by_def
  proof (intro ballI allI impI)
    fix k z d p
    assume k: "k \<in> set (usage_keys C chain)" "D k = Some (Zset z, d)" and p: "p \<in> set z"
    then have "\<forall>(m, s) \<in> set z. s \<le> t" using bound unfolding in_usage_keys by blast
    with p show "case p of (m, s) \<Rightarrow> s \<le> t" by blast
  qed
qed

abbreviation usage_segment ::
  "usage_config \<Rightarrow> capability_claims set \<Rightarrow> capability_claims list \<times> pyval \<Rightarrow> string list \<Rightarrow> 'a prog \<Rightarrow> bool" where
  "usage_segment C K r ks p \<equiv>
     \<forall>D t u. fine_usage C K t D \<longrightarrow> commits_only (usage_spec C r ks D) (set ks) t D t u p"

lemma count_recent_commits:
  assumes "zset_key C (jti c) \<in> W"
    and "\<And>t' n. t \<le> t' \<Longrightarrow> (if rate_limit_per_min (constraints c) = None then n = 0
          else stored_count (plain_answer t' D (QZCount (zset_key C (jti c)) (now - 60))) = Inr n) \<Longrightarrow>
        commits_only Q W w D t' u (k n)"
  shows "commits_only Q W w D t u (count_recent now C c k)"
  using assms by (auto simp: count_recent_def answers_plain simp del: answers.simps plain_answer.simps)

text \<open>What was read at different instants, each time from the keys watched, is what a single reading at \<open>u\<close> gives.\<close>

lemma read_usages_commits:
  assumes "set (usage_keys C cs) \<subseteq> W" "w \<le> u" "u \<le> t"
    and "\<And>t' tots. t \<le> t' \<Longrightarrow>
        (\<And>t''. t' \<le> t'' \<Longrightarrow> \<not> lapsed t'' D (W \<times> {w}) \<Longrightarrow> traverse (usage_total u f C D) cs = Inr tots) \<Longrightarrow>
        length tots = length cs \<Longrightarrow> commits_only Q W w D t' u (k tots)"
  shows "commits_only Q W w D t u (read_usages u f C cs k)"
  using assms
proof (induction cs arbitrary: t k)
  case (Cons c cs)
  let ?h = "hash_key C (jti c)" and ?z = "zset_key C (jti c)"
  have W: "?h \<in> W" "?z \<in> W" "set (usage_keys C cs) \<subseteq> W"
    using Cons.prems(1) by (auto simp: usage_keys_def)
  show ?case
    unfolding read_usages.simps
  proof (simp add: W(1) answers_plain del: answers.simps plain_answer.simps, intro allI impI commits_only_result, simp add: W(1) answers_plain del: answers.simps plain_answer.simps,
      intro allI impI commits_only_result count_recent_commits W(2))
    fix t1 calls t2 spent t3 recent tot
    assume t1: "t \<le> t1" "stored_int (plain_answer t1 D (QHGet ?h ''calls'')) = Inr calls"
      and t2: "t1 \<le> t2" "stored_decimal (plain_answer t2 D (QHGet ?h ''amount'')) = Inr spent"
      and t3: "t2 \<le> t3" "if rate_limit_per_min (constraints c) = None then recent = 0
          else stored_count (plain_answer t3 D (QZCount ?z (u - 60))) = Inr recent"
      and tot: "within_limits f c calls spent recent = Inr tot"
    show "commits_only Q W w D t3 u (read_usages u f C cs (\<lambda>totals. k (tot # totals)))"
    proof (rule Cons.IH [OF W(3) Cons.prems(2)])
      show "u \<le> t3" using Cons.prems(3) t1(1) t2(1) t3(1) by simp
      fix t' tots
      assume later: "t3 \<le> t'" "length tots = length cs"
        and rest: "\<And>t''. t' \<le> t'' \<Longrightarrow> \<not> lapsed t'' D (W \<times> {w}) \<Longrightarrow> traverse (usage_total u f C D) cs = Inr tots"
      show "commits_only Q W w D t' u (k (tot # tots))"
      proof (rule Cons.prems(4))
        show "t \<le> t'" "length (tot # tots) = length (c # cs)" using t1(1) t2(1) t3(1) later by simp_all
        fix t''
        assume c: "t' \<le> t''" "\<not> lapsed t'' D (W \<times> {w})"
        have same: "visible x D y = visible u D y" if "y \<in> W" "u \<le> x" "x \<le> t''" for x y
          using visible_between [OF c(2) that(1), of x u] that Cons.prems(2) by simp
        have "plain_answer t1 D (QHGet ?h ''calls'') = plain_answer u D (QHGet ?h ''calls'')"
          "plain_answer t2 D (QHGet ?h ''amount'') = plain_answer u D (QHGet ?h ''amount'')"
          "plain_answer t3 D (QZCount ?z (u - 60)) = plain_answer u D (QZCount ?z (u - 60))"
          using same [OF W(1), of t1] same [OF W(1), of t2] same [OF W(2), of t3] Cons.prems(3) t1(1) t2(1) t3(1) later(1) c(1)
          by simp_all
        with t1(2) t2(2) t3(2) tot have "usage_total u f C D c = Inr tot"
          by (cases "rate_limit_per_min (constraints c)") (simp_all add: usage_total_def del: plain_answer.simps)
        with rest [OF c] show "traverse (usage_total u f C D) (c # cs) = Inr (tot # tots)" by simp
      qed
    qed
  qed
qed (use assms in simp)

lemma queue_usages_commits:
  assumes "\<And>members. length members = length cs \<Longrightarrow> commits_only Q W w D t u (k (all_commands now C cs tots members))"
    and "length tots = length cs"
  shows "commits_only Q W w D t u (queue_usages now C (zip cs tots) k)"
  using assms(2,1)
proof (induction cs arbitrary: tots k)
  case (Cons c cs)
  then obtain tot tots' where tots: "tots = tot # tots'" "length tots' = length cs"
    by (metis length_Suc_conv)
  have "commits_only Q W w D t u
      (queue_usages now C (zip cs tots') (\<lambda>cmds. k (usage_commands now C c tot m @ cmds)))" for m
  proof (rule Cons.IH [OF tots(2)])
    fix members :: "string list"
    assume "length members = length cs"
    with Cons.prems(2) [of "m # members"] show "commits_only Q W w D t u
        (k (usage_commands now C c tot m @ all_commands now C cs tots' members))"
      by (simp add: tots(1))
  qed
  then show ?case by (simp add: tots(1))
qed simp

lemma queue_usages_segments: "(\<And>cmds. each_segment P (k cmds)) \<Longrightarrow> each_segment P (queue_usages now C xs k)"
  by (induction now C xs k rule: queue_usages.induct) auto

lemma queue_usages_once: "(\<And>cmds. one_commit (k cmds)) \<Longrightarrow> one_commit (queue_usages now C xs k)"
  by (induction now C xs k rule: queue_usages.induct) auto

lemma count_recent_segments: "(\<And>n. each_segment P (k n)) \<Longrightarrow> each_segment P (count_recent now C c k)"
  by (auto simp: count_recent_def)

lemma count_recent_once: "(\<And>n. one_commit (k n)) \<Longrightarrow> one_commit (count_recent now C c k)"
  by (auto simp: count_recent_def)

lemma read_usages_segments: "(\<And>tots. each_segment P (k tots)) \<Longrightarrow> each_segment P (read_usages now f C cs k)"
  by (induction cs arbitrary: k) (auto intro!: count_recent_segments)

lemma read_usages_once: "(\<And>tots. one_commit (k tots)) \<Longrightarrow> one_commit (read_usages now f C cs k)"
  by (induction cs arbitrary: k) (auto intro!: count_recent_once)

lemma usage_attempt_segments:
  assumes "validated_amount amount = Inr f" "chain_ids_ok chain" "set chain \<subseteq> K"
    and "usage_segment C K (chain, amount) [] again" "each_segment (usage_segment C K (chain, amount)) again"
  shows "each_segment (usage_segment C K (chain, amount)) (usage_attempt C chain f again)"
proof -
  let ?ks = "usage_keys C chain"
  have "commits_only (usage_spec C (chain, amount) ?ks D) (set ?ks) w D now now
      (read_usages now f C chain (\<lambda>totals. queue_usages now C (zip chain totals) (\<lambda>cmds.
        Exec cmds (\<lambda>ok. if ok then Return (Inr ()) else again))))"
    if fine: "scores_by w D ?ks" and now: "w \<le> now" "binary64_number now" "\<not> list_ex (retention_over now) chain" for D w now
  proof (rule read_usages_commits [OF _ now(1)], simp, simp)
    fix t' tots
    assume t': "now \<le> t'" and len: "length tots = length chain"
      and reads: "\<And>t''. t' \<le> t'' \<Longrightarrow> \<not> lapsed t'' D (set ?ks \<times> {w}) \<Longrightarrow> traverse (usage_total now f C D) chain = Inr tots"
    have "usage_spec C (chain, amount) ?ks D t'' now (all_commands now C chain tots members)"
      if "t' \<le> t''" "\<not> lapsed t'' D (set ?ks \<times> {w})" "length members = length chain" for t'' members
    proof -
      have "scores_by now D ?ks"
        using fine now(1) unfolding scores_by_def by (force intro: order_trans)
      moreover have "visible t'' D k = visible now D k" if "k \<in> set ?ks" for k
        using visible_between [OF \<open>\<not> lapsed t'' D _\<close> that, of t'' now] now(1) t' \<open>t' \<le> t''\<close> by simp
      ultimately show ?thesis
        unfolding usage_spec_def using assms(1,2) now(2,3) reads [OF that(1,2)] that(3) by blast
    qed
    then show "commits_only (usage_spec C (chain, amount) ?ks D) (set ?ks) w D t' now
        (queue_usages now C (zip chain tots) (\<lambda>cmds. Exec cmds (\<lambda>ok. if ok then Return (Inr ()) else again)))"
      by (intro queue_usages_commits len) simp
  qed
  then show ?thesis
    using assms(4,5) fine_scores [OF _ assms(3)] unfolding usage_attempt_def
    by (auto simp: ensure_def intro!: read_usages_segments queue_usages_segments)
qed

lemma usage_attempts_segments:
  assumes "validated_amount amount = Inr f" "chain_ids_ok chain" "set chain \<subseteq> K"
  shows "usage_segment C K (chain, amount) [] (usage_attempts n C chain f) \<and>
    each_segment (usage_segment C K (chain, amount)) (usage_attempts n C chain f)"
proof (induction n)
  case (Suc n)
  then show ?case
    using usage_attempt_segments [OF assms] by (auto simp: usage_attempt_def)
qed simp

lemma usage_attempts_once: "one_commit (usage_attempts n C chain f)"
  by (induction n) (auto simp: usage_attempt_def intro!: read_usages_once queue_usages_once)

lemma redis_record_once: "one_commit (redis_record_chain fuel C r)"
  by (cases r) (auto simp: redis_record_chain_def usage_attempts_once)

lemma digits_val_nonneg: "list_all is_digit ds \<Longrightarrow> 0 \<le> digits_val ds"
  by (induction ds rule: rev_induct) (auto simp: digits_val_snoc is_digit_def digits_val_def)

lemma int_str_digits:
  assumes "0 \<le> n"
  shows "int_str n \<noteq> []" "list_all is_digit (int_str n)" "digits_val (int_str n) = n"
  using int_digits_facts [OF assms] assms by (simp_all add: int_str_def)

lemma slot_typed_after:
  assumes "slot_typed C t D c" "u \<le> t"
    and "D' (hash_key C (jti c)) = Some (Hash (hash_after t D C c tot), e)"
    and "D' (zset_key C (jti c)) = Some (Zset (zset_after t D C c u m), e')"
  shows "slot_typed C t D' c"
proof -
  let ?h = "hash_at t D (hash_key C (jti c))" and ?z = "zset_at t D (zset_key C (jti c))"
  have "pred_option (\<lambda>s. s \<noteq> [] \<and> list_all is_digit s) (?h ''calls'')"
    using assms(1) by (auto simp: slot_typed_def hash_at_def visible_def split: option.splits stored.splits if_splits)
  then have "0 \<le> (case ?h ''calls'' of None \<Rightarrow> 0 | Some s \<Rightarrow> digits_val s)"
    using digits_val_nonneg by (auto split: option.split)
  then have "pred_option (\<lambda>s. s \<noteq> [] \<and> list_all is_digit s) (hash_after t D C c tot ''calls'')"
    using int_str_digits(1,2) [of "(case ?h ''calls'' of None \<Rightarrow> 0 | Some s \<Rightarrow> digits_val s) + 1"]
    by (simp add: hash_after_def Let_def)
  moreover have "\<forall>(m, s) \<in> set ?z. s \<le> t"
    using assms(1) by (auto simp: slot_typed_def zset_at_def visible_def split: option.splits stored.splits if_splits)
  then have "\<forall>(m, s) \<in> set (zset_after t D C c u m). s \<le> t"
    using assms(2) update_subset [of m u ?z] by (fastforce simp: zset_after_def)
  ultimately show ?thesis
    by (auto simp: slot_typed_def assms(3,4))
qed

definition usage_calls :: "capability_claims set \<Rightarrow> (capability_claims list \<times> pyval) set" where
  "usage_calls K = (if ids_apart K then ledger_calls K else {})"

lemma usage_spec_keeps:
  assumes "fine_usage C K t D" "r \<in> usage_calls K" "usage_spec C r ks D t u cmds" "u \<le> t"
  shows "fine_usage C K t (apply_all t cmds D)" "all_fit t cmds D"
proof -
  obtain chain tots members where c: "chain_ids_ok chain" "ids_apart K" "set chain \<subseteq> K"
      "length tots = length chain" "length members = length chain" "cmds = all_commands u C chain tots members"
    using assms(2,3) unfolding usage_spec_def usage_calls_def ledger_calls_def
    by (auto split: if_splits dest!: traverse_length)
  have distinct: "distinct (List.map jti chain)" using c(1) by (simp add: chain_ids_ok_def)
  note writes = chain_writes [OF assms(4) c(2,3) distinct c(4,5)]
  have typed: "slot_typed C t D c'" if "c' \<in> K" for c'
    using assms(1) that by (simp add: fine_usage_def)
  show "all_fit t cmds D"
    unfolding c(6) using typed c(3) by (intro writes(2)) auto
  let ?D = "apply_all t cmds D"
  have "slot_typed C t ?D c'" if c': "c' \<in> K" for c'
  proof (cases "jti c' \<in> jti ` set chain")
    case True
    then obtain i where i: "i < length chain" "jti (chain ! i) = jti c'" by (auto simp: in_set_conv_nth)
    have after: "?D (hash_key C (jti (chain ! i))) =
          Some (Hash (hash_after t D C (chain ! i) (tots ! i)), Some (t + of_int (lifetime u C (chain ! i))))"
        "?D (zset_key C (jti (chain ! i))) =
          Some (Zset (zset_after t D C (chain ! i) u (members ! i)), Some (t + of_int (lifetime u C (chain ! i))))"
      using writes(1) [OF i(1), where C = C and D = D] unfolding c(6) Let_def by simp_all
    have "slot_typed C t D (chain ! i)" by (rule typed) (rule subsetD [OF c(3) nth_mem [OF i(1)]])
    from slot_typed_after [OF this assms(4) after] have "slot_typed C t ?D (chain ! i)" .
    with i(2) show ?thesis by (simp add: slot_typed_def)
  next
    case False
    note other_keys [OF c(2) c' c(3) False, of C]
    then have "?D (hash_key C (jti c')) = D (hash_key C (jti c'))" "?D (zset_key C (jti c')) = D (zset_key C (jti c'))"
      unfolding c(6) by (simp_all add: apply_all_other all_commands_keys [OF c(4,5)])
    with typed [OF c'] show ?thesis by (simp add: slot_typed_def)
  qed
  then show "fine_usage C K t ?D" by (simp add: fine_usage_def)
qed

interpretation usage_db: optimistic "redis_record_chain fuel C" "usage_calls K" "usage_spec C" "fine_usage C K"
  for fuel C K
proof unfold_locales
  fix r
  assume "r \<in> usage_calls K"
  then obtain chain amount where r: "r = (chain, amount)" "set chain \<subseteq> K"
    by (cases r) (auto simp: usage_calls_def ledger_calls_def split: if_splits)
  then show "each_segment (usage_segment C K r) (Watch [] (redis_record_chain fuel C r))"
    using usage_attempts_segments [of amount _ chain K C fuel]
    by (auto simp: redis_record_chain_def ensure_def)
next
  fix ks D D' r t u cmds
  assume same: "\<And>k. k \<in> set ks \<Longrightarrow> D k = D' k" and spec: "usage_spec C r ks D t u cmds"
  obtain chain amount f tots members where s: "r = (chain, amount)" "validated_amount amount = Inr f"
      "chain_ids_ok chain" "binary64_number u" "ks = usage_keys C chain" "\<not> list_ex (retention_over u) chain"
      "scores_by u D ks" "\<forall>k \<in> set ks. visible t D k = visible u D k" "traverse (usage_total u f C D) chain = Inr tots"
      "length members = length chain" "cmds = all_commands u C chain tots members"
    using spec unfolding usage_spec_def by blast
  have "usage_total u f C D c = usage_total u f C D' c" if "c \<in> set chain" for c
  proof -
    have "visible u D k = visible u D' k" if "k \<in> {hash_key C (jti c), zset_key C (jti c)}" for k
      using that \<open>c \<in> set chain\<close> by (intro visible_cong same) (auto simp: s(5) in_usage_keys)
    then show ?thesis by (simp add: usage_total_def)
  qed
  then have "traverse (usage_total u f C D') chain = Inr tots"
    using s(9) unfolding traverse_eq_Inr by (elim list.rel_mono_strong) simp
  moreover have "scores_by u D' ks" using s(7) same by (simp add: scores_by_def)
  moreover have "\<forall>k \<in> set ks. visible t D' k = visible u D' k"
    using s(8) same visible_cong [of D _ D'] by metis
  ultimately show "usage_spec C r ks D' t u cmds"
    unfolding usage_spec_def using s by blast
next
  fix t t' D
  assume "fine_usage C K t D" "t \<le> t'"
  then show "fine_usage C K t' D"
    by (fastforce simp: fine_usage_def slot_typed_def)
qed (auto simp: fine_usage_def [of _ _ _ Map.empty] slot_typed_def intro: usage_spec_keeps)

section \<open>The database and the ledger\<close>

definition usage_slot :: "usage_config \<Rightarrow> string set \<Rightarrow> database \<Rightarrow> capability_claims \<Rightarrow> posting list \<Rightarrow> bool" where
  \<comment> \<open>what the database holds for a token that had the charges \<open>ps\<close>; \<open>ids\<close> are the members drawn so far\<close>
  "usage_slot C ids D c ps \<longleftrightarrow>
     D (hash_key C (jti c)) = None \<and> D (zset_key C (jti c)) = None \<and> ps = [] \<or>
     (\<exists>h d z d' e. D (hash_key C (jti c)) = Some (Hash h, Some d) \<and> D (zset_key C (jti c)) = Some (Zset z, Some d') \<and>
        of_int (acct_expiry (token_account c)) \<le> d \<and> of_int (acct_expiry (token_account c)) \<le> d' \<and>
        fst ` set z \<subseteq> ids \<and> h ''calls'' = Some (int_str (entry_calls e)) \<and> h ''amount'' = Some (entry_usd e) \<and>
        entry_usd e \<noteq> [] \<and> entry_stamps e = List.map snd z \<and>
        (\<forall>v. (\<forall>s \<in> set (entry_stamps e). s \<le> v) \<longrightarrow> entry_matches v (token_account c) ps e))"

lemma zero_text: "decimal_value ''0'' = 0" by code_simp

lemma usage_view:
  assumes "usage_slot C ids D c ps" "u < of_int (acct_expiry (token_account c))"
    and "scores_by u D [hash_key C (jti c), zset_key C (jti c)]"
    and "\<And>k. k \<in> {hash_key C (jti c), zset_key C (jti c)} \<Longrightarrow> visible t D k = visible u D k"
  obtains e where "entry_matches u (token_account c) ps e" "\<forall>s \<in> set (entry_stamps e). s \<le> u"
    "stored_int (plain_answer u D (QHGet (hash_key C (jti c)) ''calls'')) = Inr (entry_calls e)"
    "stored_decimal (plain_answer u D (QHGet (hash_key C (jti c)) ''amount'')) = Inr (decimal_value (entry_usd e))"
    "stored_count (plain_answer u D (QZCount (zset_key C (jti c)) (u - 60))) = Inr (int (length (recent_calls u (entry_stamps e))))"
    "(case hash_at t D (hash_key C (jti c)) ''calls'' of None \<Rightarrow> 0 | Some s \<Rightarrow> digits_val s) = entry_calls e"
    "List.map snd (zset_at t D (zset_key C (jti c))) = entry_stamps e" "fst ` set (zset_at t D (zset_key C (jti c))) \<subseteq> ids"
  using assms(1) unfolding usage_slot_def
proof (elim disjE conjE exE)
  assume none: "D (hash_key C (jti c)) = None" "D (zset_key C (jti c)) = None" "ps = []"
  then have "visible x D (hash_key C (jti c)) = None" "visible x D (zset_key C (jti c)) = None" for x
    by (simp_all add: visible_def)
  then show thesis
    using none(3) no_entry_matches zero_text
    by (intro that [of no_entry]) (simp_all add: no_entry_def stored_int_def stored_decimal_def stored_count_def hash_at_def
        zset_at_def recent_calls_def)
next
  fix h d z d' e
  assume slot: "D (hash_key C (jti c)) = Some (Hash h, Some d)" "D (zset_key C (jti c)) = Some (Zset z, Some d')"
      "of_int (acct_expiry (token_account c)) \<le> d" "of_int (acct_expiry (token_account c)) \<le> d'"
      "fst ` set z \<subseteq> ids" "h ''calls'' = Some (int_str (entry_calls e))" "h ''amount'' = Some (entry_usd e)"
      "entry_usd e \<noteq> []" "entry_stamps e = List.map snd z"
      "\<forall>v. (\<forall>s \<in> set (entry_stamps e). s \<le> v) \<longrightarrow> entry_matches v (token_account c) ps e"
  have u: "visible u D (hash_key C (jti c)) = Some (Hash h)" "visible u D (zset_key C (jti c)) = Some (Zset z)"
    using slot(1-4) assms(2) by (simp_all add: visible_def)
  then have t: "visible t D (hash_key C (jti c)) = Some (Hash h)" "visible t D (zset_key C (jti c)) = Some (Zset z)"
    using assms(4) by simp_all
  have stamps: "\<forall>s \<in> set (entry_stamps e). s \<le> u"
    using assms(3) slot(2,9) by (fastforce simp: scores_by_def)
  with slot(10) have match: "entry_matches u (token_account c) ps e" by blast
  then have "0 \<le> entry_calls e" by (simp add: entry_matches_def)
  note digits = int_str_digits [OF this]
  have "length (filter (\<lambda>(m, s). u - 60 \<le> s) z) = length (recent_calls u (List.map snd z))"
    by (simp add: recent_calls_def filter_map comp_def split_def)
  then show thesis
    using match stamps u t digits slot(5-9)
    by (intro that [of e]) (simp_all add: stored_int_def stored_decimal_def stored_count_def hash_zset_at)
qed

lemma pending_usage:
  assumes "within_limits f c (entry_calls e) (decimal_value (entry_usd e)) n = Inr tot"
    and "rate_limit_per_min (constraints c) \<noteq> None \<Longrightarrow> n = int (length (recent_calls u (entry_stamps e)))"
  shows "\<exists>p. pending u f (token_account c) e = Inr p \<and> entry_calls p = entry_calls e + 1 \<and> entry_usd p = decimal_text tot \<and>
    entry_minor p = entry_minor e \<and>
    (acct_rate (token_account c) \<noteq> None \<longrightarrow> entry_stamps p = recent_calls u (entry_stamps e) @ [u])"
  using assms
  by (cases "rate_limit_per_min (constraints c)")
     (auto simp: within_limits_def pending_def token_account_def Let_def rbind_eq_Inr ensure_eq_Inr)

lemma decimal_text_nonempty: "decimal_text r \<noteq> []"
proof -
  have "int_digits n \<noteq> []" for n by (subst int_digits.simps) simp
  then show ?thesis by (simp add: decimal_text_def Let_def)
qed

definition drawn :: "command list \<Rightarrow> string list" where
  \<comment> \<open>the members a transaction adds to sorted sets\<close>
  "drawn cmds = concat (List.map (\<lambda>c. case c of ZAdd k m x \<Rightarrow> [m] | _ \<Rightarrow> []) cmds)"

lemma drawn_append: "drawn (xs @ ys) = drawn xs @ drawn ys"
  by (simp add: drawn_def)

lemma drawn_all:
  "length tots = length cs \<Longrightarrow> length ms = length cs \<Longrightarrow> drawn (all_commands u C cs tots ms) = ms"
proof (induction cs arbitrary: tots ms)
  case (Cons c cs)
  then obtain tot tots' m ms' where "tots = tot # tots'" "ms = m # ms'" "length tots' = length cs" "length ms' = length cs"
    by (metis length_Suc_conv)
  with Cons.IH [of tots' ms'] show ?case by (simp add: drawn_append) (simp add: drawn_def usage_commands_def Let_def)
qed (simp add: drawn_def)

lemma token_usd_ok: "token_pool K \<Longrightarrow> c \<in> K \<Longrightarrow> usd_limit_ok (token_account c)"
  by (cases "max_amount_usd (constraints c)") (auto simp: token_pool_def usd_limit_ok_def token_account_def Let_def)

lemma usage_slot_after:
  assumes view: "entry_matches u (token_account c) ps e" "\<forall>s \<in> set (entry_stamps e). s \<le> u"
    and calls: "(case hash_at t D (hash_key C (jti c)) ''calls'' of None \<Rightarrow> 0 | Some s \<Rightarrow> digits_val s) = entry_calls e"
    and z: "List.map snd (zset_at t D (zset_key C (jti c))) = entry_stamps e" "fst ` set (zset_at t D (zset_key C (jti c))) \<subseteq> ids"
    and m: "m \<notin> ids" and ok: "amount_ok f" "usd_limit_ok (token_account c)" "u \<le> t"
    and p: "pending u f (token_account c) e = Inr p" "entry_calls p = entry_calls e + 1" "entry_usd p = decimal_text tot"
      "acct_rate (token_account c) \<noteq> None \<Longrightarrow> entry_stamps p = recent_calls u (entry_stamps e) @ [u]"
    and D': "D' (hash_key C (jti c)) = Some (Hash (hash_after t D C c tot), Some (t + of_int (lifetime u C c)))"
      "D' (zset_key C (jti c)) = Some (Zset (zset_after t D C c u m), Some (t + of_int (lifetime u C c)))"
  shows "usage_slot C (insert m ids) D' c (ps @ [(u, decimal_of_float f, 0)])"
proof -
  let ?z = "zset_at t D (zset_key C (jti c))" and ?a = "token_account c"
  have "m \<notin> fst ` set ?z" using z(2) m by blast
  then have after: "zset_after t D C c u m = filter (\<lambda>(m, s). u - 60 \<le> s) (?z @ [(m, u)])"
    by (simp add: zset_after_def update_fresh)
  then have stamps: "List.map snd (zset_after t D C c u m) = recent_calls u (entry_stamps e) @ [u]"
    unfolding z(1) [symmetric] by (simp add: recent_calls_def filter_map comp_def split_def)
  define q where "q = p\<lparr>entry_stamps := recent_calls u (entry_stamps e) @ [u]\<rparr>"
  note matches = pending_matches(1) [OF view(1) ok(1,2) p(1)]
  have "entry_matches v ?a (ps @ [(u, decimal_of_float f, 0)]) q" if "u \<le> v" for v
  proof (cases "acct_rate ?a = None")
    case True
    with matches show ?thesis by (simp add: q_def entry_matches_def)
  next
    case False
    then have "q = p" using p(4) by (simp add: q_def)
    with entry_matches_later [OF matches that] show ?thesis by simp
  qed
  then have rep: "\<forall>v. (\<forall>s \<in> set (entry_stamps q). s \<le> v) \<longrightarrow> entry_matches v ?a (ps @ [(u, decimal_of_float f, 0)]) q"
    by (simp add: q_def)
  have "of_int (acct_expiry ?a) \<le> t + of_int (lifetime u C c)"
  proof -
    have "(of_int (acct_expiry ?a) :: rat) - u \<le> of_int (lifetime u C c)"
      by (simp add: lifetime_def le_max_iff_disj of_int_max)
    with ok(3) show ?thesis by linarith
  qed
  moreover have "fst ` set (zset_after t D C c u m) \<subseteq> insert m ids" using z(2) by (auto simp: after)
  moreover have "hash_after t D C c tot ''calls'' = Some (int_str (entry_calls q))"
    "hash_after t D C c tot ''amount'' = Some (entry_usd q)" "entry_usd q \<noteq> []"
    using calls p(2,3) decimal_text_nonempty by (simp_all add: hash_after_def q_def Let_def)
  moreover have "entry_stamps q = List.map snd (zset_after t D C c u m)" by (simp add: q_def stamps)
  ultimately show ?thesis
    unfolding usage_slot_def D' using rep by blast
qed

lemma usage_slot_mono: "usage_slot C ids D c ps \<Longrightarrow> ids \<subseteq> ids' \<Longrightarrow> usage_slot C ids' D c ps"
  unfolding usage_slot_def
  by (elim disjE) (simp, elim exE conjE, intro disjI2 exI conjI, assumption+, erule (1) subset_trans, assumption+)

lemma usage_commit:
  assumes "token_pool K" "ids_apart K" "set chain \<subseteq> K" "amount_ok f" "validated_amount amount = Inr f"
    and "usage_spec C (chain, amount) ks D t u cmds" "u \<le> t"
    and slots: "\<forall>c \<in> K. usage_slot C ids D c (token_charges h (jti c))"
    and fresh: "distinct (drawn cmds)" "ids \<inter> set (drawn cmds) = {}"
  shows "\<forall>c \<in> K. usage_slot C (ids \<union> set (drawn cmds)) (apply_all t cmds D) c
           (token_charges (h @ [(u, chain, decimal_of_float f)]) (jti c))"
    and "list_all (allows h u (decimal_of_float f)) chain"
proof -
  let ?a = "decimal_of_float f" and ?D = "apply_all t cmds D"
  obtain tots members where s: "chain_ids_ok chain" "ks = usage_keys C chain" "\<not> list_ex (retention_over u) chain"
      "scores_by u D ks" "\<forall>k \<in> set ks. visible t D k = visible u D k"
      "list_all2 (\<lambda>c tot. usage_total u f C D c = Inr tot) chain tots"
      "length members = length chain" "cmds = all_commands u C chain tots members"
    using assms(5,6) unfolding usage_spec_def traverse_eq_Inr by auto
  have len: "length tots = length chain" using s(6) by (simp add: list_all2_lengthD)
  have distinct: "distinct (List.map jti chain)" using s(1) by (simp add: chain_ids_ok_def)
  have members: "drawn cmds = members" unfolding s(8) by (rule drawn_all [OF len s(7)])
  have each: "room (token_account c) (token_charges h (jti c)) u ?a \<and>
      usage_slot C (ids \<union> set members) ?D c (token_charges h (jti c) @ [(u, ?a, 0)])"
    if mem: "c \<in> set chain" for c
  proof -
    obtain i where i: "i < length chain" "chain ! i = c" using mem by (auto simp: in_set_conv_nth)
    have c: "c \<in> K" using assms(3) mem by blast
    have live: "u < of_int (acct_expiry (token_account c))"
      using s(3) mem by (auto simp: list_ex_iff retention_over_def)
    have "scores_by u D [hash_key C (jti c), zset_key C (jti c)]"
      by (rule scores_by_subset [OF s(4)]) (use s(2) mem in \<open>auto simp: in_usage_keys\<close>)
    moreover have "visible t D k = visible u D k" if "k \<in> {hash_key C (jti c), zset_key C (jti c)}" for k
    proof -
      have "k \<in> set ks" using that mem unfolding s(2) in_usage_keys by blast
      with s(5) show ?thesis by blast
    qed
    ultimately obtain e where e: "entry_matches u (token_account c) (token_charges h (jti c)) e" "\<forall>s \<in> set (entry_stamps e). s \<le> u"
        "stored_int (plain_answer u D (QHGet (hash_key C (jti c)) ''calls'')) = Inr (entry_calls e)"
        "stored_decimal (plain_answer u D (QHGet (hash_key C (jti c)) ''amount'')) = Inr (decimal_value (entry_usd e))"
        "stored_count (plain_answer u D (QZCount (zset_key C (jti c)) (u - 60))) = Inr (int (length (recent_calls u (entry_stamps e))))"
        "(case hash_at t D (hash_key C (jti c)) ''calls'' of None \<Rightarrow> 0 | Some s \<Rightarrow> digits_val s) = entry_calls e"
        "List.map snd (zset_at t D (zset_key C (jti c))) = entry_stamps e" "fst ` set (zset_at t D (zset_key C (jti c))) \<subseteq> ids"
      using usage_view [OF bspec [OF slots c] live] by blast
    have "usage_total u f C D c = Inr (tots ! i)"
      using s(6) i by (auto simp: list_all2_conv_all_nth)
    then obtain n where "within_limits f c (entry_calls e) (decimal_value (entry_usd e)) n = Inr (tots ! i)"
        "rate_limit_per_min (constraints c) \<noteq> None \<Longrightarrow> n = int (length (recent_calls u (entry_stamps e)))"
      using e(3-5) by (auto simp: usage_total_def rbind_eq_Inr split: if_splits)
    from pending_usage [OF this] obtain p where p: "pending u f (token_account c) e = Inr p"
        "entry_calls p = entry_calls e + 1" "entry_usd p = decimal_text (tots ! i)"
        "acct_rate (token_account c) \<noteq> None \<Longrightarrow> entry_stamps p = recent_calls u (entry_stamps e) @ [u]"
      by blast
    have member: "members ! i \<in> set members" "members ! i \<notin> ids" using i(1) s(7) fresh(2) members by auto
    have D': "?D (hash_key C (jti c)) = Some (Hash (hash_after t D C c (tots ! i)), Some (t + of_int (lifetime u C c)))"
      "?D (zset_key C (jti c)) = Some (Zset (zset_after t D C c u (members ! i)), Some (t + of_int (lifetime u C c)))"
      using chain_writes(1) [OF assms(7,2,3) distinct len s(7) i(1), where C = C and D = D] i(2)
      unfolding s(8) Let_def by simp_all
    have "usage_slot C (insert (members ! i) ids) ?D c (token_charges h (jti c) @ [(u, ?a, 0)])"
      by (rule usage_slot_after [OF e(1,2,6-8) member(2) assms(4) token_usd_ok [OF assms(1) c] assms(7) p(1-3) _ D']) (rule p(4))
    moreover have "insert (members ! i) ids \<subseteq> ids \<union> set members" using member(1) by simp
    ultimately have "usage_slot C (ids \<union> set members) ?D c (token_charges h (jti c) @ [(u, ?a, 0)])"
      by (rule usage_slot_mono)
    with pending_room(1) [OF e(1) assms(4)] p(1) show ?thesis by blast
  qed
  then show "list_all (allows h u ?a) chain"
    using s(3) by (auto simp: list_all_iff list_ex_iff allows_room)
  show "\<forall>c \<in> K. usage_slot C (ids \<union> set (drawn cmds)) ?D c (token_charges (h @ [(u, chain, ?a)]) (jti c))"
  proof
    fix c
    assume c: "c \<in> K"
    show "usage_slot C (ids \<union> set (drawn cmds)) ?D c (token_charges (h @ [(u, chain, ?a)]) (jti c))"
    proof (cases "jti c \<in> jti ` set chain")
      case True
      with c assms(1,3) have "c \<in> set chain" by (auto simp: token_pool_def dest: inj_onD)
      with each True show ?thesis by (simp add: token_charges_snoc members)
    next
      case False
      note other_keys [OF assms(2) c assms(3) False, of C]
      then have "?D (hash_key C (jti c)) = D (hash_key C (jti c))" "?D (zset_key C (jti c)) = D (zset_key C (jti c))"
        unfolding s(8) by (simp_all add: apply_all_other all_commands_keys [OF len s(7)])
      with slots c have "usage_slot C ids ?D c (token_charges h (jti c))" by (simp add: usage_slot_def)
      with False usage_slot_mono show ?thesis by (fastforce simp: token_charges_snoc)
    qed
  qed
qed

definition all_drawn :: "(capability_claims list \<times> pyval) commit list \<Rightarrow> string list" where
  "all_drawn cs = concat (List.map (\<lambda>(u, r, cmds). drawn cmds) cs)"

lemma usage_run_ledger:
  assumes "token_pool K" "ids_apart K" "redis_ok R"
    and "sys_run R (redis_record_chain fuel C) (usage_calls K) cs s" "distinct (all_drawn cs)"
  shows "(\<forall>c \<in> K. usage_slot C (set (all_drawn cs)) (data R (server s)) c (token_charges (List.map commit_entry cs) (jti c))) \<and>
    replays any_chain (List.map commit_entry cs) \<and>
    (\<forall>(u, chain, a) \<in> set (List.map commit_entry cs). set chain \<subseteq> K)"
proof -
  let ?J = "\<lambda>t cs D. distinct (all_drawn cs) \<longrightarrow>
    (\<forall>c \<in> K. usage_slot C (set (all_drawn cs)) D c (token_charges (List.map commit_entry cs) (jti c))) \<and>
    replays any_chain (List.map commit_entry cs) \<and>
    (\<forall>(u, chain, a) \<in> set (List.map commit_entry cs). set chain \<subseteq> K)"
  have "?J (time s) cs (data R (server s))"
  proof (rule usage_db.run_invariant [OF assms(3,4), of ?J])
    fix t cs D r ks u cmds
    let ?h = "List.map commit_entry cs"
    assume J: "?J t cs D" and r: "r \<in> usage_calls K" "usage_spec C r ks D t u cmds" "u \<le> t"
    obtain chain amount f where c: "r = (chain, amount)" "validated_amount amount = Inr f"
      using r(2) unfolding usage_spec_def by blast
    have entry: "commit_entry (u, r, cmds) = (u, chain, decimal_of_float f)"
      by (simp add: c commit_entry_def)
    have chain: "set chain \<subseteq> K" "amount_ok f"
      using r(1) c validated_typed [OF c(2)] assms(2) by (auto simp: usage_calls_def ledger_calls_def)
    show "?J t (cs @ [(u, r, cmds)]) (apply_all t cmds D)"
    proof
      assume d: "distinct (all_drawn (cs @ [(u, r, cmds)]))"
      then have d: "distinct (all_drawn cs)" "distinct (drawn cmds)" "set (all_drawn cs) \<inter> set (drawn cmds) = {}"
        by (simp_all add: all_drawn_def)
      with J have before: "\<forall>c \<in> K. usage_slot C (set (all_drawn cs)) D c (token_charges ?h (jti c))" "replays any_chain ?h"
        "\<forall>(u, chain, a) \<in> set ?h. set chain \<subseteq> K" by simp_all
      note after = usage_commit [OF assms(1,2) chain c(2) r(2) [unfolded c(1)] r(3) before(1) d(2,3)]
      have "set (all_drawn (cs @ [(u, r, cmds)])) = set (all_drawn cs) \<union> set (drawn cmds)"
        by (simp add: all_drawn_def)
      with after before(2,3) chain(1)
      show "(\<forall>c \<in> K. usage_slot C (set (all_drawn (cs @ [(u, r, cmds)]))) (apply_all t cmds D) c
            (token_charges (List.map commit_entry (cs @ [(u, r, cmds)])) (jti c))) \<and>
          replays any_chain (List.map commit_entry (cs @ [(u, r, cmds)])) \<and>
          (\<forall>(u, chain, a) \<in> set (List.map commit_entry (cs @ [(u, r, cmds)])). set chain \<subseteq> K)"
        by (simp add: entry replays_snoc)
    qed
  qed (simp_all add: usage_slot_def token_charges_def replays_def)
  with assms(5) show ?thesis by blast
qed

section \<open>The verdict of a call that nobody disturbs\<close>

lemma query_plain:
  assumes "redis_ok R" "\<forall>k. q \<noteq> QTtl k"
  shows "redis.query R t q s = plain_answer t (data R s) q"
  using redis_answers [OF assms(1)] answers_plain [OF assms(2)] by blast

lemma alone_count_recent:
  assumes "redis_ok R"
  shows "alone R t i g r (count_recent now C c k) u s =
    (case (if rate_limit_per_min (constraints c) = None then Inr 0
           else stored_count (plain_answer t (data R s) (QZCount (zset_key C (jti c)) (now - 60)))) of
       Inl e \<Rightarrow> (Inl e, unwatch R i s, []) | Inr n \<Rightarrow> alone R t i g r (k n) u s)"
  by (simp add: count_recent_def query_plain [OF assms] del: plain_answer.simps)

lemma alone_read_usages:
  assumes "redis_ok R"
  shows "alone R t i g r (read_usages t f C cs k) u s =
    (case traverse (usage_total t f C (data R s)) cs of
       Inl e \<Rightarrow> (Inl e, unwatch R i s, []) | Inr tots \<Rightarrow> alone R t i g r (k tots) u s)"
proof (induction cs arbitrary: k)
  case (Cons c cs)
  show ?case
    by (simp add: query_plain [OF assms] alone_count_recent [OF assms] Cons usage_total_def rbind_def
        del: plain_answer.simps traverse_eq_Inr split: sum.split)
qed simp

lemma alone_queue:
  "length tots = length cs \<Longrightarrow> alone R t i g r (queue_usages now C (zip cs tots) k) u s =
     alone R t i g r (k (all_commands now C cs tots (replicate (length cs) g))) u s"
proof (induction cs arbitrary: tots k)
  case (Cons c cs)
  then obtain tot tots' where "tots = tot # tots'" "length tots' = length cs"
    by (metis length_Suc_conv)
  with Cons.IH [of tots'] show ?case by simp
qed simp

lemma alone_usage_attempt:
  assumes "redis_ok R" "\<not> dirty R s i" "watched R s i = {}"
  shows "fst (alone R t i g q (usage_attempt C chain f again) u s) = Inr () \<longleftrightarrow>
    \<not> list_ex (retention_over t) chain \<and> (\<exists>tots. traverse (usage_total t f C (data R s)) chain = Inr tots)"
proof -
  let ?s = "redis.watch R t i (usage_keys C chain) s"
  have s: "data R ?s = data R s" "\<not> dirty R ?s i" "snd ` watched R ?s i \<subseteq> {t}"
    using assms by (simp_all add: redis_watch)
  note fires = redis_fires [OF assms(1) s(2,3)]
  show ?thesis
  proof (cases "traverse (usage_total t f C (data R s)) chain")
    case (Inl e)
    then show ?thesis
      by (simp add: usage_attempt_def alone_read_usages [OF assms(1)] s(1) ensure_def del: traverse_eq_Inr)
  next
    case (Inr tots)
    then have len: "length tots = length chain" by (rule traverse_length)
    obtain S where "redis.exec R t i (all_commands t C chain tots (replicate (length chain) g)) ?s = (True, S)"
      using fires by blast
    with Inr show ?thesis
      by (simp add: usage_attempt_def alone_read_usages [OF assms(1)] s(1) ensure_def alone_queue [OF len] del: traverse_eq_Inr)
  qed
qed

lemma within_limits_pending:
  assumes "rate_limit_per_min (constraints c) \<noteq> None \<Longrightarrow> n = int (length (recent_calls u (entry_stamps e)))"
  shows "(\<exists>tot. within_limits f c (entry_calls e) (decimal_value (entry_usd e)) n = Inr tot) \<longleftrightarrow>
    (\<exists>p. pending u f (token_account c) e = Inr p)"
  using assms
  by (cases "rate_limit_per_min (constraints c)")
     (auto simp: within_limits_def pending_def token_account_def Let_def rbind_eq_Inr ensure_eq_Inr)

lemma usage_total_room:
  assumes "usage_slot C ids D c (token_charges h (jti c))" "slot_typed C t D c" "\<not> retention_over t c" "amount_ok f"
  shows "(\<exists>tot. usage_total t f C D c = Inr tot) \<longleftrightarrow> allows h t (decimal_of_float f) c"
proof -
  have live: "t < of_int (acct_expiry (token_account c))"
    using assms(3) by (simp add: retention_over_def)
  have scores: "scores_by t D [hash_key C (jti c), zset_key C (jti c)]"
    using assms(2) unfolding slot_typed_def scores_by_def by fastforce
  obtain e where e: "entry_matches t (token_account c) (token_charges h (jti c)) e"
      "stored_int (plain_answer t D (QHGet (hash_key C (jti c)) ''calls'')) = Inr (entry_calls e)"
      "stored_decimal (plain_answer t D (QHGet (hash_key C (jti c)) ''amount'')) = Inr (decimal_value (entry_usd e))"
      "stored_count (plain_answer t D (QZCount (zset_key C (jti c)) (t - 60))) = Inr (int (length (recent_calls t (entry_stamps e))))"
    by (rule usage_view [OF assms(1) live scores refl]) (rule that)
  have "(\<exists>tot. usage_total t f C D c = Inr tot) \<longleftrightarrow> (\<exists>p. pending t f (token_account c) e = Inr p)"
    using e(2-4) within_limits_pending [of c 0 t e f] within_limits_pending [of c "int (length (recent_calls t (entry_stamps e)))" t e f]
    by (cases "rate_limit_per_min (constraints c)") (simp_all add: usage_total_def del: plain_answer.simps)
  then show ?thesis
    using pending_room [OF e(1) assms(4)] assms(3) unfolding allows_room by blast
qed

lemma traverse_ok: "(\<exists>ys. traverse f xs = Inr ys) \<longleftrightarrow> (\<forall>x \<in> set xs. \<exists>y. f x = Inr y)"
  by (induction xs) (auto simp del: traverse_eq_Inr simp: rbind_eq_Inr)

lemma undisturbed_usage:
  assumes "token_pool K" "ids_apart K" "redis_ok R"
    and "sys_run R (redis_record_chain fuel C) (usage_calls K) cs s" "distinct (all_drawn cs)" "procs s i = None" "0 < fuel"
    and "(chain, amount) \<in> usage_calls K" "validated_amount amount = Inr f"
  shows "fst (alone R (time s) i g r (redis_record_chain fuel C (chain, amount)) 0 (server s)) = Inr () \<longleftrightarrow>
    chain_ids_ok chain \<and> list_all (allows (List.map commit_entry cs) (time s) (decimal_of_float f)) chain"
proof -
  let ?D = "data R (server s)" and ?h = "List.map commit_entry cs"
  have ok: "set chain \<subseteq> K" "amount_ok f"
    using assms(2,8) validated_typed [OF assms(9)] by (auto simp: usage_calls_def ledger_calls_def)
  note inv = usage_db.sys_run_inv [OF assms(3,4)]
  have fine: "fine_usage C K (time s) ?D"
    using inv by (simp add: usage_db.sys_inv_def)
  have clean: "\<not> dirty R (server s) i" "watched R (server s) i = {}"
    using inv assms(6) unfolding usage_db.sys_inv_def by (metis usage_db.conn_ok_simps(1))+
  have slots: "\<forall>c \<in> K. usage_slot C (set (all_drawn cs)) ?D c (token_charges ?h (jti c))"
    using usage_run_ledger [OF assms(1-5)] by blast
  have each: "(\<exists>tot. usage_total (time s) f C ?D c = Inr tot) \<longleftrightarrow> allows ?h (time s) (decimal_of_float f) c"
    if "c \<in> set chain" "\<not> retention_over (time s) c" for c
    using usage_total_room [OF bspec [OF slots] _ that(2) ok(2)] fine ok(1) that(1) unfolding fine_usage_def by blast
  have verdict: "(\<not> list_ex (retention_over (time s)) chain \<and> (\<exists>tots. traverse (usage_total (time s) f C ?D) chain = Inr tots)) \<longleftrightarrow>
      list_all (allows ?h (time s) (decimal_of_float f)) chain"
    unfolding traverse_ok using each by (auto simp: list_all_iff list_ex_iff allows_room)
  obtain n where "fuel = Suc n" using assms(7) by (cases fuel) auto
  then show ?thesis
  proof (cases "chain_ids_ok chain")
    case True
    have start: "redis_record_chain fuel C (chain, amount) = usage_attempt C chain f (usage_attempts n C chain f)"
      using assms(9) True \<open>fuel = Suc n\<close> by (simp add: redis_record_chain_def ensure_def)
    show ?thesis
      unfolding start alone_usage_attempt [OF assms(3) clean] verdict using True by simp
  next
    case False
    with assms(9) show ?thesis by (simp add: redis_record_chain_def ensure_def)
  qed
qed

section \<open>A sample call\<close>

lemma drawn_lengths:
  assumes "ids_apart K" "redis_ok R" "sys_run R (redis_record_chain fuel C) (usage_calls K) cs s"
  shows "\<forall>(u, (chain, amount), cmds) \<in> set cs. length (drawn cmds) = length chain"
  by (rule usage_db.run_invariant [OF assms(2,3), of "\<lambda>t cs D. \<forall>(u, (chain, amount), cmds) \<in> set cs. length (drawn cmds) = length chain"])
     (auto simp: usage_spec_def drawn_all dest!: traverse_length)

definition sample_usage_config :: usage_config where
  "sample_usage_config = \<lparr>usage_prefix = ''p:'', usage_ttl = 60\<rparr>"

lemma sample_usage_facts:
  "token_pool {one_call}" "ids_apart {one_call}" "([one_call], PInt 0) \<in> usage_calls {one_call}"
  "validated_amount (PInt 0) = Inr (Fin 0)" "sys_run plain_redis start calls [] (plain_start 101)"
  "chain_ids_ok [one_call]" "list_all (allows [] 101 (decimal_of_float (Fin 0))) [one_call]"
proof -
  show "token_pool {one_call}" using one_call_requests by (simp add: requests_ok_def)
  show "ids_apart {one_call}" by (simp add: ids_apart_def)
  then show "([one_call], PInt 0) \<in> usage_calls {one_call}"
    by (simp add: usage_calls_def ledger_calls_def typed_amount_def)
  show "validated_amount (PInt 0) = Inr (Fin 0)"
    by (simp add: validated_amount_def float_of_int_def round_double_def)
  have "binary64_number 101" unfolding binary64_number_def by code_simp
  then show "sys_run plain_redis start calls [] (plain_start 101)"
    by (intro plain_start_run) simp_all
  show "list_all (allows [] 101 (decimal_of_float (Fin 0))) [one_call]"
    using repr_value_nonneg [of 2] by (simp add: allows_def decimal_of_float_def repr_value_def [of 0] limits_defs)
qed (simp add: chain_ids_ok_def)

abbreviation sample_start :: "(plain_server, capability_claims list \<times> pyval, unit) system" where
  "sample_start \<equiv> plain_start 101"

lemma sample_start_simps [simp]:
  "procs sample_start i = None" "time sample_start = 101" "server sample_start = (Map.empty, \<lambda>i. {}, \<lambda>i. False)"
  by (simp_all add: plain_start_def)

lemma sample_usage_run:
  obtains u cmds s where "sys_run plain_redis (redis_record_chain 1 sample_usage_config) (usage_calls {one_call})
    [(u, ([one_call], PInt 0), cmds)] s" "distinct (all_drawn [(u, ([one_call], PInt 0), cmds)])"
proof -
  let ?start = "redis_record_chain 1 sample_usage_config" and ?r = "([one_call], PInt 0)"
  note f = sample_usage_facts
  obtain x s' cs where run: "alone plain_redis (time sample_start) 0 [] ?r (?start ?r) 0 (server sample_start) = (x, s', cs)"
    by (metis prod.exhaust)
  have "distinct (all_drawn [])" by (simp add: all_drawn_def)
  note verdict = undisturbed_usage [OF f(1,2) plain_redis_ok f(5) this sample_start_simps(1) _ f(3,4)]
  have "fst (x, s', cs) = Inr ()"
    unfolding run [symmetric] using verdict [where fuel = 1 and C = sample_usage_config and i = 0 and g = "[]" and r = ?r] f(6,7) by simp
  with alone_once [OF redis_record_once run] obtain u cmds where cs: "cs = [(u, ?r, cmds)]" by auto
  have "sys_run plain_redis ?start (usage_calls {one_call}) [(u, ?r, cmds)]
      (sample_start\<lparr>server := s', finished := (?r, x) # finished sample_start\<rparr>)"
    using alone_run [where sys = sample_start and i = 0 and start = ?start and r = ?r, OF f(5) sample_start_simps(1) f(3) run]
    unfolding cs by (simp only: append_Nil)
  moreover from drawn_lengths [OF f(2) plain_redis_ok this] have "length (drawn cmds) = 1" by simp
  then have "distinct (all_drawn [(u, ?r, cmds)])" by (auto simp: all_drawn_def length_Suc_conv)
  ultimately show thesis by (rule that)
qed

section \<open>Properties\<close>

text \<open>C20. Redis usage tracking is serializable and keeps every limit. Any number of processes share one server and are
  interleaved at every command and clock reading. If no drawn member id repeats, the calls they commit, in the order of
  their commits, are calls that the ledger accepts one after the other, and the calls, amounts and rate of every token
  stay within its limits: neither expiring keys, pruned timestamps, decimal text nor a clock read before the
  commit loses a charge. (No token id is another one followed by \<open>:calls\<close>: such ids share a key.)\<close>

theorem redis_usage_within_limits:
  assumes "token_pool K" "ids_apart K" "redis_ok R"
    and "sys_run R (redis_record_chain fuel C) (usage_calls K) cs s" "distinct (all_drawn cs)"
  defines "h \<equiv> List.map commit_entry cs"
  shows "replays any_chain h \<and> ledger_within K h"
  using usage_run_ledger [OF assms(1-5)] assms(1) replays_within unfolding h_def token_pool_def by blast

theorem redis_usage_within_limits_witness:
  "\<exists>u. replays any_chain [(u, [one_call], 0)] \<and> ledger_within {one_call} [(u, [one_call], 0)]"
proof -
  obtain u cmds s where "sys_run plain_redis (redis_record_chain 1 sample_usage_config) (usage_calls {one_call})
    [(u, ([one_call], PInt 0), cmds)] s" "distinct (all_drawn [(u, ([one_call], PInt 0), cmds)])"
    by (rule sample_usage_run)
  from redis_usage_within_limits [OF sample_usage_facts(1,2) plain_redis_ok this] show ?thesis
    by (auto simp: commit_entry_def sample_usage_facts(4) decimal_of_float_def repr_value_def)
qed

text \<open>A call charges all tokens of its chain once, or none: a process about to return normally has committed one
  transaction and a process about to raise has committed none.\<close>

lemma redis_usage_once_each:
  assumes "sys_run R (redis_record_chain fuel C) (usage_calls K) cs s"
    and "procs s i = Some p" "program p = Return x"
  shows "commits p = (if x = Inr () then 1 else 0)"
  using commits_once [OF assms(1) redis_record_once assms(2)] assms(3)
  by (cases x) (auto simp: once_def split: if_splits)

text \<open>C21. A call that nobody disturbs returns at its first attempt, with the ledger's verdict: normally exactly when the
  calls committed so far leave room for it in every token of the chain.\<close>

theorem redis_usage_verdict:
  assumes "token_pool K" "ids_apart K" "redis_ok R"
    and "sys_run R (redis_record_chain fuel C) (usage_calls K) cs s" "distinct (all_drawn cs)" "procs s i = None" "0 < fuel"
    and "(chain, amount) \<in> usage_calls K" "validated_amount amount = Inr f"
  shows "fst (alone R (time s) i g r (redis_record_chain fuel C (chain, amount)) 0 (server s)) = Inr () \<longleftrightarrow>
    chain_ids_ok chain \<and> list_all (allows (List.map commit_entry cs) (time s) (decimal_of_float f)) chain"
  by (rule undisturbed_usage [OF assms])

theorem redis_usage_verdict_witness:
  "fst (alone plain_redis 101 0 [] () (redis_record_chain 1 sample_usage_config ([one_call], PInt 0)) 0
     (Map.empty, \<lambda>i. {}, \<lambda>i. False)) = Inr ()"
proof -
  have "distinct (all_drawn [])" by (simp add: all_drawn_def)
  from redis_usage_verdict [OF sample_usage_facts(1,2) plain_redis_ok sample_usage_facts(5) this sample_start_simps(1) _ sample_usage_facts(3,4),
      where fuel = 1 and C = sample_usage_config and i = 0 and g = "[]" and r = "()"] sample_usage_facts(6,7)
  show ?thesis by simp
qed

end
