(* ===== verification/RedisBudgets.thy ===== *)
theory RedisBudgets
  imports RedisLedger
begin

text \<open>
  \<open>RedisBudgetUsageTracker\<close> of \<open>swarmauth/budgets.py\<close>, as a program of the Redis model: an attempt watches
  the keys of all its accounts, reads their entries, checks them and writes them in one transaction, and a
  conflicting write makes it start again, at most \<open>max_retries\<close> times. The properties are those of the
  in-memory tracker, now for any number of verifier processes.

  \<open>hashlib.sha256(\<dots>).hexdigest()\<close> is the parameter \<open>sha\<close>; only its freedom from collisions among the account keys in
  use matters.
\<close>

section \<open>Entries as JSON text\<close>

definition entry_fields :: "entry \<Rightarrow> params" where
  "entry_fields e =
     [(''calls'', PInt (entry_calls e)), (''usd'', PStr (entry_usd e)), (''minor'', PInt (entry_minor e)),
      (''timestamps'', PList (List.map (\<lambda>t. PFloat (Fin t)) (entry_stamps e))), (''expiry'', PInt (entry_expiry e))]"

definition entry_text :: "entry \<Rightarrow> string" where
  \<comment> \<open>\<open>json.dumps(entry, separators=(",", ":"))\<close>: the fields in their order\<close>
  "entry_text e = ''{'' @ join_with '','' (List.map (\<lambda>(k, v). member_text (k, json_text v)) (entry_fields e)) @ ''}''"

fun stamp_of :: "pyval \<Rightarrow> rat option" where
  "stamp_of (PFloat (Fin t)) = Some t"
| "stamp_of _ = None"

definition entry_of :: "pyval \<Rightarrow> entry result" where
  \<comment> \<open>what \<open>_pending\<close> gets from a decoded entry; an entry of another shape than the one it writes is refused here\<close>
  "entry_of v =
     (case v of
        PDict d \<Rightarrow>
          (case (field_or (PInt 0) d ''calls'', field_or (PStr ''0'') d ''usd'', field_or (PInt 0) d ''minor'',
                 field_or (PList []) d ''timestamps'', field_or (PInt 0) d ''expiry'') of
             (PInt calls, PStr usd, PInt minor, PList stamps, PInt expiry) \<Rightarrow>
               (case those (List.map stamp_of stamps) of
                  None \<Rightarrow> Inl (OtherError ''entry'')
                | Some ts \<Rightarrow> Inr \<lparr>entry_calls = calls, entry_usd = usd, entry_minor = minor,
                    entry_stamps = ts, entry_expiry = expiry\<rparr>)
           | _ \<Rightarrow> Inl (OtherError ''entry''))
      | _ \<Rightarrow> Inl (OtherError ''entry''))"

definition load_entry :: "answer \<Rightarrow> entry result" where
  \<comment> \<open>\<open>json.loads(pipe.get(key) or "{}")\<close>\<close>
  "load_entry a =
     (case a of
        AText None \<Rightarrow> Inr no_entry
      | AText (Some raw) \<Rightarrow>
          if raw = [] then Inr no_entry
          else (case json_loads raw of None \<Rightarrow> Inl ValueError | Some v \<Rightarrow> entry_of v)
      | _ \<Rightarrow> Inl (OtherError ''ResponseError''))"

section \<open>The tracker\<close>

record redis_budget_config =
  ledger_config :: budget_config
  key_prefix :: string
  max_retries :: int

definition make_redis_budget_tracker ::
  "budget_rule list \<Rightarrow> string \<Rightarrow> bool \<Rightarrow> pyval \<Rightarrow> redis_budget_config result" where
  \<comment> \<open>\<open>RedisBudgetUsageTracker.__init__\<close>\<close>
  "make_redis_budget_tracker rs pre require retries =
     rbind (make_budget_tracker rs require) (\<lambda>B.
     case retries of
       PInt n \<Rightarrow> if n < 1 then Inl ValueError
                else Inr \<lparr>ledger_config = B, key_prefix = pre, max_retries = n\<rparr>
     | _ \<Rightarrow> Inl ValueError)"

definition stored_key :: "(string \<Rightarrow> string) \<Rightarrow> redis_budget_config \<Rightarrow> account \<Rightarrow> string" where
  "stored_key sha C r = key_prefix C @ sha (acct_key r)"

fun read_entries :: "string list \<Rightarrow> (entry list \<Rightarrow> 'a prog) \<Rightarrow> 'a prog" where
  "read_entries [] c = c []"
| "read_entries (k # ks) c =
     Query (QGet k) (\<lambda>a. from_result (load_entry a) (\<lambda>e. read_entries ks (\<lambda>es. c (e # es))))"

definition write_entry :: "rat \<Rightarrow> string \<Rightarrow> account \<Rightarrow> entry \<Rightarrow> command" where
  "write_entry now k r e = SetPx k (entry_text e) (max 1 \<lceil>(of_int (acct_expiry r) - now) * 1000\<rceil>)"

definition budget_attempt ::
  "(string \<Rightarrow> string) \<Rightarrow> redis_budget_config \<Rightarrow> capability_claims list \<Rightarrow> pyfloat \<Rightarrow> unit prog \<Rightarrow> unit prog" where
  \<comment> \<open>the body of the retry loop\<close>
  "budget_attempt sha C chain amount again =
     Now (\<lambda>now. from_result (records_of (ledger_config C) now chain) (\<lambda>records.
       let keys = List.map (stored_key sha C) records
       in Watch keys (read_entries keys (\<lambda>current.
         Now (\<lambda>now. from_result (records_of (ledger_config C) now chain) (\<lambda>records.
           from_result (rbind (ensure (length records = length current) ValueError) (\<lambda>_.
             traverse (\<lambda>(r, e). pending now amount r e) (zip records current))) (\<lambda>entries.
           Exec (List.map (\<lambda>(k, r, e). write_entry now k r e) (zip keys (zip records entries)))
             (\<lambda>ok. if ok then Return (Inr ()) else again))))))))"

fun budget_attempts ::
  "nat \<Rightarrow> (string \<Rightarrow> string) \<Rightarrow> redis_budget_config \<Rightarrow> capability_claims list \<Rightarrow> pyfloat \<Rightarrow> unit prog" where
  "budget_attempts 0 sha C chain amount = Return (Inl budget_violation)"
| "budget_attempts (Suc n) sha C chain amount =
     budget_attempt sha C chain amount (budget_attempts n sha C chain amount)"

definition redis_budget_record_chain ::
  "(string \<Rightarrow> string) \<Rightarrow> redis_budget_config \<Rightarrow> capability_claims list \<times> pyval \<Rightarrow> unit prog" where
  \<comment> \<open>\<open>RedisBudgetUsageTracker.check_and_record_chain\<close>\<close>
  "redis_budget_record_chain sha C request =
     (case request of (chain, amount) \<Rightarrow>
        from_result (validated_amount amount) (\<lambda>amount.
        budget_attempts (nat (max_retries C)) sha C chain amount))"

section \<open>Entries are read back\<close>

definition entry_ok :: "entry \<Rightarrow> bool" where
  "entry_ok e \<longleftrightarrow> list_all binary64_number (entry_stamps e)"

lemma those_stamps: "those (List.map stamp_of (List.map (\<lambda>t. PFloat (Fin t)) ts)) = Some ts"
  by (induction ts) simp_all

lemma entry_of_fields: "entry_of (PDict (entry_fields e)) = Inr e"
  by (simp add: entry_of_def entry_fields_def field_or_def those_stamps [simplified] del: list.map)

text \<open>
  An integer of more than 4300 digits is not read back: the interpreter refuses to parse it. Such an entry makes
  every reservation of its account fail.
\<close>

lemma digits_val_less: "list_all is_digit ds \<Longrightarrow> digits_val ds < 10 ^ length ds"
proof (induction ds rule: rev_induct)
  case (snoc d ds)
  then have "digits_val ds + 1 \<le> 10 ^ length ds" "digit_val d \<le> 9"
    by (simp_all add: is_digit_def)
  then show ?case by (simp add: digits_val_snoc)
qed (simp add: digits_val_def)

lemma scan_long_digits:
  assumes "10 ^ 4300 \<le> n" "delimited r"
  shows "scan_unsigned (int_digits n @ r) = None" "\<exists>d t. int_digits n @ r = d # t \<and> is_digit d"
proof -
  have n: "0 \<le> n" using assms(1) zero_le_power [of "10 :: int" 4300] by linarith
  note f = int_digits_facts [OF n]
  have "n < 10 ^ length (int_digits n)" using f digits_val_less by metis
  with assms(1) have "(10 :: int) ^ 4300 < 10 ^ length (int_digits n)" by (rule le_less_trans)
  then have long: "4300 < length (int_digits n)" by (rule power_less_imp_less_exp [rotated]) simp
  then have "n \<noteq> 0" by (auto simp: int_digits.simps [of 0])
  then show "scan_unsigned (int_digits n @ r) = None"
    using f long assms(2) by (subst scan_unsigned_ip) (simp_all add: delimited_cases)
  show "\<exists>d t. int_digits n @ r = d # t \<and> is_digit d"
    using f by (cases "int_digits n") auto
qed

definition unread :: "string \<Rightarrow> bool" where
  \<comment> \<open>a text at which the decoder gives up\<close>
  "unread s \<longleftrightarrow> (\<forall>r. delimited r \<longrightarrow> scan_value (s @ r) = None \<and> skip_ws (s @ r) = s @ r)"

lemma long_int_unread:
  assumes "\<not> int_readable n"
  shows "unread (int_str n)"
  unfolding unread_def
proof (intro allI impI)
  fix r
  assume r: "delimited r"
  have "10 ^ 4300 \<le> \<bar>n\<bar>" using assms unfolding int_readable_def by linarith
  note none = scan_long_digits [OF this r]
  from none(2) obtain d t where s: "int_digits \<bar>n\<bar> @ r = d # t" "is_digit d" by blast
  then have d: "d \<notin> {CHR ''n'', CHR ''t'', CHR ''f'', CHR ''-'', CHR ''N'', CHR ''I'', quote, CHR ''['', CHR ''{''}" "value_start d"
    by (auto simp: is_digit_def digit_val_def quote_def value_start_def is_ws_def)
  have "value_start CHR ''-''" "CHR ''-'' \<noteq> quote" by (simp_all add: value_start_def is_ws_def quote_def)
  then have minus: "scan_value (CHR ''-'' # d # t) = None" "skip_ws (CHR ''-'' # d # t) = CHR ''-'' # d # t"
    using none(1) s(1) d by (simp_all add: scan_value.simps scan_literal_def skip_ws_start)
  have plus: "scan_value (d # t) = None" "skip_ws (d # t) = d # t"
    using none(1) s(1) d by (simp_all add: scan_value.simps scan_literal_def skip_ws_start)
  show "scan_value (int_str n @ r) = None \<and> skip_ws (int_str n @ r) = int_str n @ r"
    using minus plus s(1) by (cases "n < 0") (simp_all add: int_str_def)
qed

lemma scan_members_unread:
  assumes "\<forall>(k, s) \<in> set ms. unread s \<or> (\<exists>v. reads_as s v)" "\<exists>(k, s) \<in> set ms. unread s"
  shows "scan_members (join_with '','' (List.map member_text ms) @ CHR ''}'' # r) = None"
  using assms
proof (induction ms rule: induct_list012)
  case (2 m)
  then show ?case
    by (cases m) (auto simp: scan_members.simps member_text_def json_string_def scan_json_string unread_def)
next
  case (3 m m' ms)
  obtain k s where m: "m = (k, s)" by (cases m)
  define t where "t = join_with '','' (List.map member_text (m' # ms)) @ CHR ''}'' # r"
  have skip: "skip_ws t = t"
    unfolding t_def by (cases ms) (simp_all add: member_text_def json_string_def)
  have whole: "join_with '','' (List.map member_text (m # m' # ms)) @ CHR ''}'' # r =
      quote # (concat (List.map json_escape k) @ quote # CHR '':'' # s @ CHR '','' # t)"
    by (simp add: t_def m member_text_def json_string_def)
  show ?case
  proof (cases "unread s")
    case True
    then show ?thesis
      unfolding whole by (simp add: scan_members.simps [of "quote # _"] scan_json_string unread_def)
  next
    case False
    with 3 m obtain v where v: "reads_as s v" by auto
    have "scan_members t = None"
      unfolding t_def by (rule "3.IH"(2)) (use "3.prems" m False in auto)
    with skip show ?thesis
      unfolding whole by (simp add: scan_members.simps [of "quote # _"] scan_json_string reads_as_scan [OF v])
  qed
qed simp

definition entry_members :: "entry \<Rightarrow> (string \<times> string) list" where
  "entry_members e = List.map (\<lambda>(k, v). (k, json_text v)) (entry_fields e)"

lemma entry_text_members: "entry_text e = ''{'' @ join_with '','' (List.map member_text (entry_members e)) @ ''}''"
  by (simp add: entry_text_def entry_members_def split_def comp_def)

lemma int_text_reads: "int_readable n \<Longrightarrow> reads_as (int_str n) (PInt n)"
  using json_text_reads [of "PInt n"] by simp

lemma stamps_text_read:
  assumes "list_all binary64_number ts"
  shows "reads_as (json_text (PList (List.map (\<lambda>t. PFloat (Fin t)) ts))) (PList (List.map (\<lambda>t. PFloat (Fin t)) ts))"
  using json_text_reads [of "PList (List.map (\<lambda>t. PFloat (Fin t)) ts)"] assms
  by (simp add: list_all_iff finite_float_def comp_def)

definition entry_readable :: "entry \<Rightarrow> bool" where
  "entry_readable e \<longleftrightarrow> int_readable (entry_calls e) \<and> int_readable (entry_minor e) \<and> int_readable (entry_expiry e)"

lemma load_readable:
  assumes "entry_ok e" "entry_readable e"
  shows "load_entry (AText (Some (entry_text e))) = Inr e"
proof -
  define stamps where "stamps = PList (List.map (\<lambda>t. PFloat (Fin t)) (entry_stamps e))"
  have "reads_as (json_text stamps) stamps"
    using assms(1) stamps_text_read by (simp add: stamps_def entry_ok_def)
  then have "list_all2 (\<lambda>(k, s) (k', v). k = k' \<and> reads_as s v) (entry_members e) (entry_fields e)"
    using assms(2) by (simp add: entry_readable_def entry_members_def entry_fields_def int_text_reads reads_as_string
        flip: stamps_def)
  then have "reads_as (entry_text e) (PDict (entry_fields e))"
    unfolding entry_text_members by (rule reads_as_dict) (simp add: entry_fields_def)
  from reads_as_scan [OF this, of "[]"] have "json_loads (entry_text e) = Some (PDict (entry_fields e))"
    by (simp add: json_loads_def delimited_def skip_ws_def)
  then show ?thesis by (simp add: load_entry_def entry_of_fields entry_text_def)
qed

lemma load_entry_text:
  assumes "entry_ok e"
  shows "load_entry (AText (Some (entry_text e))) \<in> {Inr e, Inl ValueError}"
proof (cases "entry_readable e")
  case True
  with load_readable [OF assms] show ?thesis by simp
next
  case False
  have each: "unread (int_str n) \<or> (\<exists>v. reads_as (int_str n) v)" for n
    using long_int_unread int_text_reads by blast
  obtain t where t: "join_with '','' (List.map member_text (entry_members e)) @ CHR ''}'' # [] = quote # t"
    by (simp add: entry_members_def entry_fields_def member_text_def json_string_def)
  have "scan_members (join_with '','' (List.map member_text (entry_members e)) @ CHR ''}'' # []) = None"
  proof (rule scan_members_unread)
    show "\<forall>(k, s) \<in> set (entry_members e). unread s \<or> (\<exists>v. reads_as s v)"
      using assms stamps_text_read [of "entry_stamps e"] reads_as_string each
      by (auto simp: entry_members_def entry_fields_def entry_ok_def simp del: json_text.simps(6))
    show "\<exists>(k, s) \<in> set (entry_members e). unread s"
      using False long_int_unread by (auto simp: entry_readable_def entry_members_def entry_fields_def)
  qed
  moreover have "entry_text e = CHR ''{'' # quote # t"
    using t by (simp add: entry_text_members)
  ultimately have "json_loads (entry_text e) = None"
    by (simp add: t json_loads_def scan_value.simps [of "CHR ''{'' # _"] skip_ws_start value_start_def is_ws_def quote_def)
  then show ?thesis by (simp add: load_entry_def entry_text_def)
qed

section \<open>What an attempt commits\<close>

definition fine_entries :: "rat \<Rightarrow> database \<Rightarrow> bool" where
  \<comment> \<open>the database holds entries the tracker wrote by \<open>t\<close>\<close>
  "fine_entries t D \<longleftrightarrow>
     (\<forall>k v d. D k = Some (v, d) \<longrightarrow>
        (\<exists>e. v = Text (entry_text e) \<and> entry_ok e \<and> (\<forall>s \<in> set (entry_stamps e). s \<le> t)))"

definition entry_read :: "rat \<Rightarrow> database \<Rightarrow> string \<Rightarrow> entry \<Rightarrow> bool" where
  "entry_read t D k e \<longleftrightarrow> (\<exists>a. answers t D (QGet k) a \<and> load_entry a = Inr e)"

lemma entry_read_fine:
  assumes "entry_read t D k e" "fine_entries t' D"
  shows "e = no_entry \<and> visible t D k = None \<or>
    (\<exists>d. D k = Some (Text (entry_text e), d) \<and> entry_ok e \<and> (\<forall>s \<in> set (entry_stamps e). s \<le> t'))"
proof (cases "visible t D k")
  case None
  with assms(1) show ?thesis by (auto simp: entry_read_def load_entry_def)
next
  case (Some v)
  then obtain d where D: "D k = Some (v, d)"
    by (auto simp: visible_def split: option.splits if_splits)
  with assms(2) obtain e' where e': "v = Text (entry_text e')" "entry_ok e'" "\<forall>s \<in> set (entry_stamps e'). s \<le> t'"
    unfolding fine_entries_def by blast
  have "e' = e"
    using assms(1) Some load_entry_text [OF e'(2)] by (auto simp: entry_read_def e'(1))
  with D e' show ?thesis by auto
qed

text \<open>
  An attempt that is not disturbed writes, at a reading \<open>u\<close> of the clock, the entries that the code's \<open>_pending\<close> computes
  from entries read no later than \<open>u\<close>.
\<close>

definition budget_spec ::
  "(string \<Rightarrow> string) \<Rightarrow> redis_budget_config \<Rightarrow> capability_claims list \<times> pyval \<Rightarrow>
     string list \<Rightarrow> database \<Rightarrow> rat \<Rightarrow> command list \<Rightarrow> bool" where
  "budget_spec sha C request ks D u cmds \<longleftrightarrow>
     (\<exists>chain amount f rs es ps. request = (chain, amount) \<and> validated_amount amount = Inr f \<and> binary64_number u \<and>
        records_of (ledger_config C) u chain = Inr rs \<and> ks = List.map (stored_key sha C) rs \<and>
        list_all2 (\<lambda>k e. \<exists>t \<le> u. entry_read t D k e) ks es \<and>
        (\<forall>e \<in> set es. entry_ok e \<and> (\<forall>s \<in> set (entry_stamps e). s \<le> u)) \<and>
        traverse (\<lambda>(r, e). pending u f r e) (zip rs es) = Inr ps \<and>
        cmds = List.map (\<lambda>(k, r, e). write_entry u k r e) (zip ks (zip rs ps)))"

lemma read_entries_commits:
  assumes "set ks \<subseteq> W"
    and "\<And>t' es. t \<le> t' \<Longrightarrow> list_all2 (\<lambda>k e. \<exists>s \<le> t'. entry_read s D k e) ks es \<Longrightarrow> commits_only Q W w D t' u (c es)"
  shows "commits_only Q W w D t u (read_entries ks c)"
  using assms
proof (induction ks arbitrary: t c)
  case (Cons k ks)
  have "commits_only Q W w D t' u (read_entries ks (\<lambda>es. c (e # es)))"
    if "t \<le> t'" "answers t' D (QGet k) a" "load_entry a = Inr e" for t' a e
  proof (rule Cons.IH)
    fix t'' es
    assume later: "t' \<le> t''" "list_all2 (\<lambda>k e. \<exists>s \<le> t''. entry_read s D k e) ks es"
    have "entry_read t' D k e" using that by (auto simp: entry_read_def)
    with that(1) later show "commits_only Q W w D t'' u (c (e # es))"
      by (intro Cons.prems(2)) auto
  qed (use Cons.prems(1) in simp)
  with Cons.prems(1) show ?case by auto
qed simp

lemma read_entries_segments:
  "(\<And>es. each_segment P (c es)) \<Longrightarrow> each_segment P (read_entries ks c)"
  by (induction ks arbitrary: c) auto

lemma read_entries_once:
  "(\<And>es. one_commit (c es)) \<Longrightarrow> one_commit (read_entries ks c)"
  by (induction ks arbitrary: c) auto

lemma records_of_same:
  assumes "records_of B u chain = Inr rs" "records_of B u' chain = Inr rs'"
  shows "rs = rs'"
  using assms by (auto simp: records_of_iff shared_account_cases split: option.splits)

abbreviation budget_segment ::
  "(string \<Rightarrow> string) \<Rightarrow> redis_budget_config \<Rightarrow> capability_claims list \<times> pyval \<Rightarrow> string list \<Rightarrow> 'a prog \<Rightarrow> bool" where
  "budget_segment sha C r ks p \<equiv>
     \<forall>D t u. fine_entries t D \<longrightarrow> commits_only (\<lambda>t. budget_spec sha C r ks D) (set ks) t D t u p"

lemma budget_attempt_segments:
  assumes "validated_amount amount = Inr f"
    and "budget_segment sha C (chain, amount) [] again" "each_segment (budget_segment sha C (chain, amount)) again"
  shows "each_segment (budget_segment sha C (chain, amount)) (budget_attempt sha C chain f again)"
proof -
  have "commits_only (\<lambda>t. budget_spec sha C (chain, amount) keys D) (set keys) t D t u
      (read_entries keys (\<lambda>current.
         Now (\<lambda>now. from_result (records_of (ledger_config C) now chain) (\<lambda>records.
           from_result (rbind (ensure (length records = length current) ValueError) (\<lambda>_.
             traverse (\<lambda>(r, e). pending now f r e) (zip records current))) (\<lambda>entries.
           Exec (List.map (\<lambda>(k, r, e). write_entry now k r e) (zip keys (zip records entries)))
             (\<lambda>ok. if ok then Return (Inr ()) else again))))))"
    if fine: "fine_entries t D" and rs: "records_of (ledger_config C) v chain = Inr rs"
      and keys: "keys = List.map (stored_key sha C) rs" for D t u v rs keys
  proof (rule read_entries_commits, simp, unfold commits_only.simps, intro allI impI commits_only_result, elim conjE)
    fix t' es now rs' ps
    assume t': "t \<le> t'" "list_all2 (\<lambda>k e. \<exists>s \<le> t'. entry_read s D k e) keys es" "t' \<le> now" "binary64_number now"
      and rs': "records_of (ledger_config C) now chain = Inr rs'"
      and ps: "rbind (ensure (length rs' = length es) ValueError) (\<lambda>_. traverse (\<lambda>(r, e). pending now f r e) (zip rs' es)) = Inr ps"
    have "rs' = rs" using records_of_same [OF rs rs'] by simp
    moreover have "list_all2 (\<lambda>k e. \<exists>s \<le> now. entry_read s D k e) keys es"
      using t'(2) by (rule list_all2_mono) (use t'(3) in \<open>meson order_trans\<close>)
    moreover have "entry_ok e \<and> (\<forall>s \<in> set (entry_stamps e). s \<le> now)" if mem: "e \<in> set es" for e
    proof -
      obtain k s where "entry_read s D k e"
        using list_all2_mem_right [OF t'(2) mem] by blast
      then show ?thesis
        using entry_read_fine [OF _ fine] t'(1,3) by (force simp: no_entry_def entry_ok_def)
    qed
    ultimately show "commits_only (\<lambda>t. budget_spec sha C (chain, amount) keys D) (set keys) t D now now
        (Exec (List.map (\<lambda>(k, r, e). write_entry now k r e) (zip keys (zip rs' ps)))
             (\<lambda>ok. if ok then Return (Inr ()) else again))"
      using assms(1) t'(4) rs' ps keys unfolding budget_spec_def commits_only.simps
      by (intro allI impI exI [of _ chain] exI [of _ amount] exI [of _ f] exI [of _ rs] exI [of _ es] exI [of _ ps])
         (simp add: rbind_eq_Inr)
  qed
  then show ?thesis
    using assms(2,3) unfolding budget_attempt_def Let_def
    by (auto intro!: read_entries_segments)
qed

lemma budget_attempts_segments:
  assumes "validated_amount amount = Inr f"
  shows "budget_segment sha C (chain, amount) [] (budget_attempts n sha C chain f) \<and>
    each_segment (budget_segment sha C (chain, amount)) (budget_attempts n sha C chain f)"
proof (induction n)
  case (Suc n)
  then show ?case
    using budget_attempt_segments [OF assms] by (auto simp: budget_attempt_def Let_def)
qed simp

text \<open>The transaction, as one list of keys, accounts and entries.\<close>

abbreviation writes :: "rat \<Rightarrow> (string \<times> account \<times> entry) list \<Rightarrow> command list" where
  "writes u xs \<equiv> List.map (\<lambda>(k, r, e). write_entry u k r e) xs"

lemma writes_snoc:
  "apply_all t (writes u (xs @ [(k, r, e)])) D =
     (apply_all t (writes u xs) D)(k \<mapsto>
        (Text (entry_text e), Some (t + of_int (max 1 \<lceil>(of_int (acct_expiry r) - u) * 1000\<rceil>) / 1000)))"
  by (simp add: apply_all_def write_entry_def)

lemma writes_fine:
  assumes "fine_entries t D" "\<forall>(k, r, e) \<in> set xs. entry_ok e \<and> (\<forall>s \<in> set (entry_stamps e). s \<le> t)"
  shows "fine_entries t (apply_all t (writes u xs) D)"
  using assms(2)
proof (induction xs rule: rev_induct)
  case Nil
  with assms(1) show ?case by (simp add: apply_all_def)
next
  case (snoc x xs)
  obtain k r e where x: "x = (k, r, e)" by (cases x)
  from snoc show ?case unfolding x writes_snoc by (auto simp: fine_entries_def)
qed

lemma writes_lookup:
  assumes "distinct (List.map fst xs)" "(k, r, e) \<in> set xs"
  shows "apply_all t (writes u xs) D k =
    Some (Text (entry_text e), Some (t + of_int (max 1 \<lceil>(of_int (acct_expiry r) - u) * 1000\<rceil>) / 1000))"
  using assms
proof (induction xs rule: rev_induct)
  case (snoc x xs)
  obtain k' r' e' where x: "x = (k', r', e')" by (cases x)
  from snoc show ?case unfolding x writes_snoc by (cases "k = k'") (force, auto)
qed simp

lemma fine_entries_commit:
  assumes "fine_entries t D" "budget_spec sha C request ks D u cmds" "u \<le> t"
  shows "fine_entries t (apply_all t cmds D)"
proof -
  obtain f rs es ps where
      es: "\<forall>e \<in> set es. entry_ok e \<and> (\<forall>s \<in> set (entry_stamps e). s \<le> u)" "binary64_number u"
      "traverse (\<lambda>(r, e). pending u f r e) (zip rs es) = Inr ps"
      and cmds: "cmds = List.map (\<lambda>(k, r, e). write_entry u k r e) (zip ks (zip rs ps))"
    using assms(2) unfolding budget_spec_def by blast
  have "entry_ok p \<and> (\<forall>s \<in> set (entry_stamps p). s \<le> t)" if "p \<in> set ps" for p
  proof -
    from that es(3) obtain r e where e: "(r, e) \<in> set (zip rs es)" "pending u f r e = Inr p"
      unfolding traverse_eq_Inr using list_all2_mem_right [of _ "zip rs es" ps p] by force
    then have "e \<in> set es" by (auto dest: set_zip_rightD)
    with es(1) have e': "entry_ok e" "\<forall>s \<in> set (entry_stamps e). s \<le> u" by simp_all
    have "entry_stamps p = (if acct_rate r = None then [] else recent_calls u (entry_stamps e) @ [u])"
      using e(2) by (auto simp: pending_def Let_def py_inv)
    with e' es(2) assms(3) show ?thesis
      by (auto simp: entry_ok_def list_all_iff recent_calls_def)
  qed
  then have "\<forall>(k, r, p) \<in> set (zip ks (zip rs ps)). entry_ok p \<and> (\<forall>s \<in> set (entry_stamps p). s \<le> t)"
    by (auto dest!: set_zip_rightD)
  with assms(1) show ?thesis
    unfolding cmds by (rule writes_fine)
qed

lemma budget_spec_fits: "budget_spec sha C request ks D u cmds \<Longrightarrow> all_fit t cmds D'"
proof -
  assume "budget_spec sha C request ks D u cmds"
  then obtain xs where "cmds = writes u xs" unfolding budget_spec_def by blast
  moreover have "all_fit t (writes u xs) D'"
    by (induction xs arbitrary: D') (auto simp: write_entry_def)
  ultimately show ?thesis by simp
qed

interpretation ledger_db: optimistic "redis_budget_record_chain sha C" "ledger_calls K" "\<lambda>r ks D t. budget_spec sha C r ks D" fine_entries
  for sha C K
proof unfold_locales
  fix r
  assume "r \<in> ledger_calls K"
  then obtain chain amount where r: "r = (chain, amount)" by (cases r)
  then show "each_segment (budget_segment sha C r) (Watch [] (redis_budget_record_chain sha C r))"
    using budget_attempts_segments [of amount _ sha C chain "nat (max_retries C)"]
    by (auto simp: redis_budget_record_chain_def)
next
  fix ks D D' r u cmds
  assume same: "\<And>k. k \<in> set ks \<Longrightarrow> D k = D' k" and spec: "budget_spec sha C r ks D u cmds"
  have "list_all2 (\<lambda>k e. \<exists>t \<le> u. entry_read t D' k e) ks es"
    if "list_all2 (\<lambda>k e. \<exists>t \<le> u. entry_read t D k e) ks es" for es
    using that answers_cong [of D "QGet _" D'] same
    by (intro list.rel_mono_strong [OF that]) (auto simp: entry_read_def)
  with spec show "budget_spec sha C r ks D' u cmds"
    unfolding budget_spec_def by blast
qed (auto simp: fine_entries_def [of _ Map.empty] intro: fine_entries_commit budget_spec_fits, fastforce simp: fine_entries_def)

section \<open>The database and the ledger\<close>

definition disk_rep :: "account \<Rightarrow> posting list \<Rightarrow> (stored \<times> rat option) option \<Rightarrow> bool" where
  \<comment> \<open>what the database holds for an account that had the charges \<open>cs\<close>\<close>
  "disk_rep r cs slot \<longleftrightarrow>
     (case slot of
        None \<Rightarrow> cs = []
      | Some (v, d) \<Rightarrow>
          (\<exists>e. v = Text (entry_text e) \<and> entry_ok e \<and> entry_expiry e = acct_expiry r \<and>
             (\<forall>u. (\<forall>s \<in> set (entry_stamps e). s \<le> u) \<longrightarrow> entry_matches u r cs e)) \<and>
          (\<forall>x. d = Some x \<longrightarrow> of_int (acct_expiry r) \<le> x))"

lemma disk_rep_minor: "disk_rep (budget_account r m) cs slot = disk_rep (budget_account r 0) cs slot"
  by (simp add: disk_rep_def entry_matches_def budget_account_def split: option.split)

lemma disk_read:
  assumes "disk_rep r cs (D k)" "entry_read t D k e" "t \<le> u" "u < of_int (acct_expiry r)"
    and "\<forall>s \<in> set (entry_stamps e). s \<le> u"
  shows "entry_matches u r cs e"
proof (cases "D k")
  case None
  then have "visible t D k = None" by (simp add: visible_def)
  with assms(1,2) None show ?thesis
    by (simp add: disk_rep_def entry_read_def load_entry_def no_entry_matches)
next
  case (Some slot)
  obtain v d where slot: "slot = (v, d)" by (cases slot)
  with Some assms(1) obtain e' where e': "v = Text (entry_text e')" "entry_ok e'"
      "\<And>u. (\<forall>s \<in> set (entry_stamps e'). s \<le> u) \<Longrightarrow> entry_matches u r cs e'"
      "\<And>x. d = Some x \<Longrightarrow> of_int (acct_expiry r) \<le> x"
    by (auto simp: disk_rep_def)
  have "visible t D k = Some v"
    using e'(4) assms(3,4) Some slot by (cases d) (auto simp: visible_def)
  then have "load_entry (AText (Some (entry_text e'))) = Inr e"
    using assms(2) e'(1) by (auto simp: entry_read_def)
  with load_entry_text [OF e'(2)] have "e' = e" by auto
  with e'(3) assms(5) show ?thesis by simp
qed

definition disk_ledger ::
  "(string \<Rightarrow> string) \<Rightarrow> redis_budget_config \<Rightarrow> capability_claims set \<Rightarrow> reservation list \<Rightarrow> database \<Rightarrow> bool" where
  "disk_ledger sha C K h D \<longleftrightarrow>
     all_slots (ledger_config C) K h (\<lambda>r cs. disk_rep r cs (D (stored_key sha C r)))"

lemma deadline_after:
  assumes "u \<le> t"
  shows "(x :: rat) \<le> t + of_int (max 1 \<lceil>(x - u) * 1000\<rceil>) / 1000"
proof -
  have "(x - u) * 1000 \<le> of_int (max 1 \<lceil>(x - u) * 1000\<rceil>)"
    by (metis ceiling_le_iff le_max_iff_disj le_of_int_ceiling max.cobounded2 of_int_le_iff order_trans)
  with assms show ?thesis by (simp add: field_simps)
qed

lemma disk_ledger_mem:
  assumes "keyed (ledger_config C)" "disk_ledger sha C K h D" "set chain \<subseteq> K"
    and "shared_account (ledger_config C) now chain = Inr s" "(r, cs) \<in> set (slots_of h chain s)"
  shows "disk_rep r cs (D (stored_key sha C r))"
proof (rule all_slots_mem [OF assms(1) assms(2) [unfolded disk_ledger_def] assms(3-5)])
  fix r m cs
  show "disk_rep (budget_account r m) cs (D (stored_key sha C (budget_account r m))) =
      disk_rep (budget_account r 0) cs (D (stored_key sha C (budget_account r 0)))"
    by (simp add: stored_key_def) (rule disk_rep_minor)
qed

lemma budget_spec_commit:
  assumes "keyed (ledger_config C)" "token_pool K" "inj_on sha (account_keys (ledger_config C) K)"
    and "(chain, amount) \<in> ledger_calls K" "validated_amount amount = Inr f"
    and "budget_spec sha C (chain, amount) ks D u cmds" "u \<le> t" "disk_ledger sha C K h D"
  shows "disk_ledger sha C K (h @ [(u, chain, decimal_of_float f)]) (apply_all t cmds D)"
    and "budget_admits (ledger_config C) h u chain \<and> list_all (allows h u (decimal_of_float f)) chain"
proof -
  let ?B = "ledger_config C" and ?a = "decimal_of_float f"
  have ok: "set chain \<subseteq> K" "amount_ok f"
    using assms(4) validated_typed [OF assms(5)] by (auto simp: ledger_calls_def)
  obtain rs es ps where rs: "records_of ?B u chain = Inr rs" "ks = List.map (stored_key sha C) rs"
    and es: "list_all2 (\<lambda>k e. \<exists>t \<le> u. entry_read t D k e) ks es"
      "\<And>e. e \<in> set es \<Longrightarrow> entry_ok e \<and> (\<forall>s \<in> set (entry_stamps e). s \<le> u)"
    and ps: "list_all2 (\<lambda>(r, e) p. pending u f r e = Inr p) (zip rs es) ps"
    and cmds: "cmds = writes u (zip ks (zip rs ps))"
    and u: "binary64_number u"
    using assms(5,6) unfolding budget_spec_def traverse_eq_Inr by (auto simp: split_def)
  from rs(1) obtain s where s: "shared_account ?B u chain = Inr s" "\<not> list_ex (retention_over u) chain"
      "chain_ids_ok chain" and accounts: "rs = List.map fst (slots_of h chain s)"
    by (auto simp: records_of_iff slots_accounts)
  let ?slots = "slots_of h chain s"
  have keys: "ks = List.map (stored_key sha C \<circ> fst) ?slots" by (simp add: rs(2) accounts)
  have lengths: "length es = length ?slots" "length ps = length ?slots"
    using es(1) ps by (auto simp: keys accounts dest!: list_all2_lengthD)
  have inj: "stored_key sha C r = stored_key sha C r' \<longleftrightarrow> acct_key r = acct_key r'"
    if "acct_key r \<in> account_keys ?B K" "acct_key r' \<in> account_keys ?B K" for r r'
    using inj_onD [OF assms(3) _ that] by (auto simp: stored_key_def)
  note in_keys = slots_in_keys [OF assms(1) ok(1) s(1)]
  have "distinct ks"
    using slots_keys_distinct [OF s(3,1), of h] inj in_keys
    unfolding keys distinct_map inj_on_def comp_def by (metis (no_types, lifting) prod.collapse)
  then have distinct: "distinct (List.map fst (zip ks (zip rs ps)))"
    using lengths by (simp add: keys accounts)
  have each: "\<exists>e p. (r, p) \<in> set (zip rs ps) \<and> (stored_key sha C r, r, p) \<in> set (zip ks (zip rs ps)) \<and>
      entry_ok e \<and> (\<forall>s \<in> set (entry_stamps e). s \<le> u) \<and> entry_matches u r cs e \<and> usd_limit_ok r \<and> pending u f r e = Inr p"
    if mem: "(r, cs) \<in> set ?slots" for r cs
  proof -
    from mem obtain i where i: "i < length ?slots" "?slots ! i = (r, cs)" by (auto simp: in_set_conv_nth)
    then have nth: "rs ! i = r" "ks ! i = stored_key sha C r" "i < length rs" "i < length ks"
      by (simp_all add: accounts keys)
    have e: "es ! i \<in> set es" using i(1) lengths by simp
    obtain t' where t': "t' \<le> u" "entry_read t' D (stored_key sha C r) (es ! i)"
      using es(1) nth by (auto simp: list_all2_conv_all_nth)
    note matches = disk_read [OF disk_ledger_mem [OF assms(1,8) ok(1) s(1) mem] t'(2,1)]
    have live: "u < of_int (acct_expiry r) \<and> usd_limit_ok r"
      by (rule slots_live [OF assms(2) ok(1) s(2,1) mem])
    have "pending u f r (es ! i) = Inr (ps ! i)"
      using ps nth i(1) lengths by (auto simp: list_all2_conv_all_nth)
    moreover have "(r, ps ! i) \<in> set (zip rs ps)" "(stored_key sha C r, r, ps ! i) \<in> set (zip ks (zip rs ps))"
      using nth i(1) lengths unfolding set_zip by force+
    ultimately show ?thesis
      using matches live es(2) [OF e] by blast
  qed
  show "disk_ledger sha C K (h @ [(u, chain, ?a)]) (apply_all t cmds D)"
    unfolding disk_ledger_def
  proof (rule all_slots_post [OF assms(1,2) ok(1) assms(8) [unfolded disk_ledger_def] s(1)])
    fix r cs
    assume mem: "(r, cs) \<in> set ?slots"
    show "disk_rep r (cs @ [(u, ?a, acct_minor r)]) (apply_all t cmds D (stored_key sha C r))"
    proof -
      from each [OF mem] obtain e p where e: "(stored_key sha C r, r, p) \<in> set (zip ks (zip rs ps))"
          "entry_ok e" "\<forall>s \<in> set (entry_stamps e). s \<le> u" "entry_matches u r cs e" "usd_limit_ok r"
          "pending u f r e = Inr p"
        by blast
      note p = pending_matches [OF e(4) ok(2) e(5,6)]
      have "entry_stamps p = (if acct_rate r = None then [] else recent_calls u (entry_stamps e) @ [u])"
        using e(6) by (auto simp: pending_def Let_def py_inv)
      then have "entry_ok p" "acct_rate r \<noteq> None \<Longrightarrow> u \<in> set (entry_stamps p)"
        using e(2) u by (auto simp: entry_ok_def list_all_iff recent_calls_def)
      moreover have "entry_matches v r (cs @ [(u, ?a, acct_minor r)]) p"
        if "acct_rate r \<noteq> None \<Longrightarrow> u \<le> v" for v
        using p(1) that by (auto simp: entry_matches_def)
      moreover have "of_int (acct_expiry r) \<le> t + of_int (max 1 \<lceil>(of_int (acct_expiry r) - u) * 1000\<rceil>) / 1000"
        using assms(7) deadline_after by simp
      ultimately show ?thesis
        using p(2) unfolding cmds writes_lookup [OF distinct e(1)] by (auto simp: disk_rep_def)
    qed
  next
    fix r cs
    assume other: "disk_rep r cs (D (stored_key sha C r))" "acct_key r \<in> account_keys ?B K"
      "acct_key r \<notin> (acct_key \<circ> fst) ` set ?slots"
    show "disk_rep r cs (apply_all t cmds D (stored_key sha C r))"
    proof -
      have "stored_key sha C r \<notin> set ks"
        using other in_keys inj by (force simp: keys)
      then have "stored_key sha C r \<notin> command_key ` set cmds"
        by (auto simp: cmds write_entry_def dest: set_zip_leftD)
      with other(1) show ?thesis by (simp add: apply_all_other)
    qed
  next
    fix r m cs
    show "disk_rep (budget_account r m) cs (apply_all t cmds D (stored_key sha C (budget_account r m))) =
        disk_rep (budget_account r 0) cs (apply_all t cmds D (stored_key sha C (budget_account r 0)))"
      by (simp add: stored_key_def) (rule disk_rep_minor)
  qed
  have "room r cs u ?a" if "(r, cs) \<in> set ?slots" for r cs
    using each [OF that] pending_room(1) [OF _ ok(2)] by blast
  then show "budget_admits ?B h u chain \<and> list_all (allows h u ?a) chain"
    using s by (subst admitted_slots [symmetric]) auto
qed

lemma sys_run_ledger:
  assumes "keyed (ledger_config C)" "token_pool K" "inj_on sha (account_keys (ledger_config C) K)" "redis_ok R"
    and "sys_run R (redis_budget_record_chain sha C) (ledger_calls K) cs s"
  shows "disk_ledger sha C K (List.map commit_entry cs) (data R (server s)) \<and>
    replays (budget_admits (ledger_config C)) (List.map commit_entry cs) \<and>
    (\<forall>(u, chain, a) \<in> set (List.map commit_entry cs). set chain \<subseteq> K)"
proof (rule ledger_db.run_invariant [OF assms(4,5), of "\<lambda>t cs D. disk_ledger sha C K (List.map commit_entry cs) D \<and>
    replays (budget_admits (ledger_config C)) (List.map commit_entry cs) \<and>
    (\<forall>(u, chain, a) \<in> set (List.map commit_entry cs). set chain \<subseteq> K)"])
  fix t cs D r ks u cmds
  let ?h = "List.map commit_entry cs"
  assume J: "disk_ledger sha C K ?h D \<and> replays (budget_admits (ledger_config C)) ?h \<and>
      (\<forall>(u, chain, a) \<in> set ?h. set chain \<subseteq> K)"
    and r: "r \<in> ledger_calls K" "budget_spec sha C r ks D u cmds" "u \<le> t"
  obtain chain amount f where c: "r = (chain, amount)" "validated_amount amount = Inr f"
    using r(2) unfolding budget_spec_def by blast
  have entry: "commit_entry (u, r, cmds) = (u, chain, decimal_of_float f)"
    by (simp add: c commit_entry_def)
  have "disk_ledger sha C K (?h @ [(u, chain, decimal_of_float f)]) (apply_all t cmds D)"
    "budget_admits (ledger_config C) ?h u chain \<and> list_all (allows ?h u (decimal_of_float f)) chain"
    using budget_spec_commit [OF assms(1-3) _ c(2) _ r(3)] J r(1,2) unfolding c(1) by blast+
  with J r(1) show "disk_ledger sha C K (List.map commit_entry (cs @ [(u, r, cmds)])) (apply_all t cmds D) \<and>
      replays (budget_admits (ledger_config C)) (List.map commit_entry (cs @ [(u, r, cmds)])) \<and>
      (\<forall>(u, chain, a) \<in> set (List.map commit_entry (cs @ [(u, r, cmds)])). set chain \<subseteq> K)"
    by (simp add: entry replays_snoc) (simp add: c(1) ledger_calls_def)
qed (simp_all add: disk_ledger_def all_slots_def disk_rep_def token_charges_def budget_charges_def replays_def)

lemma budget_attempts_once: "one_commit (budget_attempts n sha C chain f)"
proof (induction n)
  case (Suc n)
  then show ?case
    by (auto simp: budget_attempt_def Let_def intro!: read_entries_once)
qed simp

lemma redis_budget_once: "one_commit (redis_budget_record_chain sha C r)"
  by (cases r) (auto simp: redis_budget_record_chain_def budget_attempts_once)

section \<open>The verdict of a call that nobody disturbs\<close>


lemma alone_read:
  "alone R t i g r (read_entries ks c) u s =
     (case traverse (\<lambda>k. load_entry (redis.query R t (QGet k) s)) ks of
        Inl e \<Rightarrow> (Inl e, unwatch R i s, []) | Inr es \<Rightarrow> alone R t i g r (c es) u s)"
  by (induction ks arbitrary: c) (auto split: sum.split simp del: traverse_eq_Inr)

lemma get_answer:
  assumes "redis_ok R"
  shows "(\<exists>a. answers t (data R s) (QGet k) a \<and> P a) \<longleftrightarrow> P (redis.query R t (QGet k) s)"
proof -
  have "answers t (data R s) (QGet k) (redis.query R t (QGet k) s)"
    by (rule redis_answers [OF assms])
  moreover have "a = b" if "answers t (data R s) (QGet k) a" "answers t (data R s) (QGet k) b" for a b
    using that by (auto split: option.splits stored.splits)
  ultimately show ?thesis by blast
qed

lemma alone_attempt:
  assumes "redis_ok R" "\<not> dirty R s i" "watched R s i = {}"
  shows "fst (alone R t i g q (budget_attempt sha C chain f again) u s) = Inr () \<longleftrightarrow>
    (\<exists>rs es ps. records_of (ledger_config C) t chain = Inr rs \<and>
       list_all2 (\<lambda>r e. entry_read t (data R s) (stored_key sha C r) e) rs es \<and>
       traverse (\<lambda>(r, e). pending t f r e) (zip rs es) = Inr ps)"
proof (cases "records_of (ledger_config C) t chain")
  case (Inl e)
  then show ?thesis by (simp add: budget_attempt_def)
next
  case (Inr rs)
  let ?ks = "List.map (stored_key sha C) rs"
  let ?s = "redis.watch R t i ?ks s"
  have s: "data R ?s = data R s" "\<not> dirty R ?s i" "snd ` watched R ?s i \<subseteq> {t}"
    using assms by (simp_all add: redis_watch)
  have fires: "\<exists>S. redis.exec R t i cmds ?s = (True, S)" for cmds
    by (rule redis_fires [OF assms(1) s(2,3)])
  have reads: "entry_read t (data R s) k e \<longleftrightarrow> load_entry (redis.query R t (QGet k) ?s) = Inr e" for k e
    unfolding entry_read_def s(1) [symmetric] by (rule get_answer [OF assms(1)])
  show ?thesis
  proof (cases "traverse (\<lambda>k. load_entry (redis.query R t (QGet k) ?s)) ?ks")
    case (Inl e)
    have "\<nexists>es. list_all2 (\<lambda>r e. entry_read t (data R s) (stored_key sha C r) e) rs es"
    proof
      assume "\<exists>es. list_all2 (\<lambda>r e. entry_read t (data R s) (stored_key sha C r) e) rs es"
      then obtain es where "traverse (\<lambda>k. load_entry (redis.query R t (QGet k) ?s)) ?ks = Inr es"
        unfolding reads traverse_eq_Inr list_all2_map1 by blast
      with Inl show False by simp
    qed
    with \<open>records_of _ _ _ = Inr rs\<close> Inl show ?thesis
      by (simp add: budget_attempt_def alone_read Let_def del: traverse_eq_Inr)
  next
    case es: (Inr es)
    then have read: "list_all2 (\<lambda>r e. entry_read t (data R s) (stored_key sha C r) e) rs es"
      unfolding reads traverse_eq_Inr list_all2_map1 .
    have only: "es' = es" if "list_all2 (\<lambda>r e. entry_read t (data R s) (stored_key sha C r) e) rs es'" for es'
    proof -
      have "traverse (\<lambda>k. load_entry (redis.query R t (QGet k) ?s)) ?ks = Inr es'"
        using that unfolding reads traverse_eq_Inr list_all2_map1 .
      with es show ?thesis by simp
    qed
    have "length rs = length es" using read by (rule list_all2_lengthD)
    then have "fst (alone R t i g q (budget_attempt sha C chain f again) u s) = Inr () \<longleftrightarrow>
        (\<exists>ps. traverse (\<lambda>(r, e). pending t f r e) (zip rs es) = Inr ps)"
    proof (cases "traverse (\<lambda>(r, e). pending t f r e) (zip rs es)")
      case (Inr ps)
      obtain S where S: "redis.exec R t i (writes t (zip ?ks (zip rs ps))) ?s = (True, S)" using fires by blast
      with \<open>records_of _ _ _ = Inr rs\<close> es Inr \<open>length rs = length es\<close> show ?thesis
        by (simp add: budget_attempt_def alone_read Let_def del: traverse_eq_Inr)
    qed (use Inr es in \<open>simp add: budget_attempt_def alone_read Let_def del: traverse_eq_Inr\<close>)
    also have "\<dots> \<longleftrightarrow> (\<exists>rs' es ps. records_of (ledger_config C) t chain = Inr rs' \<and>
       list_all2 (\<lambda>r e. entry_read t (data R s) (stored_key sha C r) e) rs' es \<and>
       traverse (\<lambda>(r, e). pending t f r e) (zip rs' es) = Inr ps)"
    proof -
      have "rs' = rs" if "records_of (ledger_config C) t chain = Inr rs'" for rs' using that Inr by simp
      then show ?thesis using Inr read only by metis
    qed
    finally show ?thesis .
  qed
qed

lemma disk_readable:
  assumes "disk_rep r cs (D k)" "fine_entries t D" "t < of_int (acct_expiry r)"
    and "int_readable (int (length cs))" "int_readable (total_minor cs)" "int_readable (acct_expiry r)"
  shows "\<exists>e. entry_read t D k e \<and> entry_matches t r cs e"
proof (cases "D k")
  case None
  then have "visible t D k = None" by (simp add: visible_def)
  with assms(1) None have "entry_read t D k no_entry" "entry_matches t r cs no_entry"
    by (simp_all add: disk_rep_def entry_read_def load_entry_def no_entry_matches)
  then show ?thesis by blast
next
  case (Some slot)
  obtain v d where slot: "slot = (v, d)" by (cases slot)
  with Some assms(1) obtain e where e: "v = Text (entry_text e)" "entry_ok e" "entry_expiry e = acct_expiry r"
      "\<And>u. (\<forall>s \<in> set (entry_stamps e). s \<le> u) \<Longrightarrow> entry_matches u r cs e"
      "\<And>x. d = Some x \<Longrightarrow> of_int (acct_expiry r) \<le> x"
    by (auto simp: disk_rep_def)
  have visible: "visible t D k = Some v"
    using e(5) assms(3) Some slot by (cases d) (auto simp: visible_def)
  have "\<exists>u. \<forall>s \<in> set (entry_stamps e). s \<le> u"
    by (metis List.finite_set Max_ge)
  then obtain u where "entry_matches u r cs e" using e(4) by blast
  then have "entry_readable e"
    using assms(4-6) e(3) by (simp add: entry_readable_def entry_matches_def)
  then have "load_entry (AText (Some (entry_text e))) = Inr e"
    by (rule load_readable [OF e(2)])
  then have read: "entry_read t D k e"
    using visible e(1) by (auto simp: entry_read_def)
  from entry_read_fine [OF this assms(2)] visible have "\<forall>s \<in> set (entry_stamps e). s \<le> t" by auto
  with e(4) read show ?thesis by blast
qed

lemma charged_minor_range: "0 \<le> charged_minor chain"
  by (auto simp: charged_minor_def safe_minor_def is_integer_def split: option.splits pyval.splits pyfloat.splits if_splits)

lemma total_minor_range: "0 \<le> total_minor (budget_charges h b)"
  by (auto simp: budget_charges_def charged_minor_range split_def intro!: sum_list_nonneg)

lemma slots_readable:
  assumes "keyed B" "rules_wf B" "budget_within B h" "set chain \<subseteq> K" "shared_account B now chain = Inr s"
    and "\<forall>c \<in> K. int_readable (exp_at c + RETENTION_AFTER_EXP_SECONDS)" "int_readable (int (length h))"
    and mem: "(r, cs) \<in> set (slots_of h chain s)"
  shows "int_readable (int (length cs)) \<and> int_readable (total_minor cs) \<and> int_readable (acct_expiry r)"
proof -
  have shorter: "int_readable (int n)" if "n \<le> length h" for n
    by (rule int_readable_mono [OF assms(7)]) (use that in simp)
  have zero: "int_readable 0" by (rule int_readable_safe) (simp add: MAX_SAFE_INTEGER_def)
  consider (token) c where "c \<in> set chain" "r = token_account c" "cs = token_charges h (jti c)"
    | (budget) b rule where "map_of (rules B) b = Some rule" "r = budget_account rule (charged_minor chain)"
        "cs = budget_charges h b"
    using mem assms(5) by (auto simp: slots_of_def shared_account_cases split: option.splits)
  then show ?thesis
  proof cases
    case token
    with assms(4,6) shorter [of "length cs"] zero show ?thesis
      by (auto simp: token_charges_totals(4)) (simp add: token_charges_def)
  next
    case budget
    have wf: "rule_wf rule" using assms(2) budget(1) by (simp add: rules_wf_def)
    have "total_minor cs \<le> max_amount_minor rule"
      using assms(3) budget unfolding budget_within_def by blast
    then have "\<bar>total_minor cs\<bar> \<le> MAX_SAFE_INTEGER" "\<bar>rule_expires_at rule\<bar> \<le> MAX_SAFE_INTEGER"
      using wf total_minor_range [of h b] budget(3) by (simp_all add: rule_wf_def)
    with budget shorter [of "length cs"] show ?thesis
      by (simp add: int_readable_safe) (simp add: budget_charges_def)
  qed
qed

lemma attempt_verdict:
  assumes "keyed (ledger_config C)" "rules_wf (ledger_config C)" "token_pool K" "set chain \<subseteq> K" "amount_ok f"
    and "disk_ledger sha C K h D" "fine_entries t D" "budget_within (ledger_config C) h"
    and "\<forall>c \<in> K. int_readable (exp_at c + RETENTION_AFTER_EXP_SECONDS)" "int_readable (int (length h))"
  shows "(\<exists>rs es ps. records_of (ledger_config C) t chain = Inr rs \<and>
       list_all2 (\<lambda>r e. entry_read t D (stored_key sha C r) e) rs es \<and>
       traverse (\<lambda>(r, e). pending t f r e) (zip rs es) = Inr ps) \<longleftrightarrow>
    chain_ids_ok chain \<and> budget_admits (ledger_config C) h t chain \<and> list_all (allows h t (decimal_of_float f)) chain"
    (is "?attempt \<longleftrightarrow> ?allowed")
proof
  let ?B = "ledger_config C" and ?a = "decimal_of_float f"
  assume ?attempt
  then obtain rs es ps where rs: "records_of ?B t chain = Inr rs"
    and es: "list_all2 (\<lambda>r e. entry_read t D (stored_key sha C r) e) rs es"
    and ps: "list_all2 (\<lambda>(r, e) p. pending t f r e = Inr p) (zip rs es) ps"
    unfolding traverse_eq_Inr split_def by blast
  from rs obtain s where s: "shared_account ?B t chain = Inr s" "\<not> list_ex (retention_over t) chain"
      "chain_ids_ok chain" and accounts: "rs = List.map fst (slots_of h chain s)"
    by (auto simp: records_of_iff slots_accounts)
  have "room r cs t ?a" if mem: "(r, cs) \<in> set (slots_of h chain s)" for r cs
  proof -
    from mem obtain i where i: "i < length rs" "rs ! i = r"
      unfolding accounts by (metis fst_conv in_set_conv_nth length_map nth_map)
    then have e: "entry_read t D (stored_key sha C r) (es ! i)" "pending t f r (es ! i) = Inr (ps ! i)"
      using es ps by (auto simp: list_all2_conv_all_nth)
    have "\<forall>s \<in> set (entry_stamps (es ! i)). s \<le> t"
      using entry_read_fine [OF e(1) assms(7)] by (auto simp: no_entry_def)
    with slots_live [OF assms(3,4) s(2,1) mem] disk_read [OF disk_ledger_mem [OF assms(1,6,4) s(1) mem] e(1)]
    have "entry_matches t r cs (es ! i)" by simp
    with e(2) pending_room(1) [OF _ assms(5)] show ?thesis by blast
  qed
  with s have "budget_admits ?B h t chain \<and> list_all (allows h t ?a) chain"
    by (subst admitted_slots [symmetric]) auto
  with s(3) show ?allowed by simp
next
  let ?B = "ledger_config C" and ?a = "decimal_of_float f"
  assume ok: ?allowed
  then obtain s where s: "\<not> list_ex (retention_over t) chain" "shared_account ?B t chain = Inr s"
      and room: "\<And>r cs. (r, cs) \<in> set (slots_of h chain s) \<Longrightarrow> room r cs t ?a"
    using admitted_slots [of ?B t chain h ?a] by auto
  let ?slots = "slots_of h chain s"
  have "\<exists>e. entry_read t D (stored_key sha C r) e \<and> entry_matches t r cs e" if mem: "(r, cs) \<in> set ?slots" for r cs
    using disk_readable [OF disk_ledger_mem [OF assms(1,6,4) s(2) mem] assms(7)] slots_live [OF assms(3,4) s mem]
      slots_readable [OF assms(1,2,8,4) s(2) assms(9,10) mem] by blast
  then obtain es where es: "list_all2 (\<lambda>(r, cs) e. entry_read t D (stored_key sha C r) e \<and> entry_matches t r cs e) ?slots es"
    using list_all2_choose [of ?slots "\<lambda>(r, cs) e. entry_read t D (stored_key sha C r) e \<and> entry_matches t r cs e"] by auto
  have "\<exists>p. pending t f r e = Inr p" if "(r, e) \<in> set (zip (List.map fst ?slots) es)" for r e
  proof -
    from that obtain cs where "((r, cs), e) \<in> set (zip ?slots es)"
      by (force simp: zip_map1)
    with es have "(r, cs) \<in> set ?slots" "entry_matches t r cs e"
      by (auto simp: list_all2_iff dest: set_zip_leftD)
    then show ?thesis using pending_room(2) [OF _ assms(5)] room by blast
  qed
  then obtain ps where ps: "list_all2 (\<lambda>(r, e) p. pending t f r e = Inr p) (zip (List.map fst ?slots) es) ps"
    using list_all2_choose [of "zip (List.map fst ?slots) es" "\<lambda>(r, e) p. pending t f r e = Inr p"] by auto
  have "list_all2 (\<lambda>r e. entry_read t D (stored_key sha C r) e) (List.map fst ?slots) es"
    unfolding list_all2_map1 using es by (rule list_all2_mono) auto
  moreover have "records_of ?B t chain = Inr (List.map fst ?slots)"
    using s ok by (auto simp: records_of_iff slots_accounts)
  ultimately show ?attempt
    using ps unfolding traverse_eq_Inr split_def by blast
qed

lemma redis_tracker_config:
  assumes "make_redis_budget_tracker brs pre require retries = Inr C"
  shows "ledger_config C = configured brs require" "1 \<le> max_retries C" "key_prefix C = pre"
  using assms by (auto simp: make_redis_budget_tracker_def make_budget_tracker_iff rbind_eq_Inr split: pyval.splits if_splits)

lemma configured_wf: "list_all rule_wf brs \<Longrightarrow> rules_wf (configured brs require)"
  by (auto simp: rules_wf_def list_all_iff dest!: map_of_SomeD)

lemma undisturbed_verdict:
  assumes "keyed (ledger_config C)" "rules_wf (ledger_config C)" "1 \<le> max_retries C" "token_pool K"
    and "inj_on sha (account_keys (ledger_config C) K)" "redis_ok R"
    and "sys_run R (redis_budget_record_chain sha C) (ledger_calls K) cs s" "procs s i = None"
    and "(chain, amount) \<in> ledger_calls K" "validated_amount amount = Inr f"
    and "\<forall>c \<in> K. int_readable (exp_at c + RETENTION_AFTER_EXP_SECONDS)" "int_readable (int (length cs))"
  shows "fst (alone R (time s) i g r (redis_budget_record_chain sha C (chain, amount)) 0 (server s)) = Inr () \<longleftrightarrow>
    chain_ids_ok chain \<and> budget_admits (ledger_config C) (List.map commit_entry cs) (time s) chain \<and>
    list_all (allows (List.map commit_entry cs) (time s) (decimal_of_float f)) chain"
proof -
  let ?h = "List.map commit_entry cs" and ?D = "data R (server s)"
  have ok: "set chain \<subseteq> K" "amount_ok f"
    using assms(9) validated_typed [OF assms(10)] by (auto simp: ledger_calls_def)
  note inv = ledger_db.sys_run_inv [OF assms(6,7)]
  have fine: "fine_entries (time s) ?D"
    using inv by (simp add: ledger_db.sys_inv_def)
  have clean: "\<not> dirty R (server s) i" "watched R (server s) i = {}"
    using inv assms(8) unfolding ledger_db.sys_inv_def by (metis ledger_db.conn_ok_simps(1))+
  have ledger: "disk_ledger sha C K ?h ?D" "budget_within (ledger_config C) ?h"
    using sys_run_ledger [OF assms(1,4-7)] replays_bounds [OF assms(2) _ _ , of K ?h] assms(4) by (simp_all add: token_pool_def)
  obtain n where n: "nat (max_retries C) = Suc n" using assms(3) by (cases "nat (max_retries C)") auto
  have "redis_budget_record_chain sha C (chain, amount) = budget_attempt sha C chain f (budget_attempts n sha C chain f)"
    using assms(10) by (simp add: redis_budget_record_chain_def n)
  moreover have "int_readable (int (length ?h))" using assms(12) by simp
  note attempt_verdict [OF assms(1,2,4) ok ledger(1) fine ledger(2) assms(11) this]
  ultimately show ?thesis by (simp only: alone_attempt [OF assms(6) clean])
qed

section \<open>A sample of two spenders\<close>

definition sample_redis_config :: redis_budget_config where
  "sample_redis_config = \<lparr>ledger_config = configured [sample_rule] True, key_prefix = ''p:'', max_retries = 3\<rparr>"

abbreviation sample_pool :: "capability_claims set" where
  "sample_pool \<equiv> {spender ''i'', spender ''j''}"

lemma sample_redis_tracker: "make_redis_budget_tracker [sample_rule] ''p:'' True (PInt 3) = Inr sample_redis_config"
  by (simp add: make_redis_budget_tracker_def sample_tracker sample_redis_config_def)

lemma sample_redis_facts:
  "token_pool sample_pool" "rule_wf sample_rule" "inj_on id (account_keys (ledger_config sample_redis_config) sample_pool)"
  "\<forall>c \<in> sample_pool. int_readable (exp_at c + RETENTION_AFTER_EXP_SECONDS)"
  "([spender j], PInt 0) \<in> ledger_calls {spender j}" "validated_amount (PInt 0) = Inr (Fin 0)"
  "sys_run plain_redis start calls [] (plain_start 101)"
proof -
  have "currency_code (PStr ''USD'')" by code_simp
  then show "rule_wf sample_rule" by (simp add: rule_wf_def sample_rule_def MAX_SAFE_INTEGER_def)
  show "token_pool sample_pool"
    using spenders_ok by (simp add: requests_ok_def)
  show "\<forall>c \<in> sample_pool. int_readable (exp_at c + RETENTION_AFTER_EXP_SECONDS)"
    by (auto simp: spender_def RETENTION_AFTER_EXP_SECONDS_def MAX_SAFE_INTEGER_def limits_defs intro!: int_readable_safe)
  show "validated_amount (PInt 0) = Inr (Fin 0)"
    by (simp add: validated_amount_def float_of_int_def round_double_def)
  have "binary64_number 101" unfolding binary64_number_def by code_simp
  then show "sys_run plain_redis start calls [] (plain_start 101)"
    by (intro plain_start_run) simp_all
qed (simp_all add: ledger_calls_def typed_amount_def)

lemma first_spender_admitted:
  "chain_ids_ok [spender ''i''] \<and> budget_admits (ledger_config sample_redis_config) [] 101 [spender ''i''] \<and>
   list_all (allows [] 101 (decimal_of_float (Fin 0))) [spender ''i'']"
  using sample_lookup
  by (simp add: sample_redis_config_def budget_admits_def spender_def no_constraints_def budget_charges_def
      charged_minor_def dict_get_def safe_minor_def MAX_SAFE_INTEGER_def sample_rule_def Let_def chain_ids_ok_def
      allows_def limits_defs)

lemma sample_redis_run:
  obtains u cmds s where "sys_run plain_redis (redis_budget_record_chain id sample_redis_config) (ledger_calls sample_pool)
    [(u, ([spender ''i''], PInt 0), cmds)] s" "finished s = [(([spender ''i''], PInt 0), Inr ())]"
proof -
  let ?start = "redis_budget_record_chain id sample_redis_config" and ?r = "([spender ''i''], PInt 0)"
    and ?s = "plain_start 101 :: (plain_server, capability_claims list \<times> pyval, unit) system"
  note f = sample_redis_facts and C = redis_tracker_config [OF sample_redis_tracker]
  have r: "?r \<in> ledger_calls sample_pool" by (simp add: ledger_calls_def typed_amount_def)
  obtain x s' cs where run: "alone plain_redis (time ?s) 0 [] ?r (?start ?r) 0 (server ?s) = (x, s', cs)"
    by (metis prod.exhaust)
  have idle: "procs ?s 0 = None" "time ?s = 101" "int_readable (int (length []))"
    using int_readable_safe [of 0] by (simp_all add: plain_start_def MAX_SAFE_INTEGER_def)
  have "x = Inr ()"
  proof -
    have B: "keyed (ledger_config sample_redis_config)" "rules_wf (ledger_config sample_redis_config)"
      "1 \<le> max_retries sample_redis_config"
      using configured_keyed [of "[sample_rule]" True] configured_wf [of "[sample_rule]" True] f(2)
      by (simp_all add: sample_redis_config_def)
    have "fst (x, s', cs) = Inr ()"
      unfolding run [symmetric] undisturbed_verdict [OF B f(1,3) plain_redis_ok f(7) idle(1) r f(6,4) idle(3)]
      using first_spender_admitted by (simp add: idle(2))
    then show ?thesis by simp
  qed
  moreover from this alone_once [OF redis_budget_once run] obtain u cmds where "cs = [(u, ?r, cmds)]" by auto
  moreover have "finished (?s\<lparr>server := s', finished := (?r, x) # finished ?s\<rparr>) = [(?r, x)]" by (simp add: plain_start_def)
  ultimately show thesis
    using alone_run [where sys = ?s and i = 0 and start = ?start and r = ?r, OF f(7) idle(1) r run] that
    by (simp only: append_Nil)
qed

lemma sample_entry: "commit_entry (u, ([spender j], PInt 0), cmds) = (u, [spender j], 0)"
  by (simp add: commit_entry_def sample_redis_facts(6) decimal_of_float_def repr_value_def)

lemma sample_config: "ledger_config sample_redis_config = configured [sample_rule] True"
  by (simp add: sample_redis_config_def)

section \<open>Properties\<close>

text \<open>C22. The Redis tracker is serializable against the ledger. Any number of processes share one server and are
  interleaved at every command and clock reading; whatever happens, the reservations they commit, in the order of
  their commits, are reservations that the ledger accepts one after the other: each had room in every token of
  its chain and in its shared budget, given the ones committed before it. Text encoding, expiry of keys, retries and
  clocks read before the commit never change that.\<close>

theorem redis_commits_replay:
  assumes "make_redis_budget_tracker brs pre require retries = Inr C" "token_pool K"
    and "inj_on sha (account_keys (ledger_config C) K)" "redis_ok R"
    and "sys_run R (redis_budget_record_chain sha C) (ledger_calls K) cs s"
  shows "replays (budget_admits (ledger_config C)) (List.map commit_entry cs)"
  using sys_run_ledger [OF _ assms(2-5)] configured_keyed by (simp add: redis_tracker_config(1) [OF assms(1)])

theorem redis_commits_replay_witness:
  "\<exists>u. replays (budget_admits (configured [sample_rule] True)) [(u, [spender ''i''], 0)]"
proof -
  obtain u cmds s where "sys_run plain_redis (redis_budget_record_chain id sample_redis_config) (ledger_calls sample_pool)
      [(u, ([spender ''i''], PInt 0), cmds)] s"
    by (rule sample_redis_run) blast
  from redis_commits_replay [OF sample_redis_tracker sample_redis_facts(1,3) plain_redis_ok this]
  show ?thesis by (auto simp: sample_entry sample_config)
qed

text \<open>C23. No interleaving of any number of processes overspends: the committed reservations keep every shared budget
  within its amount and number of calls, by trusted issuers, before its expiry and in its currency, and every token
  within its own limits.\<close>

theorem redis_shared_budget_holds:
  assumes "make_redis_budget_tracker brs pre require retries = Inr C" "list_all rule_wf brs" "token_pool K"
    and "inj_on sha (account_keys (ledger_config C) K)" "redis_ok R"
    and "sys_run R (redis_budget_record_chain sha C) (ledger_calls K) cs s"
  shows "budget_within (ledger_config C) (List.map commit_entry cs) \<and> ledger_within K (List.map commit_entry cs)"
proof -
  note C = redis_tracker_config(1) [OF assms(1)]
  have "keyed (ledger_config C)" "rules_wf (ledger_config C)"
    using configured_keyed configured_wf [OF assms(2)] by (simp_all add: C)
  with sys_run_ledger [OF _ assms(3-6)] assms(3) show ?thesis
    by (intro replays_bounds) (simp_all add: token_pool_def)
qed

theorem redis_shared_budget_holds_witness:
  "\<exists>u. budget_within (configured [sample_rule] True) [(u, [spender ''i''], 0)]"
proof -
  obtain u cmds s where "sys_run plain_redis (redis_budget_record_chain id sample_redis_config) (ledger_calls sample_pool)
      [(u, ([spender ''i''], PInt 0), cmds)] s"
    by (rule sample_redis_run) blast
  from redis_shared_budget_holds [OF sample_redis_tracker _ sample_redis_facts(1,3) plain_redis_ok this] sample_redis_facts(2)
  show ?thesis by (auto simp: sample_entry sample_config)
qed

text \<open>C24. A call charges once or not at all, whatever the interleaving. For every request, the transactions committed for it
  are as many as the calls with that request that returned normally, plus those that have committed and are about to
  return: so a call that returned normally was charged once, and one that raised (a limit reached, an expired token, or
  contention in every one of \<open>max_retries\<close> attempts) was not charged. And no call in progress has committed twice: at its
  return it has executed one transaction if it returns normally, and none if it raises.\<close>

theorem redis_budget_once_each:
  assumes "sys_run R (redis_budget_record_chain sha C) (ledger_calls K) cs s"
  shows "length (filter (\<lambda>(u, q, cmds). q = r) cs) =
      length (filter (\<lambda>(q, x). q = r \<and> x = Inr ()) (finished s)) +
      card {i. \<exists>p. procs s i = Some p \<and> serving p = r \<and> 0 < commits p} \<and>
    finite {i. \<exists>p. procs s i = Some p \<and> serving p = r \<and> 0 < commits p} \<and>
    (\<forall>i p. procs s i = Some p \<longrightarrow>
       commits p \<le> 1 \<and> (0 < commits p \<longrightarrow> program p = Return (Inr ())) \<and>
       (\<forall>x. program p = Return x \<longrightarrow> commits p = (if x = Inr () then 1 else 0)))"
proof -
  have "(\<lambda>(q, x :: exc + unit). q = r \<and> \<not> isl x) = (\<lambda>(q, x). q = r \<and> x = Inr ())"
    by (auto simp: fun_eq_iff isl_def) (metis old.unit.exhaust sum.exhaust)
  moreover have "debtors (\<lambda>q. q = r) s = {i. \<exists>p. procs s i = Some p \<and> serving p = r \<and> 0 < commits p}"
    by (auto simp: debtors_def)
  moreover have "commits p \<le> 1 \<and> (0 < commits p \<longrightarrow> program p = Return (Inr ())) \<and>
      (\<forall>x. program p = Return x \<longrightarrow> commits p = (if x = Inr () then 1 else 0))" if "procs s i = Some p" for i p
    using commits_once [OF assms redis_budget_once that] by (auto simp: once_def split: if_splits)
  ultimately show ?thesis
    using log_balanced [OF assms redis_budget_once, of "\<lambda>q. q = r"] unfolding balanced_def by simp
qed

theorem redis_budget_once_each_witness:
  "\<exists>u cmds s. sys_run plain_redis (redis_budget_record_chain id sample_redis_config) (ledger_calls sample_pool)
       [(u, ([spender ''i''], PInt 0), cmds)] s \<and> finished s = [(([spender ''i''], PInt 0), Inr ())] \<and>
     card {i. \<exists>p. procs s i = Some p \<and> serving p = ([spender ''i''], PInt 0) \<and> 0 < commits p} = 0"
proof -
  obtain u cmds s where run: "sys_run plain_redis (redis_budget_record_chain id sample_redis_config) (ledger_calls sample_pool)
      [(u, ([spender ''i''], PInt 0), cmds)] s" "finished s = [(([spender ''i''], PInt 0), Inr ())]"
    by (rule sample_redis_run)
  from redis_budget_once_each [OF run(1), of "([spender ''i''], PInt 0)"] run(2)
  have "card {i. \<exists>p. procs s i = Some p \<and> serving p = ([spender ''i''], PInt 0) \<and> 0 < commits p} = 0" by simp
  with run show ?thesis by blast
qed

text \<open>C25. A call that nobody disturbs gets the ledger's verdict: after any history of concurrent calls it returns
  normally exactly when the reservations committed so far leave room for it. (The numbers of an entry must be
  within the interpreter's limit on decimal digits; past it the entry cannot be read back and every call fails.)\<close>

theorem redis_budget_verdict:
  assumes "make_redis_budget_tracker brs pre require retries = Inr C" "list_all rule_wf brs" "token_pool K"
    and "inj_on sha (account_keys (ledger_config C) K)" "redis_ok R"
    and "sys_run R (redis_budget_record_chain sha C) (ledger_calls K) cs s" "procs s i = None"
    and "(chain, amount) \<in> ledger_calls K" "validated_amount amount = Inr f"
    and "\<forall>c \<in> K. int_readable (exp_at c + RETENTION_AFTER_EXP_SECONDS)" "int_readable (int (length cs))"
  shows "fst (alone R (time s) i g r (redis_budget_record_chain sha C (chain, amount)) 0 (server s)) = Inr () \<longleftrightarrow>
    chain_ids_ok chain \<and> budget_admits (ledger_config C) (List.map commit_entry cs) (time s) chain \<and>
    list_all (allows (List.map commit_entry cs) (time s) (decimal_of_float f)) chain"
proof (rule undisturbed_verdict [OF _ _ _ assms(3-11)])
  show "keyed (ledger_config C)" "rules_wf (ledger_config C)" "1 \<le> max_retries C"
    using configured_keyed configured_wf [OF assms(2)] redis_tracker_config [OF assms(1)] by simp_all
qed

theorem redis_budget_verdict_witness:
  "fst (alone plain_redis 101 0 [] () (redis_budget_record_chain id sample_redis_config ([spender ''i''], PInt 0)) 0
     (Map.empty, \<lambda>i. {}, \<lambda>i. False)) = Inr ()"
proof -
  let ?s = "plain_start 101 :: (plain_server, capability_claims list \<times> pyval, unit) system"
  have r: "([spender ''i''], PInt 0) \<in> ledger_calls sample_pool" by (simp add: ledger_calls_def typed_amount_def)
  have idle: "procs ?s 0 = None" "time ?s = 101" "server ?s = (Map.empty, \<lambda>i. {}, \<lambda>i. False)" "int_readable (int (length []))"
    using int_readable_safe [of 0] by (simp_all add: plain_start_def MAX_SAFE_INTEGER_def)
  from redis_budget_verdict [OF sample_redis_tracker _ sample_redis_facts(1,3) plain_redis_ok sample_redis_facts(7) idle(1) r
      sample_redis_facts(6,4) idle(4)] sample_redis_facts(2) first_spender_admitted
  show ?thesis by (simp add: idle(2,3))
qed

end
