(* ===== verification/RedisRevocation.thy ===== *)
theory RedisRevocation
  imports Redis Revocation
begin

text \<open>
  \<open>RedisRevocationStore\<close> of \<open>swarmauth/backends/redis_backend.py\<close> as programs of the Redis model: revoking a token reads
  the time to live of its key and raises it in one transaction, so that of two concurrent revocations the later expiry
  wins. The key of a token exists exactly while the token is revoked.

  The code retries a conflicting transaction for as long as it takes; \<open>fuel\<close> bounds the attempts here.
\<close>

section \<open>The store\<close>

record revocation_config =
  revocation_prefix :: string

definition make_redis_revocation_store :: "string \<Rightarrow> revocation_config" where
  "make_redis_revocation_store pre = \<lparr>revocation_prefix = pre\<rparr>"

definition revocation_key :: "revocation_config \<Rightarrow> string \<Rightarrow> string" where
  \<comment> \<open>\<open>_key\<close>\<close>
  "revocation_key C j = revocation_prefix C @ j"

definition ttl_left :: "answer \<Rightarrow> int result" where
  "ttl_left a = (case a of AInt n \<Rightarrow> Inr n | _ \<Rightarrow> Inl (OtherError ''ResponseError''))"

fun revoke_attempts :: "nat \<Rightarrow> string \<Rightarrow> int \<Rightarrow> bool option prog" where
  \<comment> \<open>the retry loop\<close>
  "revoke_attempts 0 key ttl_seconds = Return (Inl (OtherError ''retrying''))"
| "revoke_attempts (Suc n) key ttl_seconds =
     Watch [key]
       (Query (QTtl key) (\<lambda>a. from_result (ttl_left a) (\<lambda>left.
        if ttl_seconds \<le> left then Return (Inr None)
        else Exec [SetEx key ''1'' ttl_seconds]
          (\<lambda>ok. if ok then Return (Inr None) else revoke_attempts n key ttl_seconds))))"

definition redis_revoke :: "nat \<Rightarrow> revocation_config \<Rightarrow> string \<Rightarrow> int \<Rightarrow> bool option prog" where
  "redis_revoke fuel C j expires_at =
     Now (\<lambda>now.
       let ttl_seconds = \<lceil>of_int (expires_at + RETENTION_AFTER_EXP_SECONDS) - now\<rceil>
       in if ttl_seconds \<le> 0 then Return (Inr None)
          else revoke_attempts fuel (revocation_key C j) ttl_seconds)"

definition redis_is_revoked :: "revocation_config \<Rightarrow> string \<Rightarrow> bool option prog" where
  "redis_is_revoked C j =
     Query (QExists (revocation_key C j))
       (\<lambda>a. Return (case a of ABool b \<Rightarrow> Inr (Some b) | _ \<Rightarrow> Inl (OtherError ''ResponseError'')))"

fun redis_revocation :: "nat \<Rightarrow> revocation_config \<Rightarrow> revocation_op \<Rightarrow> bool option prog" where
  "redis_revocation fuel C (RevokeToken j e) = redis_revoke fuel C j e"
| "redis_revocation fuel C (IsRevoked j) = redis_is_revoked C j"

lemma revocation_key_eq [simp]: "revocation_key C j = revocation_key C j' \<longleftrightarrow> j = j'"
  by (simp add: revocation_key_def)

section \<open>What a revocation commits\<close>

fun revocation_spec ::
  "revocation_config \<Rightarrow> revocation_op \<Rightarrow> string list \<Rightarrow> database \<Rightarrow> rat \<Rightarrow> rat \<Rightarrow> command list \<Rightarrow> bool" where
  \<comment> \<open>a time to live that is not shorter than what is left of the present one\<close>
  "revocation_spec C (RevokeToken j e) ks D t u cmds =
     (ks = [revocation_key C j] \<and>
      (\<exists>ttl. 0 < ttl \<and> cmds = [SetEx (revocation_key C j) ''1'' ttl] \<and>
         (\<forall>v d. D (revocation_key C j) = Some (v, Some d) \<longrightarrow> d \<le> t + of_int ttl)))"
| "revocation_spec C (IsRevoked j) ks D t u cmds = False"

definition held :: "revocation_config \<Rightarrow> string \<Rightarrow> rat \<Rightarrow> database \<Rightarrow> bool" where
  \<comment> \<open>the token stays revoked until \<open>d\<close>\<close>
  "held C j d D \<longleftrightarrow> (\<exists>v d'. D (revocation_key C j) = Some (v, Some d') \<and> d \<le> d')"

definition until :: "int \<Rightarrow> rat" where
  \<comment> \<open>\<open>TTL\<close> answers in whole seconds, so a revocation may rest on a key that ends up to a second early\<close>
  "until e = of_int (e + RETENTION_AFTER_EXP_SECONDS) - 1"

fun revocation_post :: "revocation_config \<Rightarrow> revocation_op \<Rightarrow> rat \<Rightarrow> database \<Rightarrow> bool" where
  "revocation_post C (RevokeToken j e) t D = (until e \<le> t \<or> held C j (until e) D)"
| "revocation_post C (IsRevoked j) t D = True"

lemma ttl_answer:
  assumes "answers t D (QTtl k) (AInt n)" "D k = Some (v, Some d)" "n < ttl" "t \<le> t'" "0 < ttl"
  shows "d \<le> t' + of_int ttl"
proof (cases "t < d")
  case True
  then have "\<bar>of_int n - (d - t)\<bar> \<le> 1"
    using assms(1,2) by (simp add: visible_def deadline_def)
  moreover have "(of_int n :: rat) \<le> of_int ttl - 1" using assms(3) by (metis of_int_1 of_int_diff of_int_le_iff zle_diff1_eq)
  ultimately show ?thesis using assms(4) by linarith
next
  case False
  moreover have "(0 :: rat) < of_int ttl" using assms(5) by simp
  ultimately show ?thesis using assms(4) by linarith
qed

lemma ttl_enough:
  assumes "answers t D (QTtl k) (AInt n)" "ttl \<le> n" "0 < ttl"
  shows "\<exists>v d. D k = Some (v, Some d) \<and> t + of_int ttl - 1 \<le> d"
proof -
  have vis: "visible t D k \<noteq> None" using assms(1-3) by (cases "visible t D k") auto
  then obtain v d where D: "D k = Some (v, d)" by (auto simp: visible_def split: option.splits)
  with vis assms(1-3) obtain d' where d: "d = Some d'" by (cases d) (auto simp: deadline_def)
  with D vis assms(1) have "\<bar>of_int n - (d' - t)\<bar> \<le> 1"
    by (auto simp: visible_def deadline_def split: if_splits)
  moreover have "(of_int ttl :: rat) \<le> of_int n" using assms(2) by simp
  ultimately have "t + of_int ttl - 1 \<le> d'" by linarith
  with D d show ?thesis by blast
qed

lemma revoke_attempts_waits [simp]: "commits_only Q W w D t u (revoke_attempts n key ttl)"
  by (cases n) simp_all

lemma revoke_attempts_segments:
  assumes "0 < ttl"
  shows "each_segment (\<lambda>ks p. \<forall>D t u. commits_only (revocation_spec C (RevokeToken j e) ks D) (set ks) t D t u p)
    (revoke_attempts n (revocation_key C j) ttl)"
proof (induction n)
  case (Suc n)
  have "d \<le> t'' + of_int ttl"
    if "answers t' D (QTtl (revocation_key C j)) (AInt m)" "m < ttl" "t' \<le> t''" "D (revocation_key C j) = Some (v, Some d)"
    for D t' t'' m v d
    by (rule ttl_answer [OF that(1,4,2,3) assms])
  with Suc assms show ?case
    by (auto simp: ttl_left_def from_result_def not_le simp del: answers.simps split: answer.split)
qed simp

lemma settles_revoke_attempts:
  assumes "0 < ttl" "until e \<le> t + of_int ttl - 1"
  shows "settles (revocation_post C (RevokeToken j e)) t False (revoke_attempts n (revocation_key C j) ttl)"
  using assms(2)
proof (induction n arbitrary: t)
  case (Suc n)
  have rest: "settles (revocation_post C (RevokeToken j e)) t' b (revoke_attempts n (revocation_key C j) ttl)"
    if "t \<le> t'" for t' b
    by (rule settles_mono [OF Suc.IH order_refl]) (use Suc.prems that in \<open>linarith, simp\<close>)
  have seen: "revocation_post C (RevokeToken j e) t' D"
    if "t \<le> t'" "answers t' D (QTtl (revocation_key C j)) (AInt m)" "ttl \<le> m" for t' D m
  proof -
    from ttl_enough [OF that(2,3) assms(1)]
    obtain v d where d: "D (revocation_key C j) = Some (v, Some d)" "t' + of_int ttl - 1 \<le> d" by blast
    from d(2) Suc.prems that(1) have "until e \<le> d" by linarith
    with d(1) show ?thesis by (auto simp: held_def)
  qed
  have written: "revocation_post C (RevokeToken j e) t' (apply_all t' [SetEx (revocation_key C j) ''1'' ttl] D)"
    if "t \<le> t'" for t' D
    using Suc.prems that by (simp add: apply_all_def held_def)
  show ?case
    using rest seen written
    by (auto simp: ttl_left_def from_result_def not_le simp del: answers.simps revocation_post.simps split: answer.split)
qed simp

interpretation revocation_db:
  settling "redis_revocation fuel C" UNIV "revocation_spec C" "\<lambda>t D. True" "revocation_post C"
  for fuel C
proof unfold_locales
  fix r
  show "each_segment (\<lambda>ks p. \<forall>D t u. True \<longrightarrow> commits_only (revocation_spec C r ks D) (set ks) t D t u p)
    (Watch [] (redis_revocation fuel C r))"
    using revoke_attempts_segments
    by (cases r) (auto simp: redis_revoke_def redis_is_revoked_def Let_def not_le)
next
  fix ks D D' r t u cmds
  assume "\<And>k. k \<in> set ks \<Longrightarrow> D k = D' k" "revocation_spec C r ks D t u cmds"
  then show "revocation_spec C r ks D' t u cmds" by (cases r) auto
next
  fix t D r ks u cmds
  assume "revocation_spec C r ks D t u cmds"
  then show "all_fit t cmds D" by (cases r) auto
next
  fix r t
  show "settles (revocation_post C r) t False (redis_revocation fuel C r)"
  proof (cases r)
    case (RevokeToken j e)
    let ?ttl = "\<lambda>t'. \<lceil>of_int (e + RETENTION_AFTER_EXP_SECONDS) - t'\<rceil>"
    have over: "revocation_post C r t' D" if "?ttl t' \<le> 0" for t' D
    proof -
      have "of_int (e + RETENTION_AFTER_EXP_SECONDS) - t' \<le> 0" using that by (simp add: ceiling_le_iff)
      then have "until e \<le> t'" unfolding until_def by linarith
      then show ?thesis by (simp add: RevokeToken)
    qed
    have "until e \<le> t' + of_int (?ttl t') - 1" for t'
      unfolding until_def using le_of_int_ceiling [of "of_int (e + RETENTION_AFTER_EXP_SECONDS) - t'"] by linarith
    then have again: "settles (revocation_post C r) t' b (revoke_attempts fuel (revocation_key C j) (?ttl t'))"
      if "0 < ?ttl t'" for t' b
      unfolding RevokeToken by (rule settles_mono [OF settles_revoke_attempts [OF that] order_refl]) simp_all
    show ?thesis
      using over again by (simp add: RevokeToken redis_revoke_def Let_def not_le del: revocation_post.simps) blast
  qed (simp add: redis_is_revoked_def)
next
  fix r t D t'
  assume "revocation_post C r t D" "t \<le> t'"
  then show "revocation_post C r t' D" by (cases r) auto
next
  fix r t D q ks u cmds
  assume post: "revocation_post C r t D" and spec: "revocation_spec C q ks D t u cmds"
  show "revocation_post C r t (apply_all t cmds D)"
  proof (cases r)
    case r: (RevokeToken j e)
    from spec obtain j' e' ttl where cmds: "cmds = [SetEx (revocation_key C j') ''1'' ttl]"
        "\<And>v d. D (revocation_key C j') = Some (v, Some d) \<Longrightarrow> d \<le> t + of_int ttl"
      by (cases q) auto
    have "held C j (until e) (apply_all t cmds D)" if "held C j (until e) D"
    proof -
      obtain v d where "D (revocation_key C j) = Some (v, Some d)" "until e \<le> d"
        using \<open>held C j (until e) D\<close> by (auto simp: held_def)
      with cmds show ?thesis by (cases "j = j'") (auto simp: held_def apply_all_def intro: order_trans)
    qed
    with post show ?thesis by (auto simp: r)
  qed simp
qed simp_all

section \<open>Queries and undisturbed calls\<close>

lemma is_revoked_alone:
  assumes "redis_ok R"
  shows "fst (alone R t i g r (redis_is_revoked C j) u S) =
    Inr (Some (visible t (data R S) (revocation_key C j) \<noteq> None))"
  using redis_answers [OF assms, of t S "QExists (revocation_key C j)"] by (simp add: redis_is_revoked_def)

lemma held_visible: "held C j d D \<Longrightarrow> t < d \<Longrightarrow> visible t D (revocation_key C j) \<noteq> None"
  by (auto simp: held_def visible_def)

lemma stored_committed:
  assumes "redis_ok R" "sys_run R (redis_revocation fuel C) UNIV cs s"
  shows "\<forall>j. data R (server s) (revocation_key C j) \<noteq> None \<longrightarrow> (\<exists>u e cmds. (u, RevokeToken j e, cmds) \<in> set cs)"
proof (rule revocation_db.run_invariant [OF assms])
  fix t D r ks u cmds and cs :: "revocation_op commit list"
  assume before: "\<forall>j. D (revocation_key C j) \<noteq> None \<longrightarrow> (\<exists>u e cmds. (u, RevokeToken j e, cmds) \<in> set cs)"
    and spec: "revocation_spec C r ks D t u cmds"
  from spec obtain j e ttl where r: "r = RevokeToken j e" "cmds = [SetEx (revocation_key C j) ''1'' ttl]"
    by (cases r) auto
  show "\<forall>j. apply_all t cmds D (revocation_key C j) \<noteq> None \<longrightarrow>
      (\<exists>v e cmds'. (v, RevokeToken j e, cmds') \<in> set (cs @ [(u, r, cmds)]))"
  proof (intro allI impI)
    fix j'
    assume some: "apply_all t cmds D (revocation_key C j') \<noteq> None"
    show "\<exists>v e cmds'. (v, RevokeToken j' e, cmds') \<in> set (cs @ [(u, r, cmds)])"
    proof (cases "j' = j")
      case True
      then show ?thesis by (auto simp: r)
    next
      case False
      with some have "D (revocation_key C j') \<noteq> None" by (simp add: r(2) apply_all_def)
      with before obtain v e cmds' where "(v, RevokeToken j' e, cmds') \<in> set cs" by blast
      then show ?thesis by auto
    qed
  qed
qed simp_all

lemma undisturbed_revoke:
  assumes "redis_ok R" "sys_run R (redis_revocation fuel C) UNIV cs s" "procs s i = None" "0 < fuel"
  shows "fst (alone R (time s) i g r (redis_revoke fuel C j e) 0 (server s)) = Inr None"
proof -
  define ttl where "ttl = \<lceil>of_int (e + RETENTION_AFTER_EXP_SECONDS) - time s\<rceil>"
  let ?k = "revocation_key C j"
  let ?S = "redis.watch R (time s) i [?k] (server s)"
  obtain n where fuel: "fuel = Suc n" using assms(4) by (cases fuel) auto
  have "watched R (server s) i = {}" "\<not> dirty R (server s) i"
    using revocation_db.sys_run_inv [OF assms(1,2)] assms(3) unfolding revocation_db.sys_inv_def
    by (metis revocation_db.conn_ok_simps(1))+
  then have "\<not> dirty R ?S i" "snd ` watched R ?S i \<subseteq> {time s}" by (simp_all add: redis_watch [OF assms(1)])
  from redis_fires [OF assms(1) this] obtain S'
    where S': "redis.exec R (time s) i [SetEx ?k ''1'' ttl] ?S = (True, S')" by blast
  from redis_answers [OF assms(1), of "time s" ?S "QTtl ?k"] obtain m where m: "redis.query R (time s) (QTtl ?k) ?S = AInt m"
    by (auto split: option.splits)
  show ?thesis
    by (cases "ttl \<le> 0"; cases "ttl \<le> m") (simp_all only: fuel redis_revoke_def Let_def alone.simps ttl_def [symmetric] revoke_attempts.simps
      ttl_left_def m S' alone_result if_split answer.case sum.case prod.case fst_conv if_True if_False simp_thms)
qed

lemma settled_is_revoked:
  assumes "redis_ok R" "sys_run R (redis_revocation fuel C) UNIV cs s"
    and "(RevokeToken j e, Inr x) \<in> set (finished s)" "time s < of_int (e + MAX_LEEWAY_SECONDS)"
  shows "fst (alone R (time s) i g r (redis_is_revoked C j) 0 (server s)) = Inr (Some True)"
proof -
  have "revocation_post C (RevokeToken j e) (time s) (data R (server s))"
    using revocation_db.run_settled [OF assms(1,2)] assms(3) unfolding revocation_db.all_settled_def by fastforce
  moreover have "time s < until e" using assms(4) by (simp add: until_def RETENTION_AFTER_EXP_SECONDS_def)
  ultimately show ?thesis using held_visible [of C j "until e"] by (auto simp: is_revoked_alone [OF assms(1)])
qed

abbreviation sample_store :: revocation_config where
  "sample_store \<equiv> make_redis_revocation_store ''revoked:''"

abbreviation sample_system :: "(plain_server, revocation_op, bool option) system" where
  "sample_system \<equiv> plain_start 101"

lemma sample_system_facts:
  "sys_run plain_redis (redis_revocation 1 sample_store) UNIV [] sample_system"
  "procs sample_system i = None" "time sample_system = 101" "server sample_system = (Map.empty, \<lambda>i. {}, \<lambda>i. False)"
proof -
  have "binary64_number 101" unfolding binary64_number_def by code_simp
  then show "sys_run plain_redis (redis_revocation 1 sample_store) UNIV [] sample_system"
    by (intro plain_start_run) simp_all
qed (simp_all add: plain_start_def)

lemma sample_revocation_run:
  obtains cs s where "sys_run plain_redis (redis_revocation 1 sample_store) UNIV cs s" "time s = 101"
    "(RevokeToken ''j'' 110, Inr None) \<in> set (finished s)"
proof -
  let ?r = "RevokeToken ''j'' 110"
  note f = sample_system_facts
  obtain x S cs where run: "alone plain_redis (time sample_system) 0 [] ?r (redis_revocation 1 sample_store ?r) 0 (server sample_system) = (x, S, cs)"
    by (metis prod.exhaust)
  have "x = Inr None"
    using undisturbed_revoke [OF plain_redis_ok f(1,2), where i = 0 and g = "[]" and r = ?r and j = "''j''" and e = 110] run
    by simp
  then show thesis
    by (intro that [OF alone_run [OF f(1,2) UNIV_I run]]) (simp_all add: f(3))
qed

section \<open>Properties\<close>

text \<open>C26. A revocation that returned is final. Any number of processes revoke and query tokens on one server, interleaved
  at every command; once a call that revokes a token has returned, no concurrent revocation of it with an earlier
  expiry takes it back: a query finds it revoked until its expiry and the greatest leeway are over.\<close>

theorem redis_revocation_holds:
  assumes "redis_ok R" "sys_run R (redis_revocation fuel C) UNIV cs s"
    and "(RevokeToken j e, Inr x) \<in> set (finished s)" "time s < of_int (e + MAX_LEEWAY_SECONDS)"
  shows "fst (alone R (time s) i g r (redis_is_revoked C j) 0 (server s)) = Inr (Some True)"
  by (rule settled_is_revoked [OF assms])

theorem redis_revocation_holds_witness:
  "\<exists>cs s. sys_run plain_redis (redis_revocation 1 sample_store) UNIV cs s \<and>
     fst (alone plain_redis (time s) 0 [] () (redis_is_revoked sample_store ''j'') 0 (server s)) = Inr (Some True)"
proof -
  obtain cs s where s: "sys_run plain_redis (redis_revocation 1 sample_store) UNIV cs s" "time s = 101"
    "(RevokeToken ''j'' 110, Inr None) \<in> set (finished s)"
    by (rule sample_revocation_run)
  from redis_revocation_holds [OF plain_redis_ok s(1,3)] s(1,2) show ?thesis
    by (intro exI [of _ cs] exI [of _ s]) (simp add: limits_defs)
qed

text \<open>Nothing else is revoked: a query that answers that a token is revoked follows the commit of a revocation of
  that token.\<close>

theorem redis_revocation_sound:
  assumes "redis_ok R" "sys_run R (redis_revocation fuel C) UNIV cs s"
    and "fst (alone R (time s) i g r (redis_is_revoked C j) 0 (server s)) = Inr (Some True)"
  shows "\<exists>u e cmds. (u, RevokeToken j e, cmds) \<in> set cs"
proof -
  have "data R (server s) (revocation_key C j) \<noteq> None"
    using assms(3) unfolding is_revoked_alone [OF assms(1)] by (auto simp: visible_def split: option.splits)
  with stored_committed [OF assms(1,2)] show ?thesis by blast
qed

theorem redis_revocation_sound_witness:
  "\<exists>cs s u e cmds. sys_run plain_redis (redis_revocation 1 sample_store) UNIV cs s \<and> (u, RevokeToken ''j'' e, cmds) \<in> set cs"
proof -
  obtain cs s where s: "sys_run plain_redis (redis_revocation 1 sample_store) UNIV cs s" "time s = 101"
    "(RevokeToken ''j'' 110, Inr None) \<in> set (finished s)"
    by (rule sample_revocation_run)
  have "fst (alone plain_redis (time s) 0 [] () (redis_is_revoked sample_store ''j'') 0 (server s)) = Inr (Some True)"
    by (rule settled_is_revoked [OF plain_redis_ok s(1,3)]) (simp add: s(2) limits_defs)
  from redis_revocation_sound [OF plain_redis_ok s(1) this] s(1) show ?thesis by blast
qed

text \<open>Revoking always succeeds if nobody interferes: whatever other calls did before, and whatever they left under the
  key, a call that runs alone returns normally at its first attempt.\<close>

theorem redis_revoke_returns:
  assumes "redis_ok R" "sys_run R (redis_revocation fuel C) UNIV cs s" "procs s i = None" "0 < fuel"
  shows "fst (alone R (time s) i g r (redis_revoke fuel C j e) 0 (server s)) = Inr None"
  by (rule undisturbed_revoke [OF assms])

theorem redis_revoke_returns_witness:
  "fst (alone plain_redis 101 0 [] () (redis_revoke 1 sample_store ''j'' 110) 0
     (Map.empty, \<lambda>i. {}, \<lambda>i. False)) = Inr None"
  using redis_revoke_returns [OF plain_redis_ok sample_system_facts(1,2), where i = 0 and g = "[]" and r = "()" and j = "''j''" and e = 110]
  by (simp add: sample_system_facts(3,4))

end
