(* ===== verification/Approvals.thy ===== *)
theory Approvals
  imports Deployment
begin

text \<open>
  \<open>swarmauth/approvals.py\<close>: an approval records a decision about one revision of a resource and one exact payload, which
  a digest identifies. The store keeps at most one active approval of a resource and gives it out once
  (\<open>consume\<close>); its protocol is the locale \<open>approval_store\<close>, and \<open>InMemoryApprovalStore\<close> is its interpretation. The service
  issues tokens pinned to an approval and authorizes a request at most once.

  \<open>hashlib.sha256(\<dots>).hexdigest()\<close> is the parameter \<open>sha\<close>; only its freedom from collisions on the payloads in use
  matters.
\<close>

section \<open>The digest of a request\<close>

function payload_valid :: "pyval \<Rightarrow> bool" where
  \<comment> \<open>\<open>valid\<close>: portable JSON without floats\<close>
  "payload_valid PNone = True"
| "payload_valid (PStr s) = True"
| "payload_valid (PBool b) = True"
| "payload_valid (PInt n) = (\<bar>n\<bar> \<le> MAX_SAFE_INTEGER)"
| "payload_valid (PFloat f) = False"
| "payload_valid (PList xs) = list_all payload_valid xs"
| "payload_valid (PTuple xs) = False"
| "payload_valid (PDict d) = list_all (\<lambda>(k, v). payload_valid v) d"
  by pat_completeness auto
termination
  by (relation "measure size") (auto dest: size_list_mem size_dict_mem)

definition request_digest :: "(string \<Rightarrow> string) \<Rightarrow> pyval \<Rightarrow> string result" where
  "request_digest sha payload =
     rbind (ensure (payload_valid payload) ValueError) (\<lambda>_. Inr (sha (json_text payload)))"

lemma request_digest_iff [py_inv]:
  "request_digest sha payload = Inr d \<longleftrightarrow> payload_valid payload \<and> d = sha (json_text payload)"
  by (auto simp: request_digest_def py_inv)

text \<open>
  Two payloads have one text exactly when they are equal as JSON: the text can be read back, and equality of valid
  payloads is equality up to the order of keys.
\<close>

lemma sorted_dict_eq:
  assumes "sorted (List.map fst d)" "distinct (List.map fst d)" "sorted (List.map fst e)" "distinct (List.map fst e)"
  shows "d = e \<longleftrightarrow> map_of d = map_of e"
proof
  assume "map_of d = map_of e"
  with assms have "set d = set e" by (metis map_of_inject_set)
  with assms show "d = e"
    by (intro map_sorted_distinct_set_unique [where f = fst]) (auto simp: distinct_map)
qed simp

lemma payload_equal_iff:
  assumes "payload_valid p" "payload_valid q" "json_readable p" "json_readable q"
  shows "json_value_equal p q \<longleftrightarrow> sort_keys p = sort_keys q"
  using assms
proof (induction p arbitrary: q)
  case (PInt n)
  then show ?case by (cases q) (auto simp: json_value_equal_iff)
next
  case (PList xs)
  then have "list_all2 json_value_equal xs ys \<longleftrightarrow> List.map sort_keys xs = List.map sort_keys ys" if "q = PList ys" for ys
    using that by (auto simp: list_all2_conv_all_nth list_eq_iff_nth_eq list_all_length)
  with PList.prems show ?case by (cases q) (simp_all add: json_value_equal_iff)
next
  case (PDict d)
  show ?case
  proof (cases "\<exists>e. q = PDict e")
    case True
    then obtain e where q: "q = PDict e" by blast
    let ?s = "List.map (\<lambda>(k, v). (k, sort_keys v))"
    have dist: "distinct (List.map fst d)" "distinct (List.map fst e)" using PDict.prems q by simp_all
    have row: "json_value_equal v u \<longleftrightarrow> sort_keys v = sort_keys u" if "(k, v) \<in> set d" "(k, u) \<in> set e" for k v u
    proof -
      have "payload_valid v" "payload_valid u" "json_readable v" "json_readable u"
        using PDict.prems that q by (auto simp: list_all_iff)
      with PDict.IH [OF that(1)] show ?thesis by simp
    qed
    have "json_value_equal (PDict d) q \<longleftrightarrow>
        (\<forall>k. map_option sort_keys (map_of d k) = map_option sort_keys (map_of e k))" (is "?l \<longleftrightarrow> ?r")
    proof
      assume ?l
      then have l: "dom (map_of d) = dom (map_of e)"
          "\<And>k v. (k, v) \<in> set d \<Longrightarrow> \<exists>u. map_of e k = Some u \<and> json_value_equal v u"
        by (auto simp: q json_value_equal_iff)
      show ?r
      proof
        fix k
        show "map_option sort_keys (map_of d k) = map_option sort_keys (map_of e k)"
        proof (cases "map_of d k")
          case None
          with l(1) show ?thesis by (metis domIff)
        next
          case (Some v)
          then have v: "(k, v) \<in> set d" by (rule map_of_SomeD)
          then obtain u where "map_of e k = Some u" "json_value_equal v u" using l(2) by blast
          with row [OF v map_of_SomeD] Some show ?thesis by simp
        qed
      qed
    next
      assume r: ?r
      then have "dom (map_of d) = dom (map_of e)" by (metis (no_types) domIff map_option_is_None subsetI subset_antisym)
      moreover have "\<exists>u. map_of e k = Some u \<and> json_value_equal v u" if v: "(k, v) \<in> set d" for k v
      proof -
        have "map_of d k = Some v" using v dist(1) by simp
        with r [rule_format, of k] obtain u where "map_of e k = Some u" "sort_keys u = sort_keys v"
          by (cases "map_of e k") auto
        with row [OF v map_of_SomeD] show ?thesis by auto
      qed
      ultimately show ?l by (simp add: q json_value_equal_iff)
    qed
    also have "?r \<longleftrightarrow> map_of (?s (sort_key fst d)) = map_of (?s (sort_key fst e))"
      using dist by (simp add: map_of_map map_of_sort_key fun_eq_iff)
    also have "\<dots> \<longleftrightarrow> ?s (sort_key fst d) = ?s (sort_key fst e)"
      by (rule sorted_dict_eq [symmetric]) (use dist in \<open>simp_all add: distinct_map comp_def split_beta\<close>)
    finally show ?thesis by (simp add: q)
  qed (use PDict.prems in \<open>cases q; simp add: json_value_equal_iff\<close>)
qed (case_tac q; auto simp: json_value_equal_iff)+

lemma json_text_sorted: "json_text (sort_keys v) = json_text v"
proof (induction v)
  case (PDict d)
  let ?s = "List.map (\<lambda>(k, v). (k, sort_keys v)) (sort_key fst d)"
  have "sort_key fst ?s = ?s"
    by (rule sort_key_id_if_sorted) (simp add: comp_def split_beta)
  moreover have "List.map (\<lambda>(k, v). json_string k @ '':'' @ json_text v) ?s =
      List.map (\<lambda>(k, v). json_string k @ '':'' @ json_text v) (sort_key fst d)"
    using PDict by auto
  ultimately show ?case by (simp only: sort_keys.simps json_text.simps)
qed (simp_all cong: map_cong)

lemma digest_equal_iff:
  assumes "request_digest sha p = Inr d" "request_digest sha q = Inr e" "json_readable p" "json_readable q"
    and "inj_on sha {json_text p, json_text q}"
  shows "d = e \<longleftrightarrow> json_value_equal p q"
proof -
  have "json_text p = json_text q \<longleftrightarrow> sort_keys p = sort_keys q"
  proof
    assume "json_text p = json_text q"
    with json_loads_text [OF assms(3)] json_loads_text [OF assms(4)] show "sort_keys p = sort_keys q" by simp
  next
    assume "sort_keys p = sort_keys q"
    then show "json_text p = json_text q" by (metis json_text_sorted)
  qed
  with assms show ?thesis by (auto simp: py_inv payload_equal_iff inj_on_eq_iff)
qed

section \<open>Approvals\<close>

record approval =
  approval_id :: string
  resource_id :: string
  revision :: string
  approved_digest :: string
  expires_at :: int

definition approval_pins :: "approval \<Rightarrow> params" where
  "approval_pins a =
     [(''approval_id'', PStr (approval_id a)), (''resource_id'', PStr (resource_id a)),
      (''revision'', PStr (revision a)), (''request_digest'', PStr (approved_digest a))]"

section \<open>The store protocol\<close>

text \<open>
  The contract of a store, over its state and the reading of the clock. \<open>current\<close> is the id of the active approval of a
  resource. A store may forget an approval that has expired; it must not forget one that has not.
\<close>

datatype approval_op = PutApproval approval | Invalidate string | Consume approval

fun named :: "approval_op \<Rightarrow> approval set" where
  "named (PutApproval a) = {a}"
| "named (Invalidate r) = {}"
| "named (Consume a) = {a}"

definition puts :: "(rat \<times> approval_op) list \<Rightarrow> approval list" where
  "puts ops = concat (List.map (\<lambda>(t, op). case op of PutApproval a \<Rightarrow> [a] | _ \<Rightarrow> []) ops)"

lemma puts_simps [simp]:
  "puts [] = []" "puts ((t, PutApproval a) # ops) = a # puts ops"
  "puts ((t, Invalidate r) # ops) = puts ops" "puts ((t, Consume a) # ops) = puts ops"
  by (simp_all add: puts_def)

text \<open>
  What the approvals mean: the standing approval of a resource is the last one put, unless the resource was invalidated or
  the approval used since.
\<close>

fun standing_step :: "rat \<times> approval_op \<Rightarrow> (string \<rightharpoonup> approval) \<Rightarrow> (string \<rightharpoonup> approval)" where
  "standing_step (t, PutApproval a) m = m(resource_id a \<mapsto> a)"
| "standing_step (t, Invalidate r) m = m(r := None)"
| "standing_step (t, Consume a) m =
     (if t < of_int (expires_at a) \<and> m (resource_id a) = Some a then m(resource_id a := None) else m)"

definition standing :: "(rat \<times> approval_op) list \<Rightarrow> string \<rightharpoonup> approval" where
  "standing ops = fold standing_step ops Map.empty"

locale approval_store =
  fixes empty :: 's
    and put :: "rat \<Rightarrow> approval \<Rightarrow> 's \<Rightarrow> 's"
    and get :: "string \<Rightarrow> 's \<Rightarrow> approval option"
    and current :: "'s \<Rightarrow> string \<Rightarrow> string option"
    and invalidate :: "string \<Rightarrow> 's \<Rightarrow> 's"
    and consume :: "rat \<Rightarrow> approval \<Rightarrow> 's \<Rightarrow> bool \<times> 's"
  assumes current_empty: "current empty r = None"
    and current_put: "current (put t a s) (resource_id a) = Some (approval_id a)"
    and current_put_other: "r \<noteq> resource_id a \<Longrightarrow> current (put t a s) r = Some i \<Longrightarrow> current s r = Some i"
    and current_put_kept: "r \<noteq> resource_id a \<Longrightarrow> current s r = Some (approval_id b) \<Longrightarrow>
      get (approval_id b) s = Some b \<Longrightarrow> t < of_int (expires_at b) \<Longrightarrow>
      current (put t a s) r = Some (approval_id b)"
    and get_put: "get (approval_id a) (put t a s) = Some a"
    and get_put_kept: "approval_id b \<noteq> approval_id a \<Longrightarrow> get (approval_id b) s = Some b \<Longrightarrow>
      t < of_int (expires_at b) \<Longrightarrow> get (approval_id b) (put t a s) = Some b"
    and invalidate_current: "current (invalidate r s) = (current s)(r := None)"
    and invalidate_get: "get i (invalidate r s) = get i s"
    and consume_result: "fst (consume t a s) \<longleftrightarrow>
      t < of_int (expires_at a) \<and> current s (resource_id a) = Some (approval_id a)"
    and consume_current: "current (snd (consume t a s)) =
      (if fst (consume t a s) then (current s)(resource_id a := None) else current s)"
    and consume_get: "get i (snd (consume t a s)) = get i s"
begin

fun step :: "rat \<times> approval_op \<Rightarrow> 's \<Rightarrow> 's" where
  "step (t, PutApproval a) s = put t a s"
| "step (t, Invalidate r) s = invalidate r s"
| "step (t, Consume a) s = snd (consume t a s)"

fun run :: "(rat \<times> approval_op) list \<Rightarrow> 's \<Rightarrow> 's" where
  "run [] s = s"
| "run (op # ops) s = run ops (step op s)"

text \<open>The approvals that were consumed.\<close>

fun consumed :: "(rat \<times> approval_op) list \<Rightarrow> 's \<Rightarrow> approval list" where
  "consumed [] s = []"
| "consumed ((t, op) # ops) s =
     (case op of Consume a \<Rightarrow> if fst (consume t a s) then [a] else [] | _ \<Rightarrow> []) @ consumed ops (step (t, op) s)"

lemma consumed_bound:
  "length (filter (\<lambda>a. resource_id a = r \<and> approval_id a = i) (consumed ops s)) + of_bool (current (run ops s) r = Some i)
    \<le> of_bool (current s r = Some i) + length (filter (\<lambda>a. resource_id a = r \<and> approval_id a = i) (puts ops))"
proof (induction ops arbitrary: s)
  case (Cons top ops)
  obtain t op where top: "top = (t, op)" by (cases top)
  show ?case
  proof (cases op)
    case (PutApproval a)
    have "of_bool (current (put t a s) r = Some i) \<le>
        of_bool (current s r = Some i) + (of_bool (resource_id a = r \<and> approval_id a = i) :: nat)"
      using current_put [of t a s] current_put_other [of r a t s i] by (cases "resource_id a = r") auto
    with Cons [of "put t a s"] show ?thesis
      by (auto simp: top PutApproval of_bool_def split: if_splits)
  next
    case (Invalidate r')
    with Cons [of "invalidate r' s"] show ?thesis
      by (auto simp: top invalidate_current split: if_splits)
  next
    case (Consume a)
    with Cons [of "snd (consume t a s)"] consume_result [of t a s] show ?thesis
      by (auto simp: top consume_current split: if_splits)
  qed
qed simp

lemma single_use:
  "length (filter (\<lambda>a. resource_id a = r \<and> approval_id a = i) (consumed ops empty))
    \<le> length (filter (\<lambda>a. resource_id a = r \<and> approval_id a = i) (puts ops))"
  using consumed_bound [of r i ops empty] by (simp add: current_empty)

definition represents :: "approval set \<Rightarrow> rat \<Rightarrow> 's \<Rightarrow> (string \<rightharpoonup> approval) \<Rightarrow> bool" where
  "represents A t s m \<longleftrightarrow>
     (\<forall>r b. m r = Some b \<longrightarrow> b \<in> A \<and> resource_id b = r) \<and>
     (\<forall>r i. current s r = Some i \<longrightarrow> (\<exists>b. m r = Some b \<and> approval_id b = i)) \<and>
     (\<forall>r b. m r = Some b \<longrightarrow> t < of_int (expires_at b) \<longrightarrow>
        current s r = Some (approval_id b) \<and> get (approval_id b) s = Some b)"

lemma represents_consume:
  assumes "represents A t s m" "inj_on approval_id A" "a \<in> A" "t \<le> t'"
  shows "fst (consume t' a s) \<longleftrightarrow> t' < of_int (expires_at a) \<and> m (resource_id a) = Some a"
proof -
  have "current s (resource_id a) = Some (approval_id a) \<longleftrightarrow> m (resource_id a) = Some a" if live: "t' < of_int (expires_at a)"
  proof
    assume "current s (resource_id a) = Some (approval_id a)"
    with assms(1) obtain b where "m (resource_id a) = Some b" "approval_id b = approval_id a" "b \<in> A"
      unfolding represents_def by metis
    with assms(2,3) show "m (resource_id a) = Some a" by (metis inj_onD)
  next
    assume "m (resource_id a) = Some a"
    moreover have "t < of_int (expires_at a)" using assms(4) live by simp
    ultimately show "current s (resource_id a) = Some (approval_id a)"
      using assms(1) unfolding represents_def by blast
  qed
  then show ?thesis unfolding consume_result by blast
qed

lemma represents_step:
  assumes rep: "represents A t s m" and inj: "inj_on approval_id A" and "named op \<subseteq> A" "t \<le> t'"
  shows "represents A t' (step (t', op) s) (standing_step (t', op) m)"
proof (cases op)
  case (PutApproval a)
  have "a \<in> A" using assms(3) PutApproval by simp
  have kept: "current (put t' a s) r = Some (approval_id b) \<and> get (approval_id b) (put t' a s) = Some b"
    if "r \<noteq> resource_id a" "m r = Some b" "t' < of_int (expires_at b)" for r b
  proof -
    have b: "b \<in> A" "resource_id b = r" "current s r = Some (approval_id b)" "get (approval_id b) s = Some b"
      using rep that assms(4) unfolding represents_def by (meson order_le_less_trans)+
    then have "approval_id b \<noteq> approval_id a" using inj \<open>a \<in> A\<close> that(1) by (metis inj_onD)
    with b that show ?thesis by (simp add: current_put_kept get_put_kept)
  qed
  have old: "\<exists>b. m r = Some b \<and> approval_id b = i" if "r \<noteq> resource_id a" "current (put t' a s) r = Some i" for r i
    using current_put_other [OF that] rep unfolding represents_def by blast
  show ?thesis
    using rep kept old \<open>a \<in> A\<close> unfolding represents_def
    by (auto simp: PutApproval current_put get_put split: if_splits)
next
  case (Invalidate r)
  then show ?thesis
    using rep assms(4) unfolding represents_def
    by (auto simp: invalidate_current invalidate_get split: if_splits intro: order_le_less_trans)
next
  case (Consume a)
  then have "a \<in> A" using assms(3) by simp
  have later: "represents A t' s m"
    using rep assms(4) unfolding represents_def by (meson order_le_less_trans)
  show ?thesis
  proof (cases "fst (consume t' a s)")
    case True
    with later represents_consume [OF rep inj \<open>a \<in> A\<close> assms(4)] show ?thesis
      unfolding represents_def by (auto simp: Consume consume_current consume_get split: if_splits)
  next
    case False
    with later represents_consume [OF rep inj \<open>a \<in> A\<close> assms(4)] show ?thesis
      unfolding represents_def by (auto simp: Consume consume_current consume_get)
  qed
qed

lemma represents_run:
  assumes "represents A t s m" "inj_on approval_id A" "\<forall>(t, op) \<in> set ops. named op \<subseteq> A"
    and "sorted (t # List.map fst ops @ [t'])"
  shows "represents A t' (run ops s) (fold standing_step ops m)"
  using assms
proof (induction ops arbitrary: t s m)
  case Nil
  then show ?case unfolding represents_def by simp
next
  case (Cons top ops)
  obtain u op where top: "top = (u, op)" by (cases top)
  with Cons.prems have "represents A u (step (u, op) s) (standing_step (u, op) m)"
    by (intro represents_step [of A t]) auto
  from Cons.IH [OF this] Cons.prems show ?case by (auto simp: top)
qed

lemma consume_standing:
  assumes "inj_on approval_id A" "\<forall>(t, op) \<in> set ops. named op \<subseteq> A" "a \<in> A" "sorted (List.map fst ops @ [t])"
  shows "fst (consume t a (run ops empty)) \<longleftrightarrow> t < of_int (expires_at a) \<and> standing ops (resource_id a) = Some a"
proof -
  have start: "represents A t0 empty Map.empty" for t0
    by (simp add: represents_def current_empty)
  obtain t0 where "sorted (t0 # List.map fst ops @ [t])"
  proof (cases ops)
    case Nil
    then show thesis by (intro that [of t]) simp
  next
    case (Cons top ops')
    with assms(4) show thesis by (intro that [of "fst top"]) auto
  qed
  from represents_consume [OF represents_run [OF start assms(1,2) this] assms(1,3) order_refl]
  show ?thesis by (simp add: standing_def)
qed

end

section \<open>The in-memory store\<close>

record approval_state =
  approval_records :: "string \<rightharpoonup> approval"
  active_approval :: "string \<rightharpoonup> string"

definition no_approvals :: approval_state where
  "no_approvals = \<lparr>approval_records = Map.empty, active_approval = Map.empty\<rparr>"

definition purge_approvals :: "rat \<Rightarrow> approval_state \<Rightarrow> approval_state" where
  "purge_approvals now s =
     (let kept = (\<lambda>i. case approval_records s i of
            None \<Rightarrow> None
          | Some a \<Rightarrow> if now < of_int (expires_at a) then Some a else None)
      in \<lparr>approval_records = kept,
          active_approval = (\<lambda>r. case active_approval s r of
            None \<Rightarrow> None
          | Some i \<Rightarrow> if kept i = None then None else Some i)\<rparr>)"

definition put_approval :: "rat \<Rightarrow> approval \<Rightarrow> approval_state \<Rightarrow> approval_state" where
  "put_approval now a s =
     (let s = purge_approvals now s
      in \<lparr>approval_records = (approval_records s)(approval_id a \<mapsto> a),
          active_approval = (active_approval s)(resource_id a \<mapsto> approval_id a)\<rparr>)"

definition get_approval :: "string \<Rightarrow> approval_state \<Rightarrow> approval option" where
  "get_approval i s = approval_records s i"

definition approval_active :: "approval \<Rightarrow> approval_state \<Rightarrow> bool" where
  "approval_active a s \<longleftrightarrow> active_approval s (resource_id a) = Some (approval_id a)"

definition invalidate_approval :: "string \<Rightarrow> approval_state \<Rightarrow> approval_state" where
  "invalidate_approval r s = s\<lparr>active_approval := (active_approval s)(r := None)\<rparr>"

definition consume_approval :: "rat \<Rightarrow> approval \<Rightarrow> approval_state \<Rightarrow> bool \<times> approval_state" where
  "consume_approval now a s =
     (if of_int (expires_at a) \<le> now \<or> active_approval s (resource_id a) \<noteq> Some (approval_id a)
      then (False, s)
      else (True, s\<lparr>active_approval := (active_approval s)(resource_id a := None)\<rparr>))"

interpretation memory_approvals:
  approval_store no_approvals put_approval get_approval active_approval invalidate_approval consume_approval
  by unfold_locales
    (auto simp: no_approvals_def put_approval_def purge_approvals_def get_approval_def invalidate_approval_def
      consume_approval_def Let_def not_le split: option.splits if_splits)

section \<open>The store as an object\<close>

text \<open>What the service gets: an object with the five methods of the protocol.\<close>

record 'w approval_object =
  do_put :: "approval \<Rightarrow> ('w, unit) py"
  do_get :: "string \<Rightarrow> ('w, approval option) py"
  do_is_active :: "approval \<Rightarrow> ('w, bool) py"
  do_invalidate :: "string \<Rightarrow> ('w, unit) py"
  do_consume :: "approval \<Rightarrow> ('w, bool) py"

record approval_world = usage_world +
  approvals :: approval_state

definition memory_approval_store :: "'x approval_world_scheme approval_object" where
  \<comment> \<open>\<open>InMemoryApprovalStore\<close>; each method runs under the lock\<close>
  "memory_approval_store =
     \<lparr>do_put = (\<lambda>a. abind time_time (\<lambda>now w. (Inr (), w\<lparr>approvals := put_approval now a (approvals w)\<rparr>))),
      do_get = (\<lambda>i w. (Inr (get_approval i (approvals w)), w)),
      do_is_active = (\<lambda>a w. (Inr (approval_active a (approvals w)), w)),
      do_invalidate = (\<lambda>r w. (Inr (), w\<lparr>approvals := invalidate_approval r (approvals w)\<rparr>)),
      do_consume = (\<lambda>a. abind time_time (\<lambda>now w.
        case consume_approval now a (approvals w) of (ok, s) \<Rightarrow> (Inr ok, w\<lparr>approvals := s\<rparr>)))\<rparr>"

section \<open>The service\<close>

definition approve ::
  "(string \<Rightarrow> string) \<Rightarrow> 'x world_scheme approval_object \<Rightarrow> pyval \<Rightarrow> pyval \<Rightarrow> pyval \<Rightarrow> pyval \<Rightarrow>
   ('x world_scheme, approval) py" where
  "approve sha S resource vers payload expires =
     (case (resource, vers) of
        (PStr r, PStr v) \<Rightarrow>
          if r = [] \<or> v = [] then raise ValueError
          else (case expires of
            PInt e \<Rightarrow>
              abind time_time (\<lambda>now.
              if of_int e \<le> now then raise ValueError
              else
                abind generate_jti (\<lambda>i.
                abind (lift (request_digest sha payload)) (\<lambda>d.
                let a = \<lparr>approval_id = i, resource_id = r, revision = v, approved_digest = d, expires_at = e\<rparr>
                in abind (do_put S a) (\<lambda>_. ret a))))
          | _ \<Rightarrow> raise ValueError)
      | _ \<Rightarrow> raise ValueError)"

definition active_approval_of :: "'x world_scheme approval_object \<Rightarrow> string \<Rightarrow> ('x world_scheme, approval) py" where
  \<comment> \<open>\<open>_active\<close>; the three conditions are tested from left to right\<close>
  "active_approval_of S i =
     abind (do_get S i) (\<lambda>found.
     case found of
       None \<Rightarrow> raise (swarm PolicyViolationError)
     | Some a \<Rightarrow>
         abind time_time (\<lambda>now.
         if of_int (expires_at a) \<le> now then raise (swarm PolicyViolationError)
         else
           abind (do_is_active S a) (\<lambda>active.
           if active then ret a else raise (swarm PolicyViolationError))))"

definition issue_approved ::
  "ext_lib \<Rightarrow> 'x world_scheme approval_object \<Rightarrow> string \<Rightarrow> token_issuer \<Rightarrow> string \<Rightarrow> string \<Rightarrow> string list \<Rightarrow> pyval \<Rightarrow>
   ('x world_scheme, string) py" where
  \<comment> \<open>\<open>ApprovalService.issue\<close>\<close>
  "issue_approved L S i I issuer subject caps ttl_seconds =
     abind (active_approval_of S i) (\<lambda>a.
     abind time_time (\<lambda>now.
     abind (lift (py_greater ttl_seconds (expires_at a - py_int now))) (\<lambda>too_long.
     if too_long then raise (swarm PolicyViolationError)
     else
       abind (lift (make_constraints (no_constraints\<lparr>max_calls := Some 1, allowed_params := approval_pins a\<rparr>))) (\<lambda>limits.
       issuer_issue L I issuer subject caps (Some limits) ttl_seconds None))))"

record 'w approval_check =
  check_keys :: "bytes option \<times> key_registry option"
  check_store :: "'w revocation_check option"
  check_tracker :: "'w tracker"
  check_audience :: string
  check_capability_name :: string

definition approval_boundary :: "'w approval_check \<Rightarrow> 'w boundary" where
  \<comment> \<open>the arguments \<open>authorize\<close> passes to \<open>verify_and_check\<close>\<close>
  "approval_boundary C =
     \<lparr>issuer_public_key = fst (check_keys C), key_registry = snd (check_keys C), revocation_check = check_store C,
      audience = Some (check_audience C), required_capability = Some (check_capability_name C),
      tracker = Some (check_tracker C), on_decision = None\<rparr>"

definition current_request :: "string \<Rightarrow> pyval \<Rightarrow> pyval \<Rightarrow> string \<Rightarrow> params" where
  \<comment> \<open>\<open>current\<close>, the request as presented\<close>
  "current_request i resource vers d =
     [(''approval_id'', PStr i), (''resource_id'', resource), (''revision'', vers), (''request_digest'', PStr d)]"

definition authorize_approved ::
  "ext_lib \<Rightarrow> (string \<Rightarrow> string) \<Rightarrow> 'x world_scheme approval_object \<Rightarrow> 'x world_scheme approval_check \<Rightarrow>
   string \<Rightarrow> pyval \<Rightarrow> pyval \<Rightarrow> pyval \<Rightarrow> pyval \<Rightarrow> ('x world_scheme, capability_claims) py" where
  \<comment> \<open>\<open>ApprovalService.authorize\<close>\<close>
  "authorize_approved L sha S C i resource vers payload token =
     abind (active_approval_of S i) (\<lambda>a.
     abind (lift (request_digest sha payload)) (\<lambda>d.
     let current = current_request i resource vers d
     in if \<not> py_eq (PDict current) (PDict (approval_pins a)) then raise (swarm PolicyViolationError)
        else
          abind (verify_and_check L (approval_boundary C) PNone (Some current) token) (\<lambda>claims.
          abind (do_consume S a) (\<lambda>ok.
          if ok then ret claims else raise (swarm PolicyViolationError)))))"

lemma approval_pins_valid: "constraints_ok (no_constraints\<lparr>max_calls := Some 1, allowed_params := approval_pins a\<rparr>)"
  by (simp add: constraints_ok_def no_constraints_def count_limit_ok_def approval_pins_def budget_pins_def MAX_SAFE_INTEGER_def)

lemma current_request_eq:
  "py_eq (PDict (current_request i r v d)) (PDict (approval_pins a)) \<longleftrightarrow>
     i = approval_id a \<and> r = PStr (resource_id a) \<and> v = PStr (revision a) \<and> d = approved_digest a"
  by (auto simp: approval_pins_def current_request_def dict_keys_def)

lemma current_request_approved:
  "current_request (approval_id a) (PStr (resource_id a)) (PStr (revision a)) (approved_digest a) = approval_pins a"
  by (simp add: current_request_def approval_pins_def)

lemma memory_store_simps [simp]:
  "do_get memory_approval_store i w = (Inr (approval_records (approvals w) i), w)"
  "do_is_active memory_approval_store a w = (Inr (approval_active a (approvals w)), w)"
  "do_consume memory_approval_store a w =
     (let (ok, s) = consume_approval (clock w (ticks w)) a (approvals w)
      in (Inr ok, w\<lparr>ticks := Suc (ticks w), approvals := s\<rparr>))"
  "do_put memory_approval_store a w =
     (Inr (), w\<lparr>ticks := Suc (ticks w), approvals := put_approval (clock w (ticks w)) a (approvals w)\<rparr>)"
  by (simp_all add: memory_approval_store_def get_approval_def abind_run Let_def split: prod.split)

definition stands :: "string \<Rightarrow> approval \<Rightarrow> 'x approval_world_scheme \<Rightarrow> bool" where
  \<comment> \<open>the approval named \<open>i\<close> is \<open>a\<close>, unexpired and the active one of its resource\<close>
  "stands i a w \<longleftrightarrow>
     approval_records (approvals w) i = Some a \<and> clock w (ticks w) < of_int (expires_at a) \<and>
     active_approval (approvals w) (resource_id a) = Some (approval_id a)"

lemma active_approval_iff:
  "active_approval_of memory_approval_store i w = (Inr a, w') \<longleftrightarrow> stands i a w \<and> w' = w\<lparr>ticks := Suc (ticks w)\<rparr>"
  by (auto simp: active_approval_of_def stands_def approval_active_def py_inv not_le split: option.splits if_splits)

lemma digest_approved:
  "approve sha S resource vers payload expires w = (Inr a, w') \<Longrightarrow>
   resource = PStr (resource_id a) \<and> vers = PStr (revision a) \<and> expires = PInt (expires_at a) \<and>
   request_digest sha payload = Inr (approved_digest a)"
  by (auto simp: approve_def generate_jti_def py_inv Let_def split: pyval.splits if_splits)

definition approved_call ::
  "ext_lib \<Rightarrow> (string \<Rightarrow> string) \<Rightarrow> 'x approval_world_scheme approval_check \<Rightarrow> approval \<Rightarrow> string \<Rightarrow> pyval \<Rightarrow> pyval \<Rightarrow> pyval \<Rightarrow> pyval \<Rightarrow>
   capability_claims \<Rightarrow> 'x approval_world_scheme \<Rightarrow> 'x approval_world_scheme \<Rightarrow> bool" where
  \<comment> \<open>the specification of \<open>authorize\<close> on the in-memory store\<close>
  "approved_call L sha C a i resource vers payload token claims w w' \<longleftrightarrow>
     stands i a w \<and> i = approval_id a \<and> resource = PStr (resource_id a) \<and> vers = PStr (revision a) \<and>
     request_digest sha payload = Inr (approved_digest a) \<and>
     (\<exists>w1. verify_and_check L (approval_boundary C) PNone (Some (approval_pins a)) token (w\<lparr>ticks := Suc (ticks w)\<rparr>) = (Inr claims, w1) \<and>
        clock w1 (ticks w1) < of_int (expires_at a) \<and> active_approval (approvals w1) (resource_id a) = Some (approval_id a) \<and>
        w' = w1\<lparr>ticks := Suc (ticks w1), approvals := invalidate_approval (resource_id a) (approvals w1)\<rparr>)"

lemma authorize_approved_iff:
  "authorize_approved L sha memory_approval_store C i resource vers payload token w = (Inr claims, w') \<longleftrightarrow>
     (\<exists>a. approved_call L sha C a i resource vers payload token claims w w')"
proof -
  have consume: "do_consume memory_approval_store a v = (Inr True, v') \<longleftrightarrow>
      clock v (ticks v) < of_int (expires_at a) \<and> active_approval (approvals v) (resource_id a) = Some (approval_id a) \<and>
      v' = v\<lparr>ticks := Suc (ticks v), approvals := invalidate_approval (resource_id a) (approvals v)\<rparr>" for a v v'
    by (auto simp: consume_approval_def invalidate_approval_def Let_def not_le)
  show ?thesis
  proof
    assume "authorize_approved L sha memory_approval_store C i resource vers payload token w = (Inr claims, w')"
    then obtain a d w1 where "stands i a w" "request_digest sha payload = Inr d"
        "py_eq (PDict (current_request i resource vers d)) (PDict (approval_pins a))"
        "verify_and_check L (approval_boundary C) PNone (Some (current_request i resource vers d)) token (w\<lparr>ticks := Suc (ticks w)\<rparr>) =
           (Inr claims, w1)"
        "do_consume memory_approval_store a w1 = (Inr True, w')"
      unfolding authorize_approved_def
      by (auto simp: abind_eq_Inr active_approval_iff Let_def simp del: memory_store_simps py_eq.simps request_digest_iff split: if_splits)
    then show "\<exists>a. approved_call L sha C a i resource vers payload token claims w w'"
      unfolding approved_call_def current_request_eq consume by (intro exI [of _ a]) (auto simp: current_request_approved)
  next
    assume "\<exists>a. approved_call L sha C a i resource vers payload token claims w w'"
    then obtain a w1 where "stands i a w" "request_digest sha payload = Inr (approved_digest a)"
        "i = approval_id a \<and> resource = PStr (resource_id a) \<and> vers = PStr (revision a)"
        "verify_and_check L (approval_boundary C) PNone (Some (approval_pins a)) token (w\<lparr>ticks := Suc (ticks w)\<rparr>) = (Inr claims, w1)"
        "do_consume memory_approval_store a w1 = (Inr True, w')"
      unfolding approved_call_def consume by blast
    moreover from this have "active_approval_of memory_approval_store i w = (Inr a, w\<lparr>ticks := Suc (ticks w)\<rparr>)"
      by (simp add: active_approval_iff)
    ultimately show "authorize_approved L sha memory_approval_store C i resource vers payload token w = (Inr claims, w')"
      by (simp add: authorize_approved_def abind_def current_request_approved current_request_eq
          del: memory_store_simps py_eq.simps)
  qed
qed

section \<open>A token issued under an approval\<close>

lemma pins_readable: "limits_readable (no_constraints\<lparr>max_calls := Some 1, allowed_params := approval_pins a\<rparr>)"
  by (simp add: limits_readable_def no_constraints_def approval_pins_def)

lemma pins_determine:
  assumes "\<forall>pin \<in> set (sort_pins (approval_pins b)). pin_holds (approval_pins a) pin"
  shows "approval_pins b = approval_pins a"
proof -
  have holds: "pin_holds (approval_pins a) (k, PStr s)" if "(k, PStr s) \<in> set (approval_pins b)" for k s
    using assms that by (force simp: sort_pins_def)
  show ?thesis
    using holds [of "''approval_id''" "approval_id b"] holds [of "''resource_id''" "resource_id b"]
      holds [of "''revision''" "revision b"] holds [of "''request_digest''" "approved_digest b"]
    by (simp add: approval_pins_def pin_holds_def json_value_equal_iff)
qed

lemma issue_approved_iff:
  assumes "pydantic_ok L" "text_ok L"
  shows "issue_approved L memory_approval_store i I issuer subject caps (PInt ttl) w = (Inr token, w') \<longleftrightarrow>
    (\<exists>a. let limits = no_constraints\<lparr>max_calls := Some 1, allowed_params := approval_pins a\<rparr>;
            v = w\<lparr>ticks := Suc (Suc (ticks w))\<rparr>; c = issued_claims issuer subject caps limits ttl None v in
       stands i a w \<and> ttl \<le> expires_at a - py_int (clock w (Suc (ticks w))) \<and>
       issuer_check I issuer subject caps limits (PInt ttl) None = Inr () \<and>
       1 \<le> ttl \<and> ttl \<le> MAX_TTL_SECONDS \<and> claims_ok c \<and> token = token_of L (keypair I) c \<and>
       w' = v\<lparr>ticks := Suc (ticks v), draws := Suc (draws v)\<rparr>)"
proof -
  have resolved: "resolve_constraints (Some l) = l" for l by (simp add: resolve_constraints_def)
  show ?thesis
    unfolding issue_approved_def issuer_issue_def
    by (auto simp: py_inv active_approval_iff approval_pins_valid pins_readable resolved not_less Let_def
        issue_token_iff [OF assms, of "Some (no_constraints\<lparr>max_calls := Some 1, allowed_params := approval_pins a\<rparr>)" for a] split: if_splits)
qed

section \<open>A sample approval\<close>

definition sample_desk :: approval_world where
  "sample_desk =
     \<lparr>clock = (\<lambda>i. 100 + of_nat i), ticks = 0, entropy = (\<lambda>i. replicate (Suc i) CHR ''r''), draws = 0,
      current_token = None, revoked = Map.empty, usage = Map.empty, approvals = no_approvals\<rparr>"

definition sample_approval :: approval where
  "sample_approval =
     \<lparr>approval_id = b64url_encode ''r'', resource_id = ''doc'', revision = ''1'', approved_digest = json_text (PList []),
      expires_at = 130\<rparr>"

abbreviation sample_issuer :: token_issuer where
  "sample_issuer \<equiv> \<lparr>keypair = key_pair_of sample_lib ''sk'', policy = None\<rparr>"

definition sample_check :: "approval_world approval_check" where
  "sample_check =
     \<lparr>check_keys = (Some (sample_public ''sk''), None), check_store = None,
      check_tracker = \<lparr>record_one = (\<lambda>_ _. ret Plain), record_chain = None, requires_chain = False, supports_shared_budgets = False\<rparr>,
      check_audience = ''t'', check_capability_name = ''read:x''\<rparr>"

definition sample_desk1 :: approval_world where
  "sample_desk1 = sample_desk\<lparr>ticks := 2, draws := 1, approvals := put_approval 101 sample_approval no_approvals\<rparr>"

definition sample_desk2 :: approval_world where
  "sample_desk2 = sample_desk1\<lparr>ticks := 5, draws := 2\<rparr>"

abbreviation sample_pinned :: constraints where
  "sample_pinned \<equiv> no_constraints\<lparr>max_calls := Some 1, allowed_params := approval_pins sample_approval\<rparr>"

abbreviation sample_pinned_claims :: capability_claims where
  "sample_pinned_claims \<equiv> issued_claims ''a'' ''t'' [''read:*''] sample_pinned 10 None (sample_desk1\<lparr>ticks := 4\<rparr>)"

definition sample_pinned_token :: string where
  "sample_pinned_token = token_of sample_lib (key_pair_of sample_lib ''sk'') sample_pinned_claims"

lemma sample_desk_simps [simp]:
  "ticks sample_desk1 = 2" "draws sample_desk1 = 1" "clock sample_desk1 = (\<lambda>i. 100 + of_nat i)"
  "entropy sample_desk1 = (\<lambda>i. replicate (Suc i) CHR ''r'')" "approvals sample_desk2 = approvals sample_desk1"
  "ticks sample_desk2 = 5" "clock sample_desk2 = (\<lambda>i. 100 + of_nat i)"
  by (simp_all add: sample_desk1_def sample_desk2_def sample_desk_def)

lemma sample_pinned_ok: "claims_ok sample_pinned_claims"
proof -
  have "b64url_encode (replicate 2 CHR ''r'') \<noteq> []"
    using b64url_encode_inj [of "replicate 2 CHR ''r''" "[]"] by auto
  then show ?thesis by (simp add: claims_ok_def timestamp_ok_def MAX_SAFE_INTEGER_def numeral_eq_Suc)
qed

lemma sample_approve:
  "approve id memory_approval_store (PStr ''doc'') (PStr ''1'') (PList []) (PInt 130) sample_desk = (Inr sample_approval, sample_desk1)"
  by (simp add: approve_def generate_jti_def abind_run request_digest_def sample_desk_def sample_desk1_def
      sample_approval_def Let_def)

lemma sample_stands: "stands (approval_id sample_approval) sample_approval sample_desk1"
  "stands (approval_id sample_approval) sample_approval sample_desk2"
  by (simp_all add: stands_def sample_desk1_def sample_desk2_def sample_desk_def put_approval_def Let_def)
     (simp_all add: sample_approval_def)

lemma sample_issued_approved:
  "issue_approved sample_lib memory_approval_store (approval_id sample_approval) sample_issuer ''a'' ''t'' [''read:*''] (PInt 10) sample_desk1 =
     (Inr sample_pinned_token, sample_desk2)"
proof -
  have "expires_at sample_approval = 130" by (simp add: sample_approval_def)
  then show ?thesis
    using sample_stands(1) sample_pinned_ok unfolding issue_approved_iff [OF sample_lib_ok(2,3)]
    by (intro exI [of _ sample_approval])
       (simp add: Let_def issuer_check_def MAX_TTL_SECONDS_def sample_pinned_token_def sample_desk2_def numeral_eq_Suc)
qed

lemma sample_authorized:
  obtains claims w where
    "authorize_approved sample_lib id memory_approval_store sample_check (approval_id sample_approval)
       (PStr ''doc'') (PStr ''1'') (PList []) (PStr sample_pinned_token) sample_desk2 = (Inr claims, w)"
proof -
  let ?v = "sample_desk1\<lparr>ticks := 4\<rparr>" and ?w = "sample_desk2\<lparr>ticks := 6\<rparr>"
  have ok: "constraints_ok (resolve_constraints (Some sample_pinned))" "limits_readable (resolve_constraints (Some sample_pinned))"
    unfolding resolve_constraints_def option.case by (rule approval_pins_valid pins_readable)+
  have "issue_token sample_lib (key_pair_of sample_lib ''sk'') ''a'' ''t'' [''read:*''] (Some sample_pinned) (PInt 10) None ?v =
      (Inr sample_pinned_token, ?v\<lparr>ticks := 5, draws := 2\<rparr>)"
    unfolding issue_token_iff [OF sample_lib_ok(2,3) ok]
    using sample_pinned_ok by (simp add: resolve_constraints_def sample_pinned_token_def MAX_TTL_SECONDS_def)
  from issued_verifies [OF sample_lib_ok this sample_lib_shallow ok, where pk = "Some (sample_public ''sk'')" and R = None and leeway = 2
      and v = ?w and store = None and v' = "?w\<lparr>ticks := 7\<rparr>"]
  have "verify sample_lib (Some (sample_public ''sk'')) None None (Some ''t'') (PInt 2) sample_pinned_token ?w =
      (Inr (wire_form sample_pinned_claims), ?w\<lparr>ticks := 7\<rparr>)"
    by (simp add: trusts_def not_revoked_def MAX_LEEWAY_SECONDS_def sample_lib_def resolve_constraints_def)
  then have verified: "verify_value sample_lib (Some (sample_public ''sk'')) None None (Some ''t'') (PStr sample_pinned_token) ?w =
      (Inr (wire_form sample_pinned_claims), ?w\<lparr>ticks := 7\<rparr>)"
    by (simp add: verify_value_def DEFAULT_LEEWAY_def)
  let ?B = "approval_boundary sample_check" and ?c = "wire_form sample_pinned_claims"
  have "capability_covered ''read:x'' [''read:*'']" by code_simp
  then have "grants [''read:*''] ''read:x''" by (simp only: capability_covered_iff)
  moreover have pins: "pin_holds (approval_pins sample_approval) pin" if "pin \<in> set (sort_pins (approval_pins sample_approval))" for pin
    using that by (auto simp: sort_pins_def approval_pins_def pin_holds_def json_value_equal_iff)
  ultimately have "call_within ?B PNone (Some (approval_pins sample_approval)) ?c"
    unfolding call_within_def
    by (auto simp: approval_boundary_def sample_check_def wire_form_def no_constraints_def issued_claims_def)
  then have "check_claims sample_lib ?B PNone (Some (approval_pins sample_approval)) ?c (?w\<lparr>ticks := 7\<rparr>) = (Inr (), ?w\<lparr>ticks := 7\<rparr>)"
    unfolding check_claims_iff
    by (auto simp: approval_boundary_def sample_check_def parent_of_def truthy_def charged_to_def resolved_amount_def)
  with verified have "verify_and_check sample_lib ?B PNone (Some (approval_pins sample_approval)) (PStr sample_pinned_token) ?w =
      (Inr ?c, ?w\<lparr>ticks := 7\<rparr>)"
    unfolding verify_and_check_iff by (auto simp: approval_boundary_def sample_check_def notified_def)
  then have "\<exists>w. approved_call sample_lib id sample_check sample_approval (approval_id sample_approval)
      (PStr ''doc'') (PStr ''1'') (PList []) (PStr sample_pinned_token) ?c sample_desk2 w"
    using sample_stands(2) unfolding approved_call_def
    by (auto simp: sample_approval_def request_digest_def stands_def)
  then show thesis using that unfolding authorize_approved_iff by blast
qed

section \<open>Properties\<close>

text \<open>C27. The in-memory approval store refines the history of its calls. If an approval id names one approval, then after
  any operations at instants up to \<open>t\<close>, consuming an approval at \<open>t\<close> succeeds exactly when it has not expired and is the
  standing one of its resource: the last one put, neither invalidated nor used since. Forgetting expired
  records on the way never changes that.\<close>

theorem approval_history:
  assumes "inj_on approval_id A" "\<forall>(t, op) \<in> set ops. named op \<subseteq> A" "a \<in> A" "sorted (List.map fst ops @ [t])"
  shows "fst (consume_approval t a (memory_approvals.run ops no_approvals)) \<longleftrightarrow>
    t < of_int (expires_at a) \<and> standing ops (resource_id a) = Some a"
  by (rule memory_approvals.consume_standing [OF assms])

theorem approval_history_witness:
  "\<not> fst (consume_approval 103 sample_approval
     (memory_approvals.run [(101, PutApproval sample_approval), (102, Consume sample_approval)] no_approvals))"
proof -
  have "\<forall>(t, op) \<in> set [(101 :: rat, PutApproval sample_approval), (102, Consume sample_approval)]. named op \<subseteq> {sample_approval}"
    by simp
  from approval_history [OF _ this, of sample_approval 103] show ?thesis
    by (simp add: standing_def sample_approval_def)
qed

text \<open>C28. An approval is used at most once. However the operations of concurrent threads are ordered, and whatever the clock
  reads, the number of successful \<open>consume\<close> calls for an approval of a resource is at most the number of times it was put.\<close>

theorem approval_single_use:
  "length (filter (\<lambda>a. resource_id a = r \<and> approval_id a = i) (memory_approvals.consumed ops no_approvals))
    \<le> length (filter (\<lambda>a. resource_id a = r \<and> approval_id a = i) (puts ops))"
  by (rule memory_approvals.single_use)

text \<open>C29. The approval service authorizes exactly the approved call. \<open>authorize\<close> returns claims exactly when the named approval
  stands, the presented resource, revision and digest are those approved, verification of the token against these
  pins returned the claims, and the approval was still active and unexpired when it was then consumed.\<close>

theorem authorize_exact:
  "authorize_approved L sha memory_approval_store C i resource vers payload token w = (Inr claims, w') \<longleftrightarrow>
     (\<exists>a. approved_call L sha C a i resource vers payload token claims w w')"
  by (rule authorize_approved_iff)

text \<open>C30. Only the approved request is authorized. If \<open>approve\<close> returned an approval and a later \<open>authorize\<close> under its id
  returned claims while the store still holds it, then resource and revision are those approved, the payload is equal to
  the approved one as JSON (unless SHA-256 collides on the two), the approval had not expired, and the token is
  for the audience and grants the capability.\<close>

theorem approved_request_only:
  assumes "approve sha S resource vers payload expires w0 = (Inr a, w1)"
    and "authorize_approved L sha memory_approval_store C (approval_id a) resource' vers' payload' token w = (Inr claims, w')"
    and "approval_records (approvals w) (approval_id a) = Some a"
    and "json_readable payload" "json_readable payload'" "inj_on sha {json_text payload, json_text payload'}"
  shows "resource' = resource \<and> vers' = vers \<and> json_value_equal payload payload' \<and>
     clock w (ticks w) < of_int (expires_at a) \<and> grants (capabilities claims) (check_capability_name C) \<and>
     sub claims = check_audience C"
proof -
  note a = digest_approved [OF assms(1)]
  from assms(2) obtain b where "approved_call L sha C b (approval_id a) resource' vers' payload' token claims w w'"
    unfolding authorize_approved_iff by blast
  moreover from this have "b = a" using assms(3) by (auto simp: approved_call_def stands_def)
  ultimately obtain v where call: "stands (approval_id a) a w" "resource' = PStr (resource_id a)" "vers' = PStr (revision a)"
      "request_digest sha payload' = Inr (approved_digest a)"
      "verify_and_check L (approval_boundary C) PNone (Some (approval_pins a)) token (w\<lparr>ticks := Suc (ticks w)\<rparr>) = (Inr claims, v)"
    unfolding approved_call_def by blast
  have "json_value_equal payload payload'"
    using digest_equal_iff [of sha payload _ payload' _] a call(4) assms(4-6) by blast
  moreover from call(5) obtain t u where
      "accepts L (fst (check_keys C)) (snd (check_keys C)) (check_store C) (Some (check_audience C)) 2 t claims (w\<lparr>ticks := Suc (ticks w)\<rparr>) u"
      "call_within (approval_boundary C) PNone (Some (approval_pins a)) claims"
    unfolding verify_and_check_spec by (auto simp: approval_boundary_def)
  then have "grants (capabilities claims) (check_capability_name C)" "sub claims = check_audience C"
    by (auto simp: call_within_def approval_boundary_def accepts_def core_accepts_def)
  ultimately show ?thesis using a call(1-3) by (simp add: stands_def)
qed

theorem approved_request_only_witness:
  "\<exists>claims w. authorize_approved sample_lib id memory_approval_store sample_check (approval_id sample_approval)
       (PStr ''doc'') (PStr ''1'') (PList []) (PStr sample_pinned_token) sample_desk2 = (Inr claims, w) \<and>
     json_value_equal (PList []) (PList []) \<and> sub claims = ''t''"
proof -
  obtain claims w where run: "authorize_approved sample_lib id memory_approval_store sample_check (approval_id sample_approval)
       (PStr ''doc'') (PStr ''1'') (PList []) (PStr sample_pinned_token) sample_desk2 = (Inr claims, w)"
    by (rule sample_authorized)
  have "approval_records (approvals sample_desk2) (approval_id sample_approval) = Some sample_approval"
    using sample_stands(2) by (simp add: stands_def)
  from approved_request_only [OF sample_approve run this] run show ?thesis by (auto simp: sample_check_def)
qed

text \<open>C31. A token issued under an approval serves that approval only. If \<open>issue\<close> returned a token under one approval, then
  whatever \<open>authorize\<close> accepts it for is the request that was approved: same approval id, resource, revision and digest.\<close>

theorem issued_for_approval:
  assumes "pydantic_ok L" "text_ok L"
    and "issue_approved L memory_approval_store j I issuer subject caps (PInt ttl) v = (Inr token, v')"
    and "authorize_approved L sha memory_approval_store C i resource vers payload (PStr token) w = (Inr claims, w')"
  shows "\<exists>b. stands j b v \<and> i = approval_id b \<and> resource = PStr (resource_id b) \<and> vers = PStr (revision b) \<and>
     request_digest sha payload = Inr (approved_digest b)"
proof -
  let ?c = "\<lambda>b. issued_claims issuer subject caps (no_constraints\<lparr>max_calls := Some 1, allowed_params := approval_pins b\<rparr>) ttl None
      (v\<lparr>ticks := Suc (Suc (ticks v))\<rparr>)"
  from assms(3) [unfolded issue_approved_iff [OF assms(1,2)] Let_def]
  obtain b where b: "stands j b v" and token: "token = token_of L (keypair I) (?c b)" "claims_ok (?c b)" by blast
  from assms(4) obtain a w1 where a: "i = approval_id a" "resource = PStr (resource_id a)" "vers = PStr (revision a)"
      "request_digest sha payload = Inr (approved_digest a)"
      "verify_and_check L (approval_boundary C) PNone (Some (approval_pins a)) (PStr token) (w\<lparr>ticks := Suc (ticks w)\<rparr>) = (Inr claims, w1)"
    unfolding authorize_approved_iff approved_call_def by blast
  from a(5) have parsed: "\<exists>h m. parse L token = Inr (h, claims, m)" and within: "call_within (approval_boundary C) PNone (Some (approval_pins a)) claims"
    unfolding verify_and_check_spec using accepts_parse by blast+
  have "claims = wire_form (?c b)"
    using parsed sign_parse(2) [OF assms(1,2) token(2), of "keypair I"] approval_pins_valid [of b] pins_readable [of b] token(1)
    by (auto simp: issued_claims_def split: if_splits)
  then have "allowed_params (constraints claims) = sort_pins (approval_pins b)"
    by (simp add: wire_form_def issued_claims_def)
  with within have "approval_pins b = approval_pins a"
    by (intro pins_determine) (auto simp: call_within_def)
  with a b show ?thesis by (auto simp: approval_pins_def)
qed

theorem issued_for_approval_witness:
  "\<exists>b. stands (approval_id sample_approval) b sample_desk1 \<and> approval_id sample_approval = approval_id b \<and> PStr ''doc'' = PStr (resource_id b)"
proof -
  obtain claims w where "authorize_approved sample_lib id memory_approval_store sample_check (approval_id sample_approval)
       (PStr ''doc'') (PStr ''1'') (PList []) (PStr sample_pinned_token) sample_desk2 = (Inr claims, w)"
    by (rule sample_authorized)
  from issued_for_approval [OF sample_lib_ok(2,3) sample_issued_approved this] show ?thesis by blast
qed

end
