(* ===== verification/RedisApprovals.thy ===== *)
theory RedisApprovals
  imports Approvals Redis
begin

text \<open>
  \<open>RedisApprovalStore\<close> of \<open>swarmauth/approvals.py\<close> as programs of the Redis model. The record of an approval and the
  marker of the active approval of a resource are two keys, written in one transaction; consuming an approval
  watches the marker, compares it and deletes it, at most 64 times. The names under the keys are SHA-256 digests (\<open>sha\<close>).
\<close>

section \<open>The store\<close>

record approval_config =
  approval_prefix :: string

definition make_redis_approval_store :: "string \<Rightarrow> approval_config" where
  "make_redis_approval_store pre = \<lparr>approval_prefix = pre\<rparr>"

definition approval_key :: "(string \<Rightarrow> string) \<Rightarrow> approval_config \<Rightarrow> string \<Rightarrow> string \<Rightarrow> string" where
  \<comment> \<open>\<open>_key\<close>\<close>
  "approval_key sha C kind v = approval_prefix C @ kind @ '':'' @ sha v"

definition approval_fields :: "approval \<Rightarrow> params" where
  \<comment> \<open>\<open>asdict(approval)\<close>\<close>
  "approval_fields a =
     [(''id'', PStr (approval_id a)), (''resource_id'', PStr (resource_id a)), (''revision'', PStr (revision a)),
      (''request_digest'', PStr (approved_digest a)), (''expires_at'', PInt (expires_at a))]"

definition spaced_member :: "string \<times> string \<Rightarrow> string" where
  "spaced_member m = json_string (fst m) @ '': '' @ snd m"

definition approval_text :: "approval \<Rightarrow> string" where
  \<comment> \<open>\<open>json.dumps(\<dots>)\<close> with its default separators\<close>
  "approval_text a =
     ''{'' @ join_with '', '' (List.map (\<lambda>(k, v). spaced_member (k, json_text v)) (approval_fields a)) @ ''}''"

definition approval_of :: "pyval \<Rightarrow> approval result" where
  \<comment> \<open>\<open>Approval(**d)\<close>; fields of another type, which the class does not check, are refused here\<close>
  "approval_of v =
     (case v of
        PDict d \<Rightarrow>
          if set (dict_keys d) = {''id'', ''resource_id'', ''revision'', ''request_digest'', ''expires_at''}
          then (case (dict_get d ''id'', dict_get d ''resource_id'', dict_get d ''revision'', dict_get d ''request_digest'',
                      dict_get d ''expires_at'') of
                  (PStr i, PStr r, PStr v, PStr g, PInt e) \<Rightarrow>
                    Inr \<lparr>approval_id = i, resource_id = r, revision = v, approved_digest = g, expires_at = e\<rparr>
                | _ \<Rightarrow> Inl (OtherError ''approval''))
          else Inl TypeError
      | _ \<Rightarrow> Inl TypeError)"

definition load_approval :: "answer \<Rightarrow> approval option result" where
  \<comment> \<open>\<open>Approval(**json.loads(raw)) if raw else None\<close>\<close>
  "load_approval a =
     (case a of
        AText None \<Rightarrow> Inr None
      | AText (Some raw) \<Rightarrow>
          if raw = [] then Inr None
          else (case json_loads raw of None \<Rightarrow> Inl ValueError | Some v \<Rightarrow> rbind (approval_of v) (\<lambda>x. Inr (Some x)))
      | _ \<Rightarrow> Inl (OtherError ''ResponseError''))"

definition current_id :: "answer \<Rightarrow> string option result" where
  "current_id a = (case a of AText x \<Rightarrow> Inr x | _ \<Rightarrow> Inl (OtherError ''ResponseError''))"

datatype approval_reply = Done | Found "approval option" | Active bool | Verdict bool

definition redis_put :: "(string \<Rightarrow> string) \<Rightarrow> approval_config \<Rightarrow> approval \<Rightarrow> approval_reply prog" where
  "redis_put sha C a =
     Now (\<lambda>now.
       let ttl = max 1 (expires_at a - py_int now)
       in Exec [SetEx (approval_key sha C ''record'' (approval_id a)) (approval_text a) ttl,
                SetEx (approval_key sha C ''resource'' (resource_id a)) (approval_id a) ttl]
            (\<lambda>ok. Return (if ok then Inr Done else Inl (OtherError ''WatchError''))))"

definition redis_get :: "(string \<Rightarrow> string) \<Rightarrow> approval_config \<Rightarrow> string \<Rightarrow> approval_reply prog" where
  "redis_get sha C i =
     Query (QGet (approval_key sha C ''record'' i)) (\<lambda>x. from_result (load_approval x) (\<lambda>a. Return (Inr (Found a))))"

definition redis_is_active :: "(string \<Rightarrow> string) \<Rightarrow> approval_config \<Rightarrow> approval \<Rightarrow> approval_reply prog" where
  "redis_is_active sha C a =
     Query (QGet (approval_key sha C ''resource'' (resource_id a))) (\<lambda>x. from_result (current_id x) (\<lambda>current.
       Return (Inr (Active (current = Some (approval_id a))))))"

definition redis_invalidate :: "(string \<Rightarrow> string) \<Rightarrow> approval_config \<Rightarrow> string \<Rightarrow> approval_reply prog" where
  \<comment> \<open>a command outside \<open>MULTI\<close> is a transaction of its own\<close>
  "redis_invalidate sha C r =
     Exec [Delete (approval_key sha C ''resource'' r)]
       (\<lambda>ok. Return (if ok then Inr Done else Inl (OtherError ''WatchError'')))"

fun consume_attempts ::
  "nat \<Rightarrow> (string \<Rightarrow> string) \<Rightarrow> approval_config \<Rightarrow> approval \<Rightarrow> approval_reply prog" where
  "consume_attempts 0 sha C a = Return (Inl (swarm PolicyViolationError))"
| "consume_attempts (Suc n) sha C a =
     (let key = approval_key sha C ''resource'' (resource_id a)
      in Watch [key]
           (Query (QGet key) (\<lambda>x. from_result (current_id x) (\<lambda>current.
            if current \<noteq> Some (approval_id a) then Return (Inr (Verdict False))
            else Now (\<lambda>now.
              if of_int (expires_at a) \<le> now then Return (Inr (Verdict False))
              else Exec [Delete key]
                (\<lambda>ok. if ok then Return (Inr (Verdict True)) else consume_attempts n sha C a))))))"

definition redis_consume :: "(string \<Rightarrow> string) \<Rightarrow> approval_config \<Rightarrow> approval \<Rightarrow> approval_reply prog" where
  "redis_consume sha C a = consume_attempts 64 sha C a"

datatype approval_call =
    CallPut approval | CallGet string | CallActive approval | CallInvalidate string | CallConsume approval

fun redis_approvals :: "(string \<Rightarrow> string) \<Rightarrow> approval_config \<Rightarrow> approval_call \<Rightarrow> approval_reply prog" where
  "redis_approvals sha C (CallPut a) = redis_put sha C a"
| "redis_approvals sha C (CallGet i) = redis_get sha C i"
| "redis_approvals sha C (CallActive a) = redis_is_active sha C a"
| "redis_approvals sha C (CallInvalidate r) = redis_invalidate sha C r"
| "redis_approvals sha C (CallConsume a) = redis_consume sha C a"

section \<open>What the calls commit\<close>

fun approval_spec ::
  "(string \<Rightarrow> string) \<Rightarrow> approval_config \<Rightarrow> approval_call \<Rightarrow> string list \<Rightarrow> database \<Rightarrow> rat \<Rightarrow> rat \<Rightarrow> command list \<Rightarrow> bool" where
  "approval_spec sha C (CallPut a) ks D t u cmds =
     (\<exists>ttl. 1 \<le> ttl \<and> cmds = [SetEx (approval_key sha C ''record'' (approval_id a)) (approval_text a) ttl,
        SetEx (approval_key sha C ''resource'' (resource_id a)) (approval_id a) ttl])"
| "approval_spec sha C (CallInvalidate r) ks D t u cmds = (cmds = [Delete (approval_key sha C ''resource'' r)])"
| "approval_spec sha C (CallConsume a) ks D t u cmds =
     (let key = approval_key sha C ''resource'' (resource_id a)
      in ks = [key] \<and> visible t D key = Some (Text (approval_id a)) \<and> u < of_int (expires_at a) \<and> cmds = [Delete key])"
| "approval_spec sha C r ks D t u cmds = False"

lemma approval_key_kinds [simp]:
  "approval_key sha C ''record'' x \<noteq> approval_key sha C ''resource'' y"
  "approval_key sha C ''resource'' y \<noteq> approval_key sha C ''record'' x"
  by (simp_all add: approval_key_def)

lemma approval_key_eq [simp]: "approval_key sha C k x = approval_key sha C k y \<longleftrightarrow> sha x = sha y"
  by (simp add: approval_key_def)

lemma text_answer: "answers t D (QGet k) (AText (Some v)) \<Longrightarrow> visible t D k = Some (Text v)"
  by (auto split: option.splits stored.splits)

lemma consume_attempts_waits [simp]: "commits_only Q W w D t u (consume_attempts n sha C a)"
  by (cases n) (simp_all add: Let_def)

lemma consume_attempts_segments:
  "each_segment (\<lambda>ks p. \<forall>D t u. commits_only (approval_spec sha C (CallConsume a) ks D) (set ks) t D t u p)
     (consume_attempts n sha C a)"
proof (induction n)
  case (Suc n)
  let ?key = "approval_key sha C ''resource'' (resource_id a)"
  have "visible t' D ?key = Some (Text (approval_id a))"
    if "t \<le> v" "answers v D (QGet ?key) (AText (Some (approval_id a)))" "v \<le> t'" "\<not> lapsed t' D ({?key} \<times> {t})" for t v t' D
    using visible_between [OF that(4), of ?key v t'] text_answer [OF that(2)] that by simp
  with Suc show ?case
    by (auto simp: current_id_def from_result_def Let_def simp del: answers.simps split: answer.split)
qed simp

interpretation approval_db: optimistic "redis_approvals sha C" UNIV "approval_spec sha C" "\<lambda>t D. True"
  for sha C
proof unfold_locales
  fix r
  show "each_segment (\<lambda>ks p. \<forall>D t u. True \<longrightarrow> commits_only (approval_spec sha C r ks D) (set ks) t D t u p)
    (Watch [] (redis_approvals sha C r))"
    using consume_attempts_segments
    by (cases r) (auto simp: redis_put_def redis_get_def redis_is_active_def redis_invalidate_def redis_consume_def Let_def)
next
  fix ks D D' r t u cmds
  assume "\<And>k. k \<in> set ks \<Longrightarrow> D k = D' k" "approval_spec sha C r ks D t u cmds"
  then show "approval_spec sha C r ks D' t u cmds"
    using visible_cong [of D _ D'] by (cases r) (auto simp: Let_def)
next
  fix t D r ks u cmds
  assume "approval_spec sha C r ks D t u cmds"
  then show "all_fit t cmds D" by (cases r) (auto simp: Let_def)
qed simp_all

section \<open>Uses and puts\<close>

fun verdict :: "approval_reply \<Rightarrow> bool" where
  "verdict (Verdict b) = b"
| "verdict _ = False"

fun uses_approval :: "(string \<Rightarrow> string) \<Rightarrow> string \<Rightarrow> string \<Rightarrow> approval_call \<Rightarrow> bool" where
  \<comment> \<open>a call that consumes the approval \<open>i\<close> of a resource with the digest \<open>k\<close>\<close>
  "uses_approval sha k i (CallConsume a) = (sha (resource_id a) = k \<and> approval_id a = i)"
| "uses_approval sha k i _ = False"

fun puts_approval :: "(string \<Rightarrow> string) \<Rightarrow> string \<Rightarrow> string \<Rightarrow> approval_call \<Rightarrow> bool" where
  "puts_approval sha k i (CallPut a) = (sha (resource_id a) = k \<and> approval_id a = i)"
| "puts_approval sha k i _ = False"

definition marked :: "(string \<Rightarrow> string) \<Rightarrow> approval_config \<Rightarrow> string \<Rightarrow> string \<Rightarrow> database \<Rightarrow> bool" where
  "marked sha C k i D \<longleftrightarrow> (\<exists>d. D (approval_prefix C @ ''resource:'' @ k) = Some (Text i, d))"

lemma marker_key: "approval_key sha C ''resource'' r = approval_prefix C @ ''resource:'' @ sha r"
  by (simp add: approval_key_def)

lemma commits_balanced:
  assumes "redis_ok R" "sys_run R (redis_approvals sha C) UNIV cs s"
  shows "length (filter (\<lambda>(u, q, cmds). uses_approval sha k i q) cs) + of_bool (marked sha C k i (data R (server s)))
    \<le> length (filter (\<lambda>(u, q, cmds). puts_approval sha k i q) cs)"
proof (rule approval_db.run_invariant [OF assms])
  fix t D r ks u cmds and cs :: "approval_call commit list"
  let ?U = "\<lambda>cs. length (filter (\<lambda>(u, q, cmds). uses_approval sha k i q) cs)"
    and ?P = "\<lambda>cs. length (filter (\<lambda>(u, q, cmds). puts_approval sha k i q) cs)"
  assume before: "?U cs + of_bool (marked sha C k i D) \<le> ?P cs" and spec: "approval_spec sha C r ks D t u cmds"
  show "?U (cs @ [(u, r, cmds)]) + of_bool (marked sha C k i (apply_all t cmds D)) \<le> ?P (cs @ [(u, r, cmds)])"
  proof (cases r)
    case (CallPut a)
    with spec obtain ttl where cmds: "cmds = [SetEx (approval_key sha C ''record'' (approval_id a)) (approval_text a) ttl,
        SetEx (approval_key sha C ''resource'' (resource_id a)) (approval_id a) ttl]" by auto
    have "marked sha C k i (apply_all t cmds D) \<longleftrightarrow>
        (if sha (resource_id a) = k then approval_id a = i else marked sha C k i D)"
      by (auto simp: cmds marked_def apply_all_def approval_key_def)
    with before show ?thesis by (auto simp: CallPut split: if_splits)
  next
    case (CallInvalidate r')
    have "marked sha C k i (apply_all t cmds D) \<Longrightarrow> marked sha C k i D"
      using spec by (auto simp: CallInvalidate marked_def apply_all_def split: if_splits)
    with before show ?thesis by (auto simp: CallInvalidate of_bool_def split: if_splits)
  next
    case (CallConsume a)
    let ?key = "approval_key sha C ''resource'' (resource_id a)"
    have c: "visible t D ?key = Some (Text (approval_id a))" "cmds = [Delete ?key]"
      using spec by (simp_all add: CallConsume Let_def)
    then obtain d where "D ?key = Some (Text (approval_id a), d)"
      by (auto simp: visible_def split: option.splits if_splits)
    then have "uses_approval sha k i r \<Longrightarrow> marked sha C k i D \<and> \<not> marked sha C k i (apply_all t cmds D)"
        "marked sha C k i (apply_all t cmds D) \<Longrightarrow> marked sha C k i D"
      by (auto simp: CallConsume marked_def marker_key c(2) apply_all_def split: if_splits)
    with before show ?thesis by (auto simp: CallConsume of_bool_def split: if_splits)
  qed (use spec before in simp_all)
qed (simp_all add: marked_def)

lemma pays_consume: "pays verdict False (consume_attempts n sha C a)"
  by (induction n) (auto simp: Let_def)

lemma redis_approvals_pay: "pays verdict False (redis_approvals sha C r)"
  by (cases r)
    (auto simp: redis_put_def redis_get_def redis_is_active_def redis_invalidate_def redis_consume_def Let_def pays_consume)

section \<open>A record is read back\<close>

lemma skip_space [simp]: "skip_ws (CHR '' '' # s) = skip_ws s"
  by (simp add: skip_ws_def is_ws_def)

lemma spaced_head: "skip_ws (join_with '', '' (List.map spaced_member (m # ms)) @ r) = join_with '', '' (List.map spaced_member (m # ms)) @ r"
  by (cases ms) (simp_all add: spaced_member_def json_string_def)

lemma scan_spaced_members:
  assumes "list_all2 (\<lambda>(k, s) (k', v). k = k' \<and> reads_as s v) ms kvs" "ms \<noteq> []"
  shows "scan_members (join_with '', '' (List.map spaced_member ms) @ CHR ''}'' # r) = Some (kvs, r)"
  using assms
proof (induction ms arbitrary: kvs rule: induct_list012)
  case (2 m)
  then show ?case
    by (cases m) (auto simp: list_all2_Cons1 scan_members.simps spaced_member_def json_string_def
        scan_json_string reads_as_scan)
next
  case (3 m m' ms)
  then obtain k s v kvs' where m: "m = (k, s)" "kvs = (k, v) # kvs'" "reads_as s v"
    "list_all2 (\<lambda>(k, s) (k', v). k = k' \<and> reads_as s v) (m' # ms) kvs'"
    by (cases m) (auto simp: list_all2_Cons1)
  define t where "t = join_with '', '' (List.map spaced_member (m' # ms)) @ CHR ''}'' # r"
  have "skip_ws t = t" unfolding t_def by (rule spaced_head)
  moreover have "scan_members t = Some (kvs', r)"
    unfolding t_def by (rule "3.IH"(2) [OF m(4)]) simp
  moreover have "join_with '', '' (List.map spaced_member (m # m' # ms)) @ CHR ''}'' # r =
      quote # (concat (List.map json_escape k) @ quote # CHR '':'' # CHR '' '' # s @ CHR '','' # CHR '' '' # t)"
    by (simp add: t_def m(1) spaced_member_def json_string_def)
  ultimately show ?case
    by (simp add: scan_members.simps [of "quote # _"] scan_json_string reads_as_scan [OF m(3)] m(2))
qed simp

lemma load_approval_text:
  assumes "int_readable (expires_at a)"
  shows "load_approval (AText (Some (approval_text a))) = Inr (Some a)"
proof -
  define ms where "ms = List.map (\<lambda>(k, v). (k, json_text v)) (approval_fields a)"
  have fields: "list_all2 (\<lambda>(k, s) (k', v). k = k' \<and> reads_as s v) ms (approval_fields a)"
    using assms json_text_reads [of "PInt (expires_at a)"] reads_as_string by (simp add: approval_fields_def ms_def)
  have whole: "approval_text a = ''{'' @ join_with '', '' (List.map spaced_member ms) @ ''}''"
    by (simp add: approval_text_def approval_fields_def ms_def)
  have "ms \<noteq> []" by (simp add: approval_fields_def ms_def)
  from scan_spaced_members [OF fields this, of "[]"]
  have scan: "scan_members (join_with '', '' (List.map spaced_member ms) @ ''}'') = Some (approval_fields a, [])" .
  obtain t where t: "join_with '', '' (List.map spaced_member ms) = quote # t"
    by (simp add: approval_fields_def ms_def spaced_member_def json_string_def)
  have "fold (\<lambda>(k, v). AList.update k v) (approval_fields a) [] = approval_fields a"
    using fold_update_distinct [of "[]" "approval_fields a"] by (simp add: approval_fields_def)
  with scan have "scan_value (approval_text a) = Some (PDict (approval_fields a), [])"
    unfolding whole t by (simp add: scan_value.simps [of "CHR ''{'' # _"] skip_ws_start quote_def value_start_def is_ws_def)
  moreover have "skip_ws (approval_text a) = approval_text a"
    by (simp add: approval_text_def skip_ws_def is_ws_def)
  ultimately have "json_loads (approval_text a) = Some (PDict (approval_fields a))"
    by (simp add: json_loads_def skip_ws_def)
  then show ?thesis
    by (simp add: load_approval_def approval_text_def approval_of_def)
       (simp add: approval_fields_def dict_keys_def dict_get_def)
qed

section \<open>Bounded calls\<close>

definition consume_outcome :: "exc + approval_reply \<Rightarrow> bool" where
  "consume_outcome x \<longleftrightarrow>
     x \<in> {Inr (Verdict True), Inr (Verdict False), Inl (swarm PolicyViolationError), Inl (OtherError ''ResponseError'')}"

lemma consume_attempts_end: "ends_within consume_outcome (consume_attempts n sha C a) (4 * n)"
proof (induction n)
  case (Suc n)
  then show ?case
    by (auto simp: Let_def current_id_def from_result_def consume_outcome_def numeral_eq_Suc split: answer.split)
qed (simp add: consume_outcome_def)

section \<open>A sample run\<close>

abbreviation sample_shelf :: approval_config where
  "sample_shelf \<equiv> make_redis_approval_store ''approval:''"

abbreviation sample_hall :: "(plain_server, approval_call, approval_reply) system" where
  "sample_hall \<equiv> plain_start 101"

lemma sample_used:
  obtains cs s where "sys_run plain_redis (redis_approvals id sample_shelf) UNIV cs s"
    "finished s = [(CallConsume sample_approval, Inr (Verdict True)), (CallPut sample_approval, Inr Done)]"
proof -
  have "binary64_number 101" unfolding binary64_number_def by code_simp
  then have "sys_run plain_redis (redis_approvals id sample_shelf) UNIV [] sample_hall"
    by (intro plain_start_run) simp_all
  moreover have "procs sample_hall 0 = None" by (simp add: plain_start_def)
  ultimately have start: "sys_run plain_redis (redis_approvals id sample_shelf) UNIV [] sample_hall" "procs sample_hall 0 = None" .
  let ?p = "redis_approvals id sample_shelf"
  obtain x S cs where put: "alone plain_redis (time sample_hall) 0 [] (CallPut sample_approval) (?p (CallPut sample_approval)) 0
      (server sample_hall) = (x, S, cs)" by (metis prod.exhaust)
  have "expires_at sample_approval = 130" "py_int 101 = 101" by (simp_all add: sample_approval_def)
  with put have x: "x = Inr Done"
    and S: "fst S (approval_key id sample_shelf ''resource'' (resource_id sample_approval)) = Some (Text (approval_id sample_approval), Some 130)"
      "fst (snd S) 0 = {}" "\<not> snd (snd S) 0"
    by (auto simp: plain_start_def redis_put_def plain_redis_def lapsed_def apply_all_def)
  let ?s = "sample_hall\<lparr>server := S, finished := (CallPut sample_approval, x) # finished sample_hall\<rparr>"
  note one = alone_run [OF start UNIV_I put]
  obtain y T cs' where use: "alone plain_redis (time ?s) 0 [] (CallConsume sample_approval) (?p (CallConsume sample_approval)) 0
      (server ?s) = (y, T, cs')" by (metis prod.exhaust)
  obtain D W d where "S = (D, W, d)" by (cases S)
  with S have D: "S = (D, W, d)" "D (approval_key id sample_shelf ''resource'' (resource_id sample_approval)) =
      Some (Text (approval_id sample_approval), Some 130)" "W 0 = {}" "\<not> d 0" by simp_all
  define n :: nat where "n = 63"
  then have once: "redis_consume id sample_shelf sample_approval = consume_attempts (Suc n) id sample_shelf sample_approval"
    by (simp add: redis_consume_def)
  have "y = Inr (Verdict True)"
    using use \<open>expires_at sample_approval = 130\<close>
    by (simp add: once Let_def D plain_start_def plain_redis_def current_id_def visible_def lapsed_def split: prod.splits)
  then show thesis
    by (intro that [OF alone_run [OF one _ UNIV_I use]]) (simp_all add: plain_start_def x)
qed

section \<open>Properties\<close>

text \<open>C32. An approval in Redis is used at most once. Any number of processes put, invalidate and consume approvals on one server,
  interleaved at every command and clock reading; whatever happens, the calls that consumed an approval of a resource and
  returned True are no more than the transactions that put it, so an approval put once is consumed once.\<close>

theorem redis_approval_single_use:
  assumes "redis_ok R" "sys_run R (redis_approvals sha C) UNIV cs s"
  shows "length (filter (\<lambda>(q, x). uses_approval sha (sha r) i q \<and> x = Inr (Verdict True)) (finished s))
    \<le> length (filter (\<lambda>(u, q, cmds). puts_approval sha (sha r) i q) cs)"
proof -
  have "(\<exists>y. x = Inr y \<and> verdict y) \<longleftrightarrow> x = Inr (Verdict True)" for x :: "exc + approval_reply"
    by (auto elim: verdict.elims)
  with returns_paid [OF assms(2) redis_approvals_pay, of "uses_approval sha (sha r) i"] commits_balanced [OF assms, of "sha r" i]
  show ?thesis by simp
qed

theorem redis_approval_single_use_witness:
  "\<exists>cs :: approval_call commit list. 1 \<le> length (filter (\<lambda>(u, q, cmds). puts_approval id ''doc'' (approval_id sample_approval) q) cs)"
proof -
  obtain cs s where s: "sys_run plain_redis (redis_approvals id sample_shelf) UNIV cs s"
    "finished s = [(CallConsume sample_approval, Inr (Verdict True)), (CallPut sample_approval, Inr Done)]"
    by (rule sample_used)
  from redis_approval_single_use [OF plain_redis_ok s(1), of "''doc''" "approval_id sample_approval"] s(2)
  show ?thesis by (intro exI [of _ cs]) (simp add: sample_approval_def)
qed

text \<open>C33. A record written to Redis is read back: decoding the text under an approval's key gives the approval,
  field by field, for every expiry within the interpreter's limit on decimal digits.\<close>

theorem redis_approval_round_trip:
  assumes "int_readable (expires_at a)"
  shows "load_approval (AText (Some (approval_text a))) = Inr (Some a)"
  by (rule load_approval_text [OF assms])

theorem redis_approval_round_trip_witness:
  "load_approval (AText (Some (approval_text sample_approval))) = Inr (Some sample_approval)"
proof -
  have "int_readable (expires_at sample_approval)"
    by (rule int_readable_safe) (simp add: sample_approval_def MAX_SAFE_INTEGER_def)
  then show ?thesis by (rule redis_approval_round_trip)
qed

text \<open>C34. Consuming an approval ends. Whatever the other processes do and whatever the server answers, the call returns after at
  most 256 commands and clock readings of its own (64 attempts of 4), with a verdict, with
  \<open>PolicyViolationError\<close> when every attempt was disturbed, or with the server's error.\<close>

theorem redis_consume_ends: "ends_within consume_outcome (redis_consume sha C a) 256"
  using consume_attempts_end [of 64] by (simp add: redis_consume_def)

end
