(* ===== verification/Asyncio.thy ===== *)
theory Asyncio
  imports Approvals Budgets
begin

text \<open>
  \<open>swarmauth/asyncio.py\<close> and \<open>AsyncUsageTracker\<close>: the execution boundary for asynchronous tools. A collaborator may
  answer at once or with an awaitable; awaiting it is an action on the world, which may be changed by other tasks
  before the answer comes, so a collaborator's action includes whatever they do meanwhile.

  The synchronous \<open>verify_and_check\<close> runs first, with a tracker that only captures the chain and the amount
  (\<open>_Reservation\<close>); revocation, reservation and the decision callback are awaited after it.
\<close>

section \<open>Awaitables\<close>

datatype ('w, 'a) awaited = Ready 'a | Awaits "('w, 'a) py"

definition resolve :: "('w, ('w, 'a) awaited) py \<Rightarrow> ('w, 'a) py" where
  \<comment> \<open>\<open>await _resolve(call)\<close>\<close>
  "resolve m = abind m (\<lambda>r. case r of Ready x \<Rightarrow> ret x | Awaits m \<Rightarrow> m)"

section \<open>Collaborators\<close>

record 'w async_tracker =
  await_one :: "capability_claims \<Rightarrow> pyval \<Rightarrow> ('w, ('w, unit) awaited) py"
  await_chain :: "(capability_claims list \<Rightarrow> pyval \<Rightarrow> ('w, ('w, unit) awaited) py) option"
  await_requires_chain :: bool
  await_shared_budgets :: bool

record 'w async_options =
  async_keys :: "bytes option \<times> key_registry option"
  async_audience :: "string option"
  async_capability :: "string option"
  async_store :: "(string \<Rightarrow> ('w, ('w, bool) awaited) py) option"
  async_tracker_of :: "'w async_tracker option"
  async_callback :: "(authorization_event \<Rightarrow> ('w, ('w, unit) awaited) py) option"

definition async_usage_tracker :: "'w tracker \<Rightarrow> 'w async_tracker" where
  \<comment> \<open>\<open>AsyncUsageTracker\<close> of \<open>budgets.py\<close>: the inner tracker runs in a worker thread, its return value is dropped\<close>
  "async_usage_tracker T =
     \<lparr>await_one = (\<lambda>claims amount. ret (Awaits (abind (record_one T claims amount) (\<lambda>_. ret ())))),
      await_chain = Some (\<lambda>chain amount. ret (Awaits (case record_chain T of
          None \<Rightarrow> raise budget_violation
        | Some f \<Rightarrow> abind (f chain amount) (\<lambda>_. ret ())))),
      await_requires_chain = requires_chain T, await_shared_budgets = supports_shared_budgets T\<rparr>"

section \<open>The reservation\<close>

record task_world = approval_world +
  captured :: "capability_claims list \<times> pyval"

definition capture_reservation :: "'x task_world_scheme async_tracker \<Rightarrow> 'x task_world_scheme tracker" where
  \<comment> \<open>\<open>_Reservation\<close>, with the flags copied from the tracker\<close>
  "capture_reservation T =
     \<lparr>record_one = (\<lambda>claims amount w. (Inr Plain, w\<lparr>captured := ([claims], amount)\<rparr>)),
      record_chain = Some (\<lambda>chain amount w. (Inr Plain, w\<lparr>captured := (chain, amount)\<rparr>)),
      requires_chain = await_requires_chain T, supports_shared_budgets = await_shared_budgets T\<rparr>"

definition sync_boundary :: "'x task_world_scheme async_options \<Rightarrow> 'x task_world_scheme boundary" where
  \<comment> \<open>what \<open>verify_and_check\<close> is called with\<close>
  "sync_boundary A =
     \<lparr>issuer_public_key = fst (async_keys A), key_registry = snd (async_keys A), revocation_check = None,
      audience = async_audience A, required_capability = async_capability A,
      tracker = map_option capture_reservation (async_tracker_of A), on_decision = None\<rparr>"

section \<open>The boundary\<close>

definition async_notify :: "'w async_options \<Rightarrow> authorization_event \<Rightarrow> ('w, unit) py" where
  "async_notify A event = (case async_callback A of None \<Rightarrow> ret () | Some f \<Rightarrow> resolve (f event))"

definition async_denied :: "'x task_world_scheme async_options \<Rightarrow> capability_claims option \<Rightarrow> exc \<Rightarrow> ('x task_world_scheme, 'a) py" where
  \<comment> \<open>the \<open>except SwarmAuthError\<close> clause\<close>
  "async_denied A claims e =
     (case e of
        SwarmAuthError s \<Rightarrow> abind (async_notify A (denied_event (sync_boundary A) claims s)) (\<lambda>_. raise e)
      | _ \<Rightarrow> raise e)"

fun await_unrevoked :: "(string \<Rightarrow> ('w, ('w, bool) awaited) py) \<Rightarrow> capability_claims list \<Rightarrow> ('w, unit) py" where
  "await_unrevoked store [] = ret ()"
| "await_unrevoked store (c # cs) =
     abind (resolve (store (jti c))) (\<lambda>gone.
     if gone then raise (swarm TokenRevokedError) else await_unrevoked store cs)"

definition await_charge ::
  "'w async_tracker \<Rightarrow> capability_claims \<Rightarrow> capability_claims list \<times> pyval \<Rightarrow> ('w, unit) py" where
  "await_charge T claims reserved =
     (case reserved of (chain, amount) \<Rightarrow>
        if 1 < length chain
        then (case await_chain T of
                None \<Rightarrow> raise (constraint_violation ''max_calls'')
              | Some f \<Rightarrow> resolve (f chain amount))
        else resolve (await_one T claims amount))"

definition await_checks ::
  "ext_lib \<Rightarrow> 'w async_options \<Rightarrow> capability_claims \<Rightarrow> capability_claims list \<times> pyval \<Rightarrow> ('w, unit) py" where
  \<comment> \<open>the rest of the \<open>try\<close> block, after the synchronous verification\<close>
  "await_checks L A claims reserved =
     abind (lift (parent_of L claims)) (\<lambda>parent.
     let chain = (case parent of None \<Rightarrow> [claims] | Some p \<Rightarrow> [p, claims])
     in abind (case async_store A of None \<Rightarrow> ret () | Some store \<Rightarrow> await_unrevoked store chain) (\<lambda>_.
        case async_tracker_of A of None \<Rightarrow> ret () | Some T \<Rightarrow> await_charge T claims reserved))"

definition async_verify_and_check ::
  "ext_lib \<Rightarrow> 'x task_world_scheme async_options \<Rightarrow> pyval \<Rightarrow> params option \<Rightarrow> pyval \<Rightarrow>
   ('x task_world_scheme, capability_claims) py" where
  "async_verify_and_check L A amount params token =
     abind (\<lambda>w. (Inr (), w\<lparr>captured := ([], PFloat (Fin 0))\<rparr>)) (\<lambda>_.
     abind (catch (verify_and_check L (sync_boundary A) amount params token) (async_denied A None)) (\<lambda>claims.
     abind (\<lambda>w. (Inr (captured w), w)) (\<lambda>reserved.
     abind (catch (await_checks L A claims reserved) (async_denied A (Some claims))) (\<lambda>_.
     abind (async_notify A (allowed_event (sync_boundary A) claims)) (\<lambda>_.
     ret claims)))))"

record 'w async_guard_config =
  guard_capability :: string
  guard_options :: "'w async_options"   \<comment> \<open>keys, store, tracker and callback, and the audience if one is given\<close>
  guard_token_kwarg :: string
  guard_amount_kwarg :: "string option"

definition async_bound :: "'w async_guard_config \<Rightarrow> 'w async_options" where
  "async_bound G =
     (guard_options G)\<lparr>async_audience := Some (case async_audience (guard_options G) of None \<Rightarrow> guard_capability G | Some a \<Rightarrow> a),
        async_capability := Some (guard_capability G)\<rparr>"

definition async_guarded ::
  "ext_lib \<Rightarrow> 'x task_world_scheme async_guard_config \<Rightarrow> signature \<Rightarrow>
   (pyval list \<Rightarrow> params \<Rightarrow> ('x task_world_scheme, ('x task_world_scheme, 'a) awaited) py) \<Rightarrow>
   pyval list \<Rightarrow> params \<Rightarrow> ('x task_world_scheme, 'a) py" where
  \<comment> \<open>the wrapper that \<open>async_guard\<close> returns\<close>
  "async_guarded L G sig func args kwargs =
     (\<lambda>w. (let token = presented_token (dict_get kwargs (guard_token_kwarg G)) (current_token w);
               kwargs = AList.delete (guard_token_kwarg G) kwargs
           in if \<not> py_truth token then
                abind (async_notify (async_bound G)
                  \<lparr>decision = ''denied'', event_code = Some ''CAPABILITY_VIOLATION'', event_issuer = None,
                   event_audience = async_audience (async_bound G), event_capability = Some (guard_capability G),
                   event_token_id = None\<rparr>) (\<lambda>_.
                raise (swarm (CapabilityViolationError (Some (guard_capability G)) [])))
              else
                abind (lift (bound_call_params sig args kwargs)) (\<lambda>params.
                abind (async_verify_and_check L (async_bound G)
                         (if truthy (guard_amount_kwarg G) then dict_get params (the (guard_amount_kwarg G)) else PNone)
                         (Some params) token) (\<lambda>_.
                resolve (func args kwargs)))) w)"

section \<open>What the boundary admits\<close>

fun all_unrevoked :: "(string \<Rightarrow> ('w, ('w, bool) awaited) py) \<Rightarrow> capability_claims list \<Rightarrow> 'w \<Rightarrow> 'w \<Rightarrow> bool" where
  \<comment> \<open>the store, asked for one token after the other, answered False each time\<close>
  "all_unrevoked store [] w w' = (w' = w)"
| "all_unrevoked store (c # cs) w w' =
     (\<exists>v. resolve (store (jti c)) w = (Inr False, v) \<and> all_unrevoked store cs v w')"

definition reserved_chain :: "'w async_tracker \<Rightarrow> capability_claims option \<Rightarrow> capability_claims \<Rightarrow> capability_claims list" where
  "reserved_chain T parent claims =
     (case parent of
        Some p \<Rightarrow> if stateful p \<noteq> [] \<or> await_requires_chain T then [p, claims] else [claims]
      | None \<Rightarrow> [claims])"

definition awaited_charge ::
  "'w async_tracker \<Rightarrow> capability_claims option \<Rightarrow> capability_claims \<Rightarrow> pyfloat \<Rightarrow> 'w \<Rightarrow> 'w \<Rightarrow> bool" where
  \<comment> \<open>the awaited tracker accepted the reservation, of the whole chain when the parent needs it\<close>
  "awaited_charge T parent claims f w w' \<longleftrightarrow>
     (if length (reserved_chain T parent claims) = 1 then resolve (await_one T claims (PFloat f)) w = (Inr (), w')
      else \<exists>g. await_chain T = Some g \<and> resolve (g (reserved_chain T parent claims) (PFloat f)) w = (Inr (), w'))"

definition async_admits ::
  "ext_lib \<Rightarrow> 'x task_world_scheme async_options \<Rightarrow> pyval \<Rightarrow> params option \<Rightarrow> pyval \<Rightarrow> capability_claims \<Rightarrow>
   'x task_world_scheme \<Rightarrow> 'x task_world_scheme \<Rightarrow> bool" where
  \<comment> \<open>the specification: the conditions of the synchronous boundary, with revocation, reservation and callback awaited in
    this order after the token was verified\<close>
  "async_admits L A amount params token claims w w' \<longleftrightarrow>
     (let B = sync_boundary A in
      \<exists>t w1 f parent w2 w3 w4.
        token = PStr t \<and> (issuer_public_key B = None) \<noteq> (key_registry B = None) \<and>
        accepts L (issuer_public_key B) (key_registry B) None (audience B) 2 t claims (w\<lparr>captured := ([], PFloat (Fin 0))\<rparr>) w1 \<and>
        call_within B amount params claims \<and> resolved_amount amount = Inr f \<and> parent_of L claims = Inr parent \<and>
        w2 = (case async_tracker_of A of None \<Rightarrow> w1 | Some T \<Rightarrow> w1\<lparr>captured := (reserved_chain T parent claims, PFloat f)\<rparr>) \<and>
        (case async_store A of None \<Rightarrow> w3 = w2
         | Some store \<Rightarrow> all_unrevoked store (case parent of None \<Rightarrow> [claims] | Some p \<Rightarrow> [p, claims]) w2 w3) \<and>
        (case async_tracker_of A of None \<Rightarrow> w4 = w3 | Some T \<Rightarrow> awaited_charge T parent claims f w3 w4) \<and>
        async_notify A (allowed_event B claims) w4 = (Inr (), w'))"

lemma await_unrevoked_iff [py_inv]: "await_unrevoked store cs w = (Inr u, w') \<longleftrightarrow> all_unrevoked store cs w w'"
  by (induction cs arbitrary: w) (simp_all add: py_inv ex_bool_eq eq_commute [of w'])

lemma async_denied_raises [py_inv]: "async_denied A claims e w \<noteq> (Inr x, w')"
  by (cases e) (simp_all add: async_denied_def py_inv)

lemma reserved_length: "length (reserved_chain T parent claims) = 1 \<or> length (reserved_chain T parent claims) = 2"
  by (simp add: reserved_chain_def split: option.split)

lemma await_charge_iff [py_inv]:
  "await_charge T claims (reserved_chain T parent claims, PFloat f) w = (Inr u, w') \<longleftrightarrow> awaited_charge T parent claims f w w'"
  using reserved_length [of T parent claims]
  by (auto simp: await_charge_def awaited_charge_def py_inv split: option.split)

lemma await_checks_iff:
  assumes "parent_of L claims = Inr parent"
    and "case async_tracker_of A of None \<Rightarrow> True | Some T \<Rightarrow> reserved = (reserved_chain T parent claims, PFloat f)"
  shows "await_checks L A claims reserved w = (Inr u, w') \<longleftrightarrow>
    (\<exists>v. (case async_store A of None \<Rightarrow> v = w
         | Some store \<Rightarrow> all_unrevoked store (case parent of None \<Rightarrow> [claims] | Some p \<Rightarrow> [p, claims]) w v) \<and>
        (case async_tracker_of A of None \<Rightarrow> w' = v | Some T \<Rightarrow> awaited_charge T parent claims f v w'))"
  using assms by (auto simp: await_checks_def py_inv Let_def split: option.splits)

lemma reservation_charged:
  "charged_to (capture_reservation T) parent claims f w w' \<longleftrightarrow> w' = w\<lparr>captured := (reserved_chain T parent claims, PFloat f)\<rparr>"
  by (auto simp: charged_to_def capture_reservation_def reserved_chain_def split: option.splits)

lemma sync_boundary_simps [simp]:
  "issuer_public_key (sync_boundary A) = fst (async_keys A)" "key_registry (sync_boundary A) = snd (async_keys A)"
  "revocation_check (sync_boundary A) = None" "audience (sync_boundary A) = async_audience A"
  "required_capability (sync_boundary A) = async_capability A" "tracker (sync_boundary A) = map_option capture_reservation (async_tracker_of A)"
  "on_decision (sync_boundary A) = None"
  by (simp_all add: sync_boundary_def)

lemma async_verify_iff:
  "async_verify_and_check L A amount params token w = (Inr claims, w') \<longleftrightarrow> async_admits L A amount params token claims w w'"
proof -
  let ?B = "sync_boundary A" and ?w = "w\<lparr>captured := ([], PFloat (Fin 0))\<rparr>"
  have run: "async_verify_and_check L A amount params token w = (Inr claims, w') \<longleftrightarrow>
      (\<exists>w2 w4. verify_and_check L ?B amount params token ?w = (Inr claims, w2) \<and>
         await_checks L A claims (captured w2) w2 = (Inr (), w4) \<and>
         async_notify A (allowed_event ?B claims) w4 = (Inr (), w'))"
    by (auto simp: async_verify_and_check_def py_inv)
  have verified: "verify_and_check L ?B amount params token ?w = (Inr claims, w2) \<longleftrightarrow>
      (\<exists>t w1 f parent. token = PStr t \<and> (issuer_public_key ?B = None) \<noteq> (key_registry ?B = None) \<and>
        accepts L (issuer_public_key ?B) (key_registry ?B) None (audience ?B) 2 t claims ?w w1 \<and>
        call_within ?B amount params claims \<and> resolved_amount amount = Inr f \<and> parent_of L claims = Inr parent \<and>
        w2 = (case async_tracker_of A of None \<Rightarrow> w1 | Some T \<Rightarrow> w1\<lparr>captured := (reserved_chain T parent claims, PFloat f)\<rparr>))" for w2
    unfolding verify_and_check_spec
    using parent_of_accepted [of L "issuer_public_key ?B" "key_registry ?B" None "audience ?B" 2 _ claims ?w]
    by (cases "async_tracker_of A") (auto simp: notified_def reservation_charged; blast)+
  have checks: "await_checks L A claims (captured w2) w2 = (Inr (), w4) \<longleftrightarrow>
      (\<exists>v. (case async_store A of None \<Rightarrow> v = w2
         | Some store \<Rightarrow> all_unrevoked store (case parent of None \<Rightarrow> [claims] | Some p \<Rightarrow> [p, claims]) w2 v) \<and>
        (case async_tracker_of A of None \<Rightarrow> w4 = v | Some T \<Rightarrow> awaited_charge T parent claims f v w4))"
    if "parent_of L claims = Inr parent"
      "w2 = (case async_tracker_of A of None \<Rightarrow> w1 | Some T \<Rightarrow> w1\<lparr>captured := (reserved_chain T parent claims, PFloat f)\<rparr>)"
    for parent f w1 w2 w4
    using that(2) by (intro await_checks_iff [OF that(1)]) (simp split: option.split)
  have one_parent: "parent = parent'" if "parent_of L claims = Inr parent" "parent_of L claims = Inr parent'" for parent parent'
    using that by simp
  show ?thesis
    unfolding run verified async_admits_def Let_def
    apply (rule iffI)
    apply (elim exE conjE)
    apply (simp only: checks)
    apply blast
    apply (elim exE conjE)
    subgoal for t w1 f parent w2 w3 w4
      using checks [of parent w2 w1 f w4] by blast
    done
qed

lemma async_admits_string:
  assumes "async_admits L A amount params token claims w w'"
  shows "py_truth token"
proof -
  from assms obtain t v where "token = PStr t"
      "accepts L (issuer_public_key (sync_boundary A)) (key_registry (sync_boundary A)) None (audience (sync_boundary A)) 2 t claims
         (w\<lparr>captured := ([], PFloat (Fin 0))\<rparr>) v"
    unfolding async_admits_def Let_def by (elim exE conjE)
  then show ?thesis by (cases t) (simp_all add: py_truth_def accepts_nonempty)
qed

definition plain_replies :: "'w tracker \<Rightarrow> bool" where
  \<comment> \<open>a tracker whose operations are not coroutines\<close>
  "plain_replies T \<longleftrightarrow>
     (\<forall>claims amount w x w'. record_one T claims amount w = (Inr x, w') \<longrightarrow> x = Plain) \<and>
     (\<forall>g chain amount w x w'. record_chain T = Some g \<longrightarrow> g chain amount w = (Inr x, w') \<longrightarrow> x = Plain)"

lemma async_usage_tracker_charge:
  \<comment> \<open>\<open>AsyncUsageTracker\<close> charges as the tracker it wraps\<close>
  assumes "plain_replies T"
  shows "awaited_charge (async_usage_tracker T) parent claims f w w' \<longleftrightarrow> charged_to T parent claims f w w'"
proof -
  have one: "(\<exists>x. record_one T claims (PFloat f) w = (Inr x, w')) \<longleftrightarrow> record_one T claims (PFloat f) w = (Inr Plain, w')"
    using assms unfolding plain_replies_def by blast
  have chain: "(\<exists>x. g chain (PFloat f) w = (Inr x, w')) \<longleftrightarrow> g chain (PFloat f) w = (Inr Plain, w')"
    if "record_chain T = Some g" for g chain
    using assms that unfolding plain_replies_def by blast
  show ?thesis
    by (cases parent; cases "record_chain T")
      (auto simp: awaited_charge_def charged_to_def reserved_chain_def async_usage_tracker_def resolve_def py_inv one chain)
qed

text \<open>C35. The asynchronous guard runs the tool exactly when the boundary admits the call: the token presented is a
  string which the verifier accepts for the guard's audience, its capability and constraints cover the call, the
  awaited store reports neither it nor its parent revoked, the awaited tracker accepted the reservation, and the
  awaited callback returned. The tool then starts in the world these left behind, without the token argument, and
  its result is awaited too.\<close>

theorem async_guard_exact:
  "async_guarded L G sig func args kwargs w = (Inr result, w') \<longleftrightarrow>
     (let arguments = AList.delete (guard_token_kwarg G) kwargs in
      \<exists>params claims w1. bound_call_params sig args arguments = Inr params \<and>
        async_admits L (async_bound G)
          (if truthy (guard_amount_kwarg G) then dict_get params (the (guard_amount_kwarg G)) else PNone) (Some params)
          (presented_token (dict_get kwargs (guard_token_kwarg G)) (current_token w)) claims w w1 \<and>
        resolve (func args arguments) w1 = (Inr result, w'))"
proof (cases "py_truth (presented_token (dict_get kwargs (guard_token_kwarg G)) (current_token w))")
  case True
  then show ?thesis by (simp add: async_guarded_def Let_def py_inv async_verify_iff)
next
  case False
  then show ?thesis by (auto simp: async_guarded_def Let_def py_inv dest: async_admits_string)
qed

end
