(* ===== verification/Transport.thy ===== *)
theory Transport
  imports Asyncio
begin

text \<open>
  \<open>swarmauth/transport.py\<close>: how an HTTP request's bearer credential reaches the guard. \<open>TokenContextMiddleware\<close> puts
  the credential of a request into the context variable for the time of that request, or answers 401;
  \<open>secure_mcp_http_tool\<close> takes it from the headers of the request object the MCP framework injects as an argument.
  Both only present a credential; the guard behind them decides.

  The application, \<open>send\<close> and the framework's request object are parameters: an action per scope, an action per message,
  and a function that reads the headers of the injected argument.
\<close>

section \<open>Bearer credentials\<close>

definition ascii_lower :: "string \<Rightarrow> string" where
  \<comment> \<open>\<open>lower()\<close>, of which only the letters A to Z matter for the comparisons made with it\<close>
  "ascii_lower s = List.map (\<lambda>c. let n = of_char c :: nat in if 65 \<le> n \<and> n \<le> 90 then char_of (n + 32) else c) s"

definition is_space :: "char \<Rightarrow> bool" where
  \<comment> \<open>\<open>str.isspace\<close> of one character below 256\<close>
  "is_space c = (let n = of_char c :: nat in (9 \<le> n \<and> n \<le> 13) \<or> (28 \<le> n \<and> n \<le> 32) \<or> n = 133 \<or> n = 160)"

fun split_once :: "string \<Rightarrow> (string \<times> string) option" where
  \<comment> \<open>\<open>s.split(" ", 1)\<close> when it has two parts\<close>
  "split_once [] = None"
| "split_once (c # s) =
     (if c = CHR '' '' then Some ([], s) else map_option (\<lambda>(a, b). (c # a, b)) (split_once s))"

definition bearer_value :: "string \<Rightarrow> string option" where
  "bearer_value header =
     (case split_once header of
        None \<Rightarrow> None
      | Some (scheme, value) \<Rightarrow>
          if ascii_lower scheme = ''bearer'' \<and> value \<noteq> [] \<and> \<not> list_ex is_space value then Some value else None)"

definition is_bearer :: "string \<Rightarrow> string \<Rightarrow> bool" where
  \<comment> \<open>the specification: the scheme in any case, one space, and a token without white space\<close>
  "is_bearer header t \<longleftrightarrow>
     (\<exists>scheme. header = scheme @ '' '' @ t \<and> ascii_lower scheme = ''bearer'') \<and> t \<noteq> [] \<and> (\<forall>c \<in> set t. \<not> is_space c)"

lemma split_once_iff: "split_once s = Some (a, b) \<longleftrightarrow> s = a @ '' '' @ b \<and> CHR '' '' \<notin> set a"
proof (induction s arbitrary: a)
  case (Cons c s)
  then show ?case by (cases a) auto
qed simp

lemma ascii_lower_space: "CHR '' '' \<in> set s \<Longrightarrow> CHR '' '' \<in> set (ascii_lower s)"
  by (induction s) (auto simp: ascii_lower_def Let_def)

lemma bearer_value_iff: "bearer_value header = Some t \<longleftrightarrow> is_bearer header t"
proof -
  have "CHR '' '' \<notin> set scheme" if "ascii_lower scheme = ''bearer''" for scheme
  proof
    assume "CHR '' '' \<in> set scheme"
    then have "CHR '' '' \<in> set (ascii_lower scheme)" by (rule ascii_lower_space)
    with that show False by simp
  qed
  then have parts: "split_once (scheme @ CHR '' '' # v) = Some (scheme, v)" if "ascii_lower scheme = ''bearer''" for scheme v
    using that by (simp add: split_once_iff)
  show ?thesis
    by (auto simp: bearer_value_def is_bearer_def list_ex_iff parts split: option.splits prod.splits if_splits)
      (auto simp: split_once_iff)
qed

lemma is_bearer_fun: "is_bearer header t \<Longrightarrow> is_bearer header t' \<Longrightarrow> t' = t"
  by (simp flip: bearer_value_iff)

section \<open>The ASGI middleware\<close>

record asgi_scope =
  scope_type :: string
  scope_headers :: "(bytes \<times> bytes) list option"

datatype asgi_message = Response_start int "(bytes \<times> bytes) list" | Response_body bytes

definition make_token_context :: "pyval \<Rightarrow> int result" where
  \<comment> \<open>\<open>TokenContextMiddleware.__init__\<close>: the bound, an exact positive integer\<close>
  "make_token_context max_token_bytes =
     (case max_token_bytes of PInt n \<Rightarrow> if n < 1 then Inl ValueError else Inr n | _ \<Rightarrow> Inl ValueError)"

definition authorization_headers :: "asgi_scope \<Rightarrow> bytes list" where
  "authorization_headers scope =
     List.map snd (filter (\<lambda>(k, v). ascii_lower k = ''authorization'')
       (case scope_headers scope of None \<Rightarrow> [] | Some hs \<Rightarrow> hs))"

definition scope_credential :: "int \<Rightarrow> asgi_scope \<Rightarrow> string option" where
  "scope_credential max_token_bytes scope =
     (case authorization_headers scope of
        [h] \<Rightarrow> if int (length h) \<le> max_token_bytes + 7 \<and> is_ascii h then bearer_value h else None
      | _ \<Rightarrow> None)"

definition reject_request :: "(asgi_message \<Rightarrow> ('w, unit) py) \<Rightarrow> ('w, unit) py" where
  "reject_request send =
     abind (send (Response_start 401 [(''content-type'', ''application/json''), (''www-authenticate'', ''Bearer'')])) (\<lambda>_.
     send (Response_body (CHR ''{'' # CHR 0x22 # ''error'' @ [CHR 0x22, CHR '':'', CHR 0x22] @ ''invalid_bearer_credential''
       @ [CHR 0x22, CHR ''}''])))"

definition token_context ::
  "int \<Rightarrow> (asgi_scope \<Rightarrow> ('x world_scheme, unit) py) \<Rightarrow> (asgi_message \<Rightarrow> ('x world_scheme, unit) py) \<Rightarrow> asgi_scope \<Rightarrow>
   ('x world_scheme, unit) py" where
  \<comment> \<open>\<open>TokenContextMiddleware.__call__\<close>\<close>
  "token_context max_token_bytes app send scope =
     (if scope_type scope \<noteq> ''http'' then app scope
      else case scope_credential max_token_bytes scope of
        None \<Rightarrow> reject_request send
      | Some token \<Rightarrow> use_token (PStr token) (app scope))"

definition presents :: "int \<Rightarrow> asgi_scope \<Rightarrow> string \<Rightarrow> bool" where
  \<comment> \<open>the request carries exactly one authorization header, a bearer credential of bounded length in ASCII\<close>
  "presents n scope t \<longleftrightarrow>
     (\<exists>h. authorization_headers scope = [h] \<and> int (length h) \<le> n + 7 \<and> is_ascii h \<and> is_bearer h t)"

lemma scope_credential_iff: "scope_credential n scope = Some t \<longleftrightarrow> presents n scope t"
  by (auto simp: scope_credential_def presents_def bearer_value_iff split: list.splits)

lemma presents_nonempty: "presents n scope t \<Longrightarrow> t \<noteq> []"
  by (auto simp: presents_def is_bearer_def)

text \<open>C36. An HTTP request reaches the application only with exactly one well-formed bearer credential, which is what
  the context holds while the application runs and no longer: afterwards the context is as before, also when the
  application failed. Every other HTTP request is answered 401 without the application; a scope of another type
  passes with no credential.\<close>

theorem http_credential_scoped:
  "token_context n app send scope w = (result, w') \<longleftrightarrow>
     (if scope_type scope \<noteq> ''http'' then app scope w = (result, w')
      else if \<exists>t. presents n scope t
        then \<exists>t v. presents n scope t \<and> app scope (w\<lparr>current_token := Some t\<rparr>) = (result, v) \<and>
                   w' = v\<lparr>current_token := current_token w\<rparr>
      else reject_request send w = (result, w'))"
proof (cases "scope_credential n scope")
  case None
  then show ?thesis by (simp add: token_context_def flip: scope_credential_iff)
next
  case (Some t)
  with presents_nonempty have "t \<noteq> []" by (simp add: scope_credential_iff)
  with Some show ?thesis
    by (auto simp: token_context_def use_token_def split: prod.split simp flip: scope_credential_iff)
qed

section \<open>MCP over HTTP\<close>

datatype header_view =
    Header_list "string \<Rightarrow> pyval list"      \<comment> \<open>an object with \<open>getlist\<close>\<close>
  | Header_items "(string \<times> pyval) list"

fun header_values :: "header_view \<Rightarrow> pyval list" where
  "header_values (Header_list f) = f ''authorization''"
| "header_values (Header_items hs) = List.map snd (filter (\<lambda>(k, v). ascii_lower k = ''authorization'') hs)"

fun single_string :: "pyval list \<Rightarrow> string option" where
  \<comment> \<open>\<open>len(values) == 1 and isinstance(values[0], str)\<close>\<close>
  "single_string [PStr v] = Some v"
| "single_string _ = None"

definition mcp_credential ::
  "(pyval \<Rightarrow> header_view option) \<Rightarrow> string \<Rightarrow> string \<Rightarrow> signature \<Rightarrow> pyval list \<Rightarrow> params \<Rightarrow> string result" where
  "mcp_credential headers_of context_kwarg cap sig args kwargs =
     rbind (bound_call_params sig args kwargs) (\<lambda>params.
     rbind (of_option (swarm (CapabilityViolationError (Some cap) [])) (headers_of (dict_get params context_kwarg))) (\<lambda>headers.
     rbind (of_option (swarm (CapabilityViolationError (Some cap) [])) (single_string (header_values headers))) (\<lambda>v.
     rbind (ensure (length v \<le> 65543) (swarm (CapabilityViolationError (Some cap) []))) (\<lambda>_.
     of_option (swarm (CapabilityViolationError (Some cap) [])) (bearer_value v)))))"

definition mcp_http_tool ::
  "ext_lib \<Rightarrow> (pyval \<Rightarrow> header_view option) \<Rightarrow> string \<Rightarrow> 'x world_scheme guard_config \<Rightarrow> signature \<Rightarrow>
   (pyval list \<Rightarrow> params \<Rightarrow> ('x world_scheme, 'a) py) \<Rightarrow>
   (pyval list \<Rightarrow> params \<Rightarrow> ('x world_scheme, 'a) py) result" where
  \<comment> \<open>\<open>secure_mcp_http_tool\<close> of a plain function: the wrapper, or the error of wrapping\<close>
  "mcp_http_tool L headers_of context_kwarg G sig func =
     (if context_kwarg \<notin> set (List.map pname sig) then Inl TypeError
      else Inr (\<lambda>args kwargs.
        abind (lift (mcp_credential headers_of context_kwarg (capability G) sig args kwargs)) (\<lambda>token.
        guarded L G sig func args (AList.update (token_kwarg G) (PStr token) kwargs))))"

definition mcp_http_async_tool ::
  "ext_lib \<Rightarrow> (pyval \<Rightarrow> header_view option) \<Rightarrow> string \<Rightarrow> 'x task_world_scheme async_guard_config \<Rightarrow> signature \<Rightarrow>
   (pyval list \<Rightarrow> params \<Rightarrow> ('x task_world_scheme, ('x task_world_scheme, 'a) awaited) py) \<Rightarrow>
   (pyval list \<Rightarrow> params \<Rightarrow> ('x task_world_scheme, 'a) py) result" where
  \<comment> \<open>the same of a coroutine function\<close>
  "mcp_http_async_tool L headers_of context_kwarg G sig func =
     (if context_kwarg \<notin> set (List.map pname sig) then Inl TypeError
      else Inr (\<lambda>args kwargs.
        abind (lift (mcp_credential headers_of context_kwarg (guard_capability G) sig args kwargs)) (\<lambda>token.
        async_guarded L G sig func args (AList.update (guard_token_kwarg G) (PStr token) kwargs))))"

definition request_credential ::
  "(pyval \<Rightarrow> header_view option) \<Rightarrow> string \<Rightarrow> signature \<Rightarrow> pyval list \<Rightarrow> params \<Rightarrow> string \<Rightarrow> bool" where
  \<comment> \<open>the injected request has exactly one authorization header, a bearer credential of bounded length\<close>
  "request_credential headers_of context_kwarg sig args kwargs t \<longleftrightarrow>
     (\<exists>params headers v. bound_call_params sig args kwargs = Inr params \<and>
        headers_of (dict_get params context_kwarg) = Some headers \<and> header_values headers = [PStr v] \<and>
        length v \<le> 65543 \<and> is_bearer v t)"

lemma single_string_iff: "single_string values = Some v \<longleftrightarrow> values = [PStr v]"
  by (induction "values" rule: single_string.induct) auto

lemma mcp_credential_iff:
  "mcp_credential headers_of context_kwarg cap sig args kwargs = Inr t \<longleftrightarrow> request_credential headers_of context_kwarg sig args kwargs t"
  by (auto simp: mcp_credential_def request_credential_def bearer_value_iff single_string_iff py_inv)

lemma delete_after_update: "AList.delete k (AList.update k v kvs) = AList.delete k kvs"
  by (induction kvs) auto

lemma presented_credential:
  assumes "request_credential headers_of ctx sig args kwargs t"
  shows "presented_token (dict_get (AList.update k (PStr t) kwargs) k) c = PStr t"
  using assms by (auto simp: request_credential_def is_bearer_def presented_token_def dict_get_def update_conv' py_truth_def)

text \<open>C37. A tool served over HTTP by MCP runs exactly when the request injected into the call carries one bearer
  credential, the guard admits the call under that credential, and nothing else: a token among the arguments or in
  the context variable is never used instead. The tool receives the arguments without a token.\<close>

theorem mcp_http_exact:
  "(\<exists>tool. mcp_http_tool L headers_of ctx G sig func = Inr tool \<and> tool args kwargs w = (Inr result, w')) \<longleftrightarrow>
     ctx \<in> set (List.map pname sig) \<and>
     (\<exists>t claims w1. request_credential headers_of ctx sig args kwargs t \<and>
        presented_token (dict_get (AList.update (token_kwarg G) (PStr t) kwargs) (token_kwarg G)) (current_token w) = PStr t \<and>
        admits L G sig args (AList.update (token_kwarg G) (PStr t) kwargs) claims w w1 \<and>
        func args (AList.delete (token_kwarg G) kwargs) w1 = (Inr result, w'))"
  using presented_credential [of headers_of ctx sig args kwargs _ "token_kwarg G" "current_token w"]
  by (simp add: mcp_http_tool_def mcp_credential_iff guarded_def authorize_iff delete_after_update py_inv) blast

end
