(* ===== verification/Adapters.thy ===== *)
theory Adapters
  imports Deployment
begin

text \<open>
  The framework adapters at the end of \<open>middleware.py\<close>. \<open>secure_tool_call\<close>, \<open>secure_mcp_tool\<close> and
  \<open>secure_autogen_function\<close> are the guard itself. \<open>secure_langchain_tool\<close> (and \<open>secure_crewai_tool\<close>) rewrites the
  entry points of a tool object; which of the object's methods only forward to its other attributes is decided by the
  class that defines them.

  A tool object is its four entry points and, for each, the class that owns the method. What a method does is a parameter:
  it is a handler, or it forwards to other entry points of the same object (possibly with arguments of its own), or
  it is the guarded wrapper of a method.
\<close>

section \<open>Tool objects\<close>

datatype entry_point = Func | Coroutine | Run | Arun

datatype 'w tool_method =
    Handler signature "pyval list \<Rightarrow> params \<Rightarrow> ('w, pyval) py"
  | Forwards signature "entry_point list"
  | Guarded "'w tool_method"

fun signature_of :: "'w tool_method \<Rightarrow> signature" where
  \<comment> \<open>\<open>inspect.signature\<close>, which follows \<open>__wrapped__\<close>\<close>
  "signature_of (Handler sig f) = sig"
| "signature_of (Forwards sig es) = sig"
| "signature_of (Guarded m) = signature_of m"

record 'w tool =
  entry_of :: "entry_point \<Rightarrow> 'w tool_method option"   \<comment> \<open>None when absent or not callable\<close>
  owner_of :: "entry_point \<Rightarrow> string \<times> string"

section \<open>The adapters\<close>

definition secure_tool_call ::
  "ext_lib \<Rightarrow> 'x world_scheme guard_config \<Rightarrow> signature \<Rightarrow> (pyval list \<Rightarrow> params \<Rightarrow> ('x world_scheme, 'a) py) \<Rightarrow>
   pyval list \<Rightarrow> params \<Rightarrow> ('x world_scheme, 'a) py" where
  "secure_tool_call L G sig func = guarded L G sig func"

definition secure_mcp_tool ::
  "ext_lib \<Rightarrow> 'x world_scheme guard_config \<Rightarrow> signature \<Rightarrow> (pyval list \<Rightarrow> params \<Rightarrow> ('x world_scheme, 'a) py) \<Rightarrow>
   pyval list \<Rightarrow> params \<Rightarrow> ('x world_scheme, 'a) py" where
  "secure_mcp_tool L G sig func = secure_tool_call L G sig func"

definition secure_autogen_function ::
  "ext_lib \<Rightarrow> 'x world_scheme guard_config \<Rightarrow> signature \<Rightarrow> (pyval list \<Rightarrow> params \<Rightarrow> ('x world_scheme, 'a) py) \<Rightarrow>
   pyval list \<Rightarrow> params \<Rightarrow> ('x world_scheme, 'a) py" where
  "secure_autogen_function L G sig func = secure_tool_call L G sig func"

definition structured_tool :: "string \<times> string" where
  "structured_tool = (''langchain_core.tools.structured'', ''StructuredTool'')"

definition base_tool :: "string \<times> string" where
  "base_tool = (''langchain_core.tools.base'', ''BaseTool'')"

definition secure_entry :: "entry_point \<Rightarrow> 'w tool \<Rightarrow> 'w tool" where
  \<comment> \<open>\<open>setattr(tool, attribute, secure_tool_call(handler, **kwargs))\<close> when the attribute is callable\<close>
  "secure_entry e t =
     (case entry_of t e of None \<Rightarrow> t | Some m \<Rightarrow> t\<lparr>entry_of := (entry_of t)(e := Some (Guarded m))\<rparr>)"

definition secure_langchain_tool :: "'w tool \<Rightarrow> 'w tool result" where
  "secure_langchain_tool t =
     (let function_handlers = entry_of t Func \<noteq> None \<or> entry_of t Coroutine \<noteq> None;
          t1 = secure_entry Coroutine (secure_entry Func t);
          t2 = (if function_handlers \<and> owner_of t1 Run = structured_tool then t1 else secure_entry Run t1);
          t3 = (if owner_of t2 Arun \<in> {base_tool, structured_tool} then t2 else secure_entry Arun t2)
      in if function_handlers \<or> entry_of t Run \<noteq> None \<or> entry_of t Arun \<noteq> None then Inr t3 else Inl TypeError)"

definition secure_crewai_tool :: "'w tool \<Rightarrow> 'w tool result" where
  "secure_crewai_tool t = secure_langchain_tool t"

section \<open>Running a tool\<close>

inductive runs ::
  "ext_lib \<Rightarrow> 'x world_scheme guard_config \<Rightarrow> 'x world_scheme tool \<Rightarrow> 'x world_scheme tool_method \<Rightarrow>
   pyval list \<Rightarrow> params \<Rightarrow> 'x world_scheme \<Rightarrow> pyval result \<Rightarrow> 'x world_scheme \<Rightarrow> bool"
  for L :: ext_lib and G :: "'x world_scheme guard_config" and t :: "'x world_scheme tool" where
  handler: "f args kwargs w = (r, w') \<Longrightarrow> runs L G t (Handler sig f) args kwargs w r w'"
| forwards: "e \<in> set es \<Longrightarrow> entry_of t e = Some m \<Longrightarrow> runs L G t m args' kwargs' w r w' \<Longrightarrow>
    runs L G t (Forwards sig es) args kwargs w r w'"
| refused: "authorize L G (signature_of m) args kwargs w = (Inl e, w') \<Longrightarrow> runs L G t (Guarded m) args kwargs w (Inl e) w'"
| passed: "authorize L G (signature_of m) args kwargs w = (Inr (), w1) \<Longrightarrow>
    runs L G t m args (AList.delete (token_kwarg G) kwargs) w1 r w' \<Longrightarrow> runs L G t (Guarded m) args kwargs w r w'"

fun is_handler :: "'w tool_method \<Rightarrow> bool" where
  "is_handler (Handler sig f) = True"
| "is_handler _ = False"

definition stock_methods_forward :: "'w tool \<Rightarrow> bool" where
  \<comment> \<open>documented behaviour of the frameworks: a \<open>_run\<close> or \<open>_arun\<close> of these classes only forwards\<close>
  "stock_methods_forward t \<longleftrightarrow>
     (owner_of t Run = structured_tool \<longrightarrow> pred_option (\<lambda>m. \<not> is_handler m) (entry_of t Run)) \<and>
     (owner_of t Arun \<in> {base_tool, structured_tool} \<longrightarrow> pred_option (\<lambda>m. \<not> is_handler m) (entry_of t Arun))"

lemma entry_of_secure:
  "entry_of (secure_entry e t) e' = (if e' = e then map_option Guarded (entry_of t e) else entry_of t e')"
  by (auto simp: secure_entry_def split: option.split)

lemma owner_of_secure [simp]: "owner_of (secure_entry e t) = owner_of t"
  by (simp add: secure_entry_def split: option.split)

lemma secured_entry:
  assumes "secure_langchain_tool t = Inr t'"
  shows "entry_of t' e =
    (if e = Run \<and> (entry_of t Func \<noteq> None \<or> entry_of t Coroutine \<noteq> None) \<and> owner_of t Run = structured_tool \<or>
        e = Arun \<and> owner_of t Arun \<in> {base_tool, structured_tool}
     then entry_of t e else map_option Guarded (entry_of t e))"
  using assms unfolding secure_langchain_tool_def Let_def
  by (cases e) (auto simp: entry_of_secure simp del: not_None_eq split: if_split_asm)

lemma no_bare_handler:
  assumes "secure_langchain_tool t = Inr t'" and "stock_methods_forward t" and "entry_of t' e = Some m"
  shows "\<not> is_handler m"
  using assms(2,3) unfolding secured_entry [OF assms(1)] stock_methods_forward_def
  by (auto split: if_split_asm)

definition guarded_first ::
  "ext_lib \<Rightarrow> 'x world_scheme guard_config \<Rightarrow> 'x world_scheme tool \<Rightarrow> 'x world_scheme \<Rightarrow> pyval result \<Rightarrow>
   'x world_scheme \<Rightarrow> bool" where
  \<comment> \<open>the guard refused and nothing ran, or it admitted the call and the method it guards ran from there\<close>
  "guarded_first L G t w r w' \<longleftrightarrow>
     (\<exists>(m :: 'x world_scheme tool_method) args kwargs e. authorize L G (signature_of m) args kwargs w = (Inl e, w') \<and> r = Inl e) \<or>
     (\<exists>m args kwargs claims w1. admits L G (signature_of m) args kwargs claims w w1 \<and>
        runs L G t m args (AList.delete (token_kwarg G) kwargs) w1 r w')"

lemma runs_guarded:
  assumes "runs L G t m args kwargs w r w'" and "\<not> is_handler m"
    and bare: "\<And>e m. entry_of t e = Some m \<Longrightarrow> \<not> is_handler m"
  shows "guarded_first L G t w r w'"
  using assms(1,2)
proof (induction rule: runs.induct)
  case (forwards e es m args' kwargs' w r w' sig args kwargs)
  with bare show ?case by blast
next
  case (refused m args kwargs w e w')
  then show ?case unfolding guarded_first_def by blast
next
  case (passed m args kwargs w w1 r w')
  then show ?case unfolding guarded_first_def authorize_iff by blast
qed simp

text \<open>C38. However a secured tool object is called, through its function, its coroutine, \<open>_run\<close> or \<open>_arun\<close>, the guard
  decides first: it refuses and no handler ran, or it admitted the call.\<close>

theorem every_entry_guarded:
  assumes "secure_langchain_tool t = Inr t'" and "stock_methods_forward t"
    and "entry_of t' e = Some m" and "runs L G t' m args kwargs w r w'"
  shows "guarded_first L G t' w r w'"
  using assms by (blast intro: runs_guarded dest: no_bare_handler)

definition sample_tool :: "usage_world tool" where
  \<comment> \<open>a \<open>StructuredTool\<close> over a function\<close>
  "sample_tool =
     \<lparr>entry_of = (\<lambda>e. case e of Func \<Rightarrow> Some (Handler [] (\<lambda>args kwargs. ret (PStr ''done'')))
        | Coroutine \<Rightarrow> None | Run \<Rightarrow> Some (Forwards [] [Func]) | Arun \<Rightarrow> Some (Forwards [] [Coroutine, Run])),
      owner_of = (\<lambda>_. structured_tool)\<rparr>"

theorem every_entry_guarded_witness:
  "\<exists>tool m w. secure_langchain_tool sample_tool = Inr tool \<and> entry_of tool Arun = Some m \<and>
     runs sample_lib sample_guard tool m [] [(''token'', PStr sample_once_token)] sample_process (Inr (PStr ''done'')) w \<and>
     guarded_first sample_lib sample_guard tool sample_process (Inr (PStr ''done'')) w"
proof -
  obtain tool where tool: "secure_langchain_tool sample_tool = Inr tool"
    by (simp add: secure_langchain_tool_def sample_tool_def Let_def)
  have entries: "entry_of tool Func = Some (Guarded (Handler [] (\<lambda>args kwargs. ret (PStr ''done''))))"
    "entry_of tool Run = Some (Forwards [] [Func])" "entry_of tool Arun = Some (Forwards [] [Coroutine, Run])"
    by (simp_all add: secured_entry [OF tool] sample_tool_def)
  obtain w where "admits sample_lib sample_guard [] [] [(''token'', PStr sample_once_token)] sample_once sample_process w"
    using sample_admits [of sample_process] by (auto simp: sample_process_def)
  then have admitted: "authorize sample_lib sample_guard [] [] [(''token'', PStr sample_once_token)] sample_process = (Inr (), w)"
    unfolding authorize_iff by blast
  have run: "runs sample_lib sample_guard tool (Forwards [] [Coroutine, Run]) [] [(''token'', PStr sample_once_token)]
      sample_process (Inr (PStr ''done'')) w"
  proof -
    let ?h = "Handler [] (\<lambda>args kwargs. ret (PStr ''done''))" and ?k = "[(''token'', PStr sample_once_token)]"
    have "runs sample_lib sample_guard tool ?h [] (AList.delete (token_kwarg sample_guard) ?k) w (Inr (PStr ''done'')) w"
      by (rule handler) (simp add: ret_def)
    with admitted have "runs sample_lib sample_guard tool (Guarded ?h) [] ?k sample_process (Inr (PStr ''done'')) w"
      by (rule_tac passed) simp_all
    then have "runs sample_lib sample_guard tool (Forwards [] [Func]) [] ?k sample_process (Inr (PStr ''done'')) w"
      by (rule forwards [where e = Func, OF _ entries(1), rotated]) simp
    then show ?thesis
      by (rule forwards [where e = Run, OF _ entries(2), rotated]) simp
  qed
  have "stock_methods_forward sample_tool"
    by (simp add: stock_methods_forward_def sample_tool_def)
  from every_entry_guarded [OF tool this entries(3) run] tool entries(3) run show ?thesis by blast
qed

end
