(* ===== verification/Events.thy ===== *)
theory Events
  imports Deployment
begin

text \<open>
  \<open>swarmauth/events.py\<close>: \<open>JsonlDecisionSink\<close>, a decision callback that writes one line of JSON per decision. The stream is
  the caller's object: writing a text and flushing are actions given as parameters. The lock makes the two
  one step.
\<close>

definition newline :: char where
  "newline = CHR 0x0A"

definition event_value :: "authorization_event \<Rightarrow> pyval" where
  \<comment> \<open>\<open>asdict(event)\<close>\<close>
  "event_value e =
     PDict [(''decision'', PStr (decision e)), (''code'', opt_value PStr (event_code e)),
            (''issuer'', opt_value PStr (event_issuer e)), (''audience'', opt_value PStr (event_audience e)),
            (''capability'', opt_value PStr (event_capability e)), (''token_id'', opt_value PStr (event_token_id e))]"

definition event_line :: "authorization_event \<Rightarrow> string" where
  "event_line e = json_text (event_value e) @ [newline]"

definition jsonl_sink :: "(string \<Rightarrow> ('w, unit) py) \<Rightarrow> ('w, unit) py \<Rightarrow> 'w callback" where
  "jsonl_sink stream_write stream_flush e =
     abind (stream_write (event_line e)) (\<lambda>_. abind stream_flush (\<lambda>_. ret Plain))"

section \<open>Reading a log back\<close>

function text_lines :: "string \<Rightarrow> string list" where
  "text_lines s =
     (if newline \<in> set s then takeWhile (\<lambda>c. c \<noteq> newline) s # text_lines (tl (dropWhile (\<lambda>c. c \<noteq> newline) s))
      else if s = [] then [] else [s])"
  by pat_completeness auto
termination
proof (relation "measure length")
  fix s :: string
  assume "newline \<in> set s"
  then have "dropWhile (\<lambda>c. c \<noteq> newline) s \<noteq> []" by (simp add: dropWhile_eq_Nil_conv)
  moreover have "length (dropWhile (\<lambda>c. c \<noteq> newline) s) \<le> length s" by (rule length_dropWhile_le)
  ultimately show "(tl (dropWhile (\<lambda>c. c \<noteq> newline) s), s) \<in> measure length"
    by (cases "dropWhile (\<lambda>c. c \<noteq> newline) s") auto
qed simp

declare text_lines.simps [simp del]

fun load_text :: "pyval \<Rightarrow> string option option" where
  "load_text PNone = Some None"
| "load_text (PStr s) = Some (Some s)"
| "load_text _ = None"

definition event_of :: "pyval \<Rightarrow> authorization_event option" where
  \<comment> \<open>what a log collector does with a line\<close>
  "event_of v =
     (case v of
        PDict d \<Rightarrow>
          (case (dict_get d ''decision'', load_text (dict_get d ''code''), load_text (dict_get d ''issuer''),
                 load_text (dict_get d ''audience''), load_text (dict_get d ''capability''), load_text (dict_get d ''token_id'')) of
             (PStr dec, Some c, Some i, Some a, Some r, Some t) \<Rightarrow>
               Some \<lparr>decision = dec, event_code = c, event_issuer = i, event_audience = a, event_capability = r, event_token_id = t\<rparr>
           | _ \<Rightarrow> None)
      | _ \<Rightarrow> None)"

definition read_log :: "string \<Rightarrow> authorization_event option list" where
  "read_log s = List.map (\<lambda>line. Option.bind (json_loads line) event_of) (text_lines s)"

lemma load_text_value [simp]: "load_text (opt_value PStr x) = Some x"
  by (cases x) (simp_all add: opt_value_def)

lemma readable_text: "json_readable (opt_value PStr x)" "sort_keys (opt_value PStr x) = opt_value PStr x"
  by (cases x; simp add: opt_value_def)+

lemma event_readable: "json_readable (event_value e)"
  by (simp add: event_value_def readable_text)

lemma event_of_value: "event_of (sort_keys (event_value e)) = Some e"
  by (simp add: event_value_def event_of_def sort_key_def insort_key_def dict_get_def readable_text)

lemma line_printable: "newline \<notin> set (json_text (event_value e))"
proof
  assume "newline \<in> set (json_text (event_value e))"
  moreover have "printable (json_text (event_value e))"
    by (intro printable_json readable_finite event_readable)
  ultimately show False by (auto simp: printable_def list_all_iff newline_def)
qed

lemma text_lines_line: "newline \<notin> set s \<Longrightarrow> text_lines (s @ newline # rest) = s # text_lines rest"
proof -
  assume "newline \<notin> set s"
  then have "takeWhile (\<lambda>c. c \<noteq> newline) (s @ newline # rest) = s"
    "dropWhile (\<lambda>c. c \<noteq> newline) (s @ newline # rest) = newline # rest"
    by (induction s) auto
  then show ?thesis by (subst text_lines.simps) simp
qed

text \<open>C39. Whatever decisions were logged, whatever characters their issuers, audiences and capabilities contain, the log
  reads back line by line as exactly those decisions: no field can start a line of its own or forge another
  event.\<close>

theorem decision_log_round_trip: "read_log (concat (List.map event_line events)) = List.map Some events"
proof (induction events)
  case Nil
  show ?case by (simp add: read_log_def text_lines.simps)
next
  case (Cons e events)
  then show ?case
    by (simp add: read_log_def event_line_def text_lines_line line_printable json_loads_text event_readable event_of_value)
qed

text \<open>A failing write or flush keeps the tool from running: an admitted call has its event written and flushed last.\<close>

lemma logged_before_execution:
  assumes "on_decision (guard_boundary G) = Some (jsonl_sink stream_write stream_flush)"
    and "admits L G sig args kwargs claims w w'"
  shows "\<exists>v v'. stream_write (event_line (allowed_event (bound_boundary G) claims)) v = (Inr (), v') \<and> stream_flush v' = (Inr (), w')"
proof -
  have "on_decision (bound_boundary G) = Some (jsonl_sink stream_write stream_flush)"
    using assms(1) by (simp add: bound_boundary_def)
  with assms(2) show ?thesis
    unfolding admits_def Let_def by (auto simp: notified_def jsonl_sink_def py_inv)
qed

end
