(* ===== verification/Cli.thy ===== *)
theory Cli
  imports Transport
begin

text \<open>
  \<open>swarmauth/cli.py\<close>: the offline diagnostics \<open>inspect\<close>, \<open>verify\<close> and \<open>policy-check\<close>. A command's arguments are the ones
  \<open>argparse\<close> delivers; standard input and the contents of the files are inputs (None for a file that cannot be read).
  \<open>policy-check\<close> hands the JSON values of its request to \<open>IssuerPolicy.check\<close> untyped, so that check is modelled here on any values. The
  outcome is the exit status with the value printed as JSON, on standard output for status 0 and on standard error
  otherwise; an exception that \<open>main\<close> does not catch is an error of the model.
\<close>

section \<open>Outcomes\<close>

type_synonym outcome = "nat \<times> pyval"

definition denied_output :: "string \<Rightarrow> pyval" where
  "denied_output c = PDict [(''decision'', PStr ''denied''), (''code'', PStr c)]"

definition cli_outcome :: "('w, pyval) py \<Rightarrow> ('w, outcome) py" where
  \<comment> \<open>the \<open>try\<close> statement of \<open>main\<close>\<close>
  "cli_outcome body =
     catch (abind body (\<lambda>v. ret (0, v)))
       (\<lambda>e. case e of
          SwarmAuthError s \<Rightarrow> ret (1, denied_output (code s))
        | ValueError \<Rightarrow> ret (2, denied_output ''INVALID_INPUT'')
        | TypeError \<Rightarrow> ret (2, denied_output ''INVALID_INPUT'')
        | OtherError n \<Rightarrow> if n = ''OSError'' \<or> n = ''KeyError'' then ret (2, denied_output ''INVALID_INPUT'') else raise e
        | _ \<Rightarrow> raise e)"

section \<open>Inputs\<close>

definition py_strip :: "string \<Rightarrow> string" where
  "py_strip s = rev (dropWhile is_space (rev (dropWhile is_space s)))"

definition read_token :: "string \<Rightarrow> string result" where
  \<comment> \<open>\<open>sys.stdin.read(65537).strip()\<close> and the limit\<close>
  "read_token stdin =
     (let token = py_strip (take 65537 stdin) in if 65536 < length token then Inl ValueError else Inr token)"

definition hex_nibble :: "char \<Rightarrow> int option" where
  "hex_nibble c = hex_val (hd (ascii_lower [c]))"

definition ascii_space :: "char \<Rightarrow> bool" where
  "ascii_space c = (let n = of_char c :: nat in (9 \<le> n \<and> n \<le> 13) \<or> n = 32)"

fun fromhex :: "string \<Rightarrow> bytes result" where
  \<comment> \<open>\<open>bytes.fromhex\<close>: pairs of hexadecimal digits, white space between pairs\<close>
  "fromhex [] = Inr []"
| "fromhex (c # s) =
     (if ascii_space c then fromhex s
      else case s of
        [] \<Rightarrow> Inl ValueError
      | d # s' \<Rightarrow>
          (case (hex_nibble c, hex_nibble d) of
             (Some a, Some b) \<Rightarrow> rbind (fromhex s') (\<lambda>bs. Inr (char_of (16 * a + b) # bs))
           | _ \<Rightarrow> Inl ValueError))"

definition load_params :: "ext_lib \<Rightarrow> string option option \<Rightarrow> pyval result" where
  \<comment> \<open>\<open>json.loads(args.params_file.read_text()) if args.params_file else {}\<close>\<close>
  "load_params L params_file =
     (case params_file of
        None \<Rightarrow> Inr (PDict [])
      | Some None \<Rightarrow> Inl (OtherError ''OSError'')
      | Some (Some text) \<Rightarrow> read_json L text)"

definition check_any_params :: "capability_claims \<Rightarrow> pyval \<Rightarrow> unit result" where
  \<comment> \<open>\<open>check_params\<close> of the JSON value of the file, an object or not: \<open>in\<close>, indexing and \<open>.get\<close> of another value\<close>
  "check_any_params claims v =
     (case (v, allowed_params (constraints claims)) of
        (PDict d, _) \<Rightarrow> check_params claims d
      | (_, []) \<Rightarrow> Inr ()
      | (PList xs, pin # _) \<Rightarrow> if PStr (fst pin) \<in> set xs then Inl TypeError else Inl (OtherError ''AttributeError'')
      | (PStr s, pin # _) \<Rightarrow> if sublist (fst pin) s then Inl TypeError else Inl (OtherError ''AttributeError'')
      | _ \<Rightarrow> Inl TypeError)"

section \<open>Commands\<close>

definition inspect_result :: "capability_claims \<Rightarrow> pyval" where
  "inspect_result claims =
     PDict [(''verified'', PBool False), (''issuer'', PStr (iss claims)), (''audience'', PStr (sub claims)),
            (''capabilities'', PList (List.map PStr (capabilities claims))), (''token_id'', PStr (jti claims)),
            (''iat'', PInt (iat claims)), (''exp'', PInt (exp_at claims)), (''delegated'', PBool (truthy (prf_token claims))),
            (''pinned_parameter_names'',
               PList (List.map PStr (sort_key (\<lambda>k. k) (List.map fst (allowed_params (constraints claims))))))]"

definition cli_inspect :: "ext_lib \<Rightarrow> string \<Rightarrow> ('w, outcome) py" where
  "cli_inspect L stdin =
     cli_outcome
       (abind (lift (read_token stdin)) (\<lambda>token.
        abind (lift (parse L token)) (\<lambda>(_, claims, _).
        ret (inspect_result claims))))"

definition verify_result :: pyval where
  "verify_result =
     PDict [(''signature_and_pins_valid'', PBool True), (''usage_reserved'', PBool False), (''revocation_checked'', PBool False),
            (''execution_authorized'', PBool False),
            (''note'', PStr ''Offline diagnostic only; use guard/async_guard at execution'')]"

definition cli_verify ::
  "ext_lib \<Rightarrow> string \<Rightarrow> string \<Rightarrow> string \<Rightarrow> string option option \<Rightarrow> string \<Rightarrow> ('x world_scheme, outcome) py" where
  "cli_verify L public_key_hex aud cap params_file stdin =
     cli_outcome
       (abind (lift (read_token stdin)) (\<lambda>token.
        abind (lift (fromhex public_key_hex)) (\<lambda>key.
        abind (lift (ensure (length key = 32) ValueError)) (\<lambda>_.
        abind (verify L (Some key) None None (Some aud) (PInt 2) token) (\<lambda>claims.
        abind (lift (check_capability claims cap)) (\<lambda>_.
        abind (lift (load_params L params_file)) (\<lambda>params.
        abind (lift (check_any_params claims params)) (\<lambda>_.
        ret verify_result))))))))"

section \<open>The policy diagnostic\<close>

definition load_json_file :: "ext_lib \<Rightarrow> string option \<Rightarrow> pyval result" where
  "load_json_file L content =
     rbind (of_option (OtherError ''OSError'') content) (read_json L)"

definition covered_value :: "grant \<Rightarrow> pyval \<Rightarrow> bool result" where
  \<comment> \<open>\<open>capability_covered\<close> of any value: only a string has \<open>startswith\<close>, asked at the first wildcard entry\<close>
  "covered_value g v =
     (case v of
        PStr s \<Rightarrow> Inr (capability_covered s (grant_capabilities g))
      | _ \<Rightarrow> if list_ex (suffix '':*'') (grant_capabilities g) then Inl (OtherError ''AttributeError'') else Inr False)"

fun all_covered :: "grant \<Rightarrow> pyval list \<Rightarrow> bool result" where
  "all_covered g [] = Inr True"
| "all_covered g (v # vs) = rbind (covered_value g v) (\<lambda>ok. if ok then all_covered g vs else Inr False)"

definition grant_covers :: "grant \<Rightarrow> pyval \<Rightarrow> constraints \<Rightarrow> pyval \<Rightarrow> pyval \<Rightarrow> bool result" where
  \<comment> \<open>\<open>_grant_denies(...) is None\<close> for a request of any values\<close>
  "grant_covers g caps limits ttl_seconds delegate =
     rbind (py_tuple caps) (\<lambda>vs.
     rbind (all_covered g vs) (\<lambda>covered.
     if \<not> covered then Inr False
     else rbind (grant_denies g [] limits ttl_seconds None) (\<lambda>reason.
       Inr (reason = None \<and> (delegate = PNone \<or> list_ex (\<lambda>d. py_eq (PStr d) delegate) (delegates g))))))"

fun some_grant_covers :: "pyval \<Rightarrow> constraints \<Rightarrow> pyval \<Rightarrow> pyval \<Rightarrow> grant list \<Rightarrow> unit result" where
  "some_grant_covers caps limits ttl_seconds delegate [] = Inl (swarm PolicyViolationError)"
| "some_grant_covers caps limits ttl_seconds delegate (g # gs) =
     rbind (grant_covers g caps limits ttl_seconds delegate) (\<lambda>ok.
     if ok then Inr () else some_grant_covers caps limits ttl_seconds delegate gs)"

definition check_request :: "issuer_policy \<Rightarrow> params \<Rightarrow> constraints \<Rightarrow> unit result" where
  \<comment> \<open>\<open>configured.check(**request)\<close>, where the request has its lifetime and its validated constraints\<close>
  "check_request gs request limits =
     rbind (ensure (list_all (\<lambda>k. k \<in> set [''iss'', ''sub'', ''capabilities'', ''constraints'', ''ttl_seconds'', ''dlg'']) (dict_keys request)
              \<and> list_all (\<lambda>k. map_of request k \<noteq> None) [''iss'', ''sub'', ''capabilities'']) TypeError) (\<lambda>_.
     some_grant_covers (dict_get request ''capabilities'') limits (dict_get request ''ttl_seconds'') (dict_get request ''dlg'')
       (filter (\<lambda>g. py_eq (grant_iss g) (dict_get request ''iss'') \<and> py_eq (grant_sub g) (dict_get request ''sub'')) gs))"

definition cli_policy_check :: "ext_lib \<Rightarrow> string option \<Rightarrow> string option \<Rightarrow> ('w, outcome) py" where
  "cli_policy_check L policy_file request_file =
     cli_outcome (lift
       (rbind (load_json_file L policy_file) (\<lambda>policy_json.
        rbind (policy_from_dict policy_json) (\<lambda>gs.
        rbind (load_json_file L request_file) (\<lambda>request_json.
        case request_json of
          PDict d \<Rightarrow>
            (let request = (if map_of d ''ttl_seconds'' = None then AList.update ''ttl_seconds'' (PInt 10) d else d)
             in rbind (require_ttl (dict_get request ''ttl_seconds'')) (\<lambda>_.
                rbind (validate_constraints L
                         (case map_of request ''constraints'' of None \<Rightarrow> PDict [] | Some v \<Rightarrow> v)) (\<lambda>limits.
                rbind (check_request gs request limits) (\<lambda>_.
                Inr (PDict [(''decision'', PStr ''allowed''), (''signed'', PBool False)])))))
        | _ \<Rightarrow> Inl ValueError)))))"

lemma all_covered_strings:
  "all_covered g (List.map PStr caps) = Inr (list_all (\<lambda>c. capability_covered c (grant_capabilities g)) caps)"
  by (induction caps) (simp_all add: covered_value_def)

lemma grant_denies_split:
  "(grant_denies g caps limits (PInt ttl) delegate = Inr None) \<longleftrightarrow>
     list_all (\<lambda>c. capability_covered c (grant_capabilities g)) caps \<and>
     grant_denies g [] limits (PInt ttl) None = Inr None \<and> pred_option (\<lambda>d. d \<in> set (delegates g)) delegate"
proof (cases "find (\<lambda>capability. \<not> capability_covered capability (grant_capabilities g)) caps")
  case None
  then have "list_all (\<lambda>c. capability_covered c (grant_capabilities g)) caps"
    by (simp add: find_None_iff list_all_iff)
  with None show ?thesis
    by (cases delegate) (auto simp: grant_denies_def py_inv split: option.splits if_splits)
next
  case (Some c)
  then have "\<not> list_all (\<lambda>c. capability_covered c (grant_capabilities g)) caps"
    by (auto simp: find_Some_iff list_all_iff)
  with Some show ?thesis by (simp add: grant_denies_def)
qed

lemma grant_covers_typed:
  "grant_covers g (PList (List.map PStr caps)) limits (PInt ttl) (opt_value PStr delegate) =
     Inr (grant_denies g caps limits (PInt ttl) delegate = Inr None)"
proof -
  obtain r where r: "grant_denies g [] limits (PInt ttl) None = Inr r" using grant_denies_total by blast
  have "(opt_value PStr delegate = PNone \<or> list_ex (\<lambda>d. py_eq (PStr d) (opt_value PStr delegate)) (delegates g)) \<longleftrightarrow>
      pred_option (\<lambda>d. d \<in> set (delegates g)) delegate"
    by (cases delegate) (auto simp: opt_value_def list_ex_iff)
  then show ?thesis
    unfolding grant_denies_split [of g caps] using r
    by (simp add: grant_covers_def py_tuple_def all_covered_strings)
qed

text \<open>On a request of the declared types the diagnostic decides as \<open>IssuerPolicy.check\<close> does before signing.\<close>

lemma diagnostic_policy_agrees:
  "some_grant_covers (PList (List.map PStr caps)) limits (PInt ttl) (opt_value PStr delegate) gs =
     try_grants caps limits (PInt ttl) delegate gs"
proof (induction gs)
  case (Cons g gs)
  obtain r where "grant_denies g caps limits (PInt ttl) delegate = Inr r" using grant_denies_total by blast
  with Cons show ?case by (simp add: grant_covers_typed)
qed simp

section \<open>What an exit status of zero means\<close>

lemma cli_outcome_zero: "cli_outcome body w = (Inr (0, v), w') \<longleftrightarrow> body w = (Inr v, w')"
proof -
  have "(case e of
          SwarmAuthError s \<Rightarrow> ret (1, denied_output (code s))
        | ValueError \<Rightarrow> ret (2, denied_output ''INVALID_INPUT'')
        | TypeError \<Rightarrow> ret (2, denied_output ''INVALID_INPUT'')
        | OtherError n \<Rightarrow> if n = ''OSError'' \<or> n = ''KeyError'' then ret (2, denied_output ''INVALID_INPUT'') else raise e
        | _ \<Rightarrow> raise e) u \<noteq> (Inr (0 :: nat, v), w')" for e u
    by (cases e) (simp_all add: py_inv)
  then show ?thesis by (auto simp: cli_outcome_def py_inv)
qed

definition params_hold :: "capability_claims \<Rightarrow> pyval \<Rightarrow> bool" where
  "params_hold claims v \<longleftrightarrow>
     allowed_params (constraints claims) = [] \<or>
     (\<exists>d. v = PDict d \<and> (\<forall>pin \<in> set (allowed_params (constraints claims)). pin_holds d pin))"

lemma check_any_params_iff: "check_any_params claims v = Inr u \<longleftrightarrow> params_hold claims v"
  by (cases v; cases "allowed_params (constraints claims)")
    (auto simp: check_any_params_def params_hold_def check_params_iff)

text \<open>C40. The diagnostic \<open>verify\<close> exits with status 0 exactly for a token that the library's verifier accepts under the
  given key and audience at this instant, whose capabilities cover the given one and whose pinned parameters the file
  satisfies; and what it prints then never says that execution is authorized.\<close>

theorem cli_verify_exact:
  "cli_verify L public_key_hex aud cap params_file stdin w = (Inr (0, v), w') \<longleftrightarrow>
     v = verify_result \<and>
     (\<exists>token key claims params. read_token stdin = Inr token \<and> fromhex public_key_hex = Inr key \<and> length key = 32 \<and>
        accepts L (Some key) None None (Some aud) 2 token claims w w' \<and> grants (capabilities claims) cap \<and>
        load_params L params_file = Inr params \<and> params_hold claims params)"
  by (auto simp: cli_verify_def cli_outcome_zero check_any_params_iff check_capability_iff verify_iff leeway_of_def
      MAX_LEEWAY_SECONDS_def py_inv)

end
