(* ===== verification/Discrepancies.thy ===== *)
theory Discrepancies
  imports Budgets Cli FloatRepr
begin

text \<open>
  Concrete behaviours of the code that differ from what its comments, its types or the specification say, each
  evaluated on the model.
\<close>

text \<open>\<open>SPEC.md\<close> section 8 says the verifier tries every trusted key; section 4 and the code use the one that \<open>kid\<close> names.\<close>

lemma only_kid_is_tried:
  assumes "kid_bytes header = Inr kid" and "keys_for R (iss claims) = Inr trusted" and "kid \<notin> set trusted"
  shows "verify_kid_and_signature L header claims signing_input signature pk (Some R) False = Inl (swarm InvalidSignatureError)"
  using assms by (simp add: verify_kid_and_signature_def)

text \<open>\<open>_validated_amount\<close> promises a constraint violation for every value that is not a finite, non-negative number; an
  integer that no float can hold raises \<open>OverflowError\<close>, which no caller turns into a denial event.\<close>

lemma round_double_overflow:
  assumes "1024 \<le> n"
  shows "round_double (2 powi n) = PosInf"
proof -
  have log: "ilog 2 (2 powi n) = n"
    by (rule ilog_unique) (simp_all add: power_int_add)
  have e: "max (n - 52) (- 1074) = n - 52" using assms by simp
  have "(2 :: rat) powi n / 2 powi (n - 52) = 2 powi 52"
    by (simp flip: power_int_diff)
  also have "\<dots> = of_int (2 ^ 52)" by simp
  finally have m: "round_half_even ((2 :: rat) powi n / 2 powi (n - 52)) = 2 ^ 52" by (simp only: round_half_even_of_int)
  have v: "of_int (2 ^ 52) * (2 :: rat) powi (n - 52) = 2 powi n"
    by (simp add: power_int_diff)
  have "0 < (2 :: rat) powi n" by simp
  then show ?thesis
    unfolding round_double_def Let_def abs_of_pos [OF \<open>0 < 2 powi n\<close>] log e m v using assms by simp
qed

lemma huge_amount_overflows: "validated_amount (PInt (2 ^ 1024)) = Inl OverflowError"
proof -
  have "(2 :: rat) powi 1024 = of_int (2 ^ 1024)" by (simp add: power_int_def)
  with round_double_overflow [of 1024] have "round_double (of_int (2 ^ 1024)) = PosInf" by simp
  then show ?thesis by (simp add: validated_amount_def float_of_int_def)
qed

text \<open>A positional-only parameter can be shadowed by a keyword of the same name collected by \<open>**kwargs\<close>: the checks see
  the keyword's value, the tool's parameter has the positional one.\<close>

definition shadowing_signature :: signature where
  "shadowing_signature =
     [\<lparr>pname = ''amount'', pkind = POSITIONAL_ONLY, pdefault = None\<rparr>,
      \<lparr>pname = ''rest'', pkind = VAR_KEYWORD, pdefault = None\<rparr>]"

lemma positional_only_shadowed:
  "sig_bind shadowing_signature [PInt 900] [(''amount'', PInt 1)] =
     Inr [(''amount'', PInt 900), (''rest'', PDict [(''amount'', PInt 1)])]"
  "bound_call_params shadowing_signature [PInt 900] [(''amount'', PInt 1)] = Inr [(''amount'', PInt 1)]"
  by code_simp+

text \<open>A string where a list is declared is split into its characters: one capability \<open>*\<close> per letter, one trusted issuer per
  letter.\<close>

lemma string_capabilities_split:
  "map_sum (\<lambda>e. e) grant_capabilities
     (make_grant [(''iss'', PStr ''a''), (''sub'', PStr ''t''), (''capabilities'', PStr ''pay'')]) = Inr [''p'', ''a'', ''y'']"
  by code_simp

lemma string_issuers_split:
  "map_sum (\<lambda>e. e) rule_issuers (make_budget_rule (PStr ''b'') (PStr ''ops'') (PStr ''USD'') (PInt 1) (PInt 1) PNone) =
     Inr [''o'', ''p'', ''s'']"
  by code_simp

text \<open>The diagnostic \<open>verify\<close> reports invalid input with status 2, but a parameter file that holds a list makes it end with
  an uncaught \<open>AttributeError\<close> when the token pins a parameter.\<close>

lemma list_parameters_escape:
  assumes "allowed_params (constraints claims) = pin # pins" and "PStr (fst pin) \<notin> set xs"
  shows "cli_outcome (lift (rbind (check_any_params claims (PList xs)) (\<lambda>_. Inr verify_result))) w =
    (Inl (OtherError ''AttributeError''), w)"
  using assms by (cases pin) (simp add: check_any_params_def cli_outcome_def catch_def)

text \<open>Pins are JSON, and \<open>*args\<close> is bound to a tuple, which equals no JSON value: a pin on such a parameter refuses every
  call, also one with exactly the pinned elements.\<close>

lemma variadic_pin_refuses:
  assumes "json_params_valid v"
  shows "\<not> json_value_equal (PTuple xs) v"
  using assms by (auto simp: json_value_equal_iff)

lemma variadic_pin_example:
  "bound_call_params [\<lparr>pname = ''to'', pkind = VAR_POSITIONAL, pdefault = None\<rparr>] [PStr ''a''] [] =
     Inr [(''to'', PTuple [PStr ''a''])]"
  "\<not> pin_holds [(''to'', PTuple [PStr ''a''])] (''to'', PList [PStr ''a''])"
  by code_simp+

end
