(* ===== verification/Spec2Isabelle.thy ===== *)
theory Spec2Isabelle
  imports Deployment Budgets RedisUsage RedisBudgets RedisRevocation RedisApprovals Asyncio Transport Adapters Events Cli Discrepancies
begin

text \<open>
  SwarmAuth (src/swarmauth, Python) issues and verifies short-lived capability tokens signed with Ed25519, and puts an
  execution boundary in front of tools: a call runs only under a token that names the tool, covers the action, pins the
  parameters, is not revoked and has allowance left.

  \<^bold>\<open>Parts, theories and their source.\<close> The theories follow the code bottom up.
  \<^item> \<open>Prelude\<close> fixes the reading of Python: results \<open>error + value\<close>, actions that change a world and may raise, dictionaries
    as association lists, and the inversion lemmas (collection \<open>py_inv\<close>) that carry most proofs. \<open>Runtime\<close> has the
    exceptions (exceptions.py), the limits (limits.py), the clock and the randomness.
  \<^item> \<open>PyFloat\<close>, \<open>PyValue\<close>, \<open>PyJson\<close>, \<open>FloatRepr\<close>, \<open>JsonRoundTrip\<close>: the part of Python's floats, decimals, equality and
    \<open>json\<close> module the code relies on, written out, with the round trip of the canonical encoding.
  \<^item> \<open>Crypto\<close> (crypto.py), \<open>Claims\<close> and \<open>Token\<close> (token.py): base64url, keys, the data models with their validators,
    signing, parsing, verification, delegation. \<open>accepts\<close> is the specification of \<open>verify\<close>, \<open>narrower\<close> that of attenuation.
    \<open>TokenRoundTrip\<close> joins both sides: issued and attenuated tokens verify, and delegation never widens.
  \<^item> \<open>Registry\<close> (registry.py): the trust store; one contract, the locale \<open>key_store\<close>, for root keys and for holder keys.
    \<open>Revocation\<close> (revocation.py): the protocol as the locale \<open>revocation_store\<close> and the in-memory store as its instance.
  \<^item> \<open>Policy\<close> (policy.py and \<open>TokenIssuer\<close> of middleware.py): grants, their loading, the decision, issuing and attenuating.
  \<^item> \<open>Usage\<close> (\<open>UsageTracker\<close> of middleware.py): the tracker refines a ledger of accepted reservations (locale
    \<open>usage_backend\<close>). \<open>Budgets\<close> and \<open>Decimals\<close> (budgets.py): shared budgets, a second instance of that locale.
  \<^item> \<open>Middleware\<close> (middleware.py): binding a call to a signature, \<open>verify_and_check\<close>, \<open>guard\<close>, \<open>use_token\<close>. \<open>admits\<close> is the
    specification of a guarded call. \<open>Adapters\<close>: the framework adapters of the same file. \<open>Deployment\<close>: a whole process,
    many guards on one tracker and one revocation store, as a step relation.
  \<^item> \<open>Asyncio\<close> (asyncio.py, \<open>AsyncUsageTracker\<close>): the awaited boundary. \<open>Transport\<close> (transport.py): credentials of HTTP requests.
    \<open>Events\<close> (events.py): the decision log. \<open>Approvals\<close> (approvals.py): approvals, their stores and service.
    \<open>Cli\<close> (cli.py): the offline diagnostics.
  \<^item> \<open>Redis\<close>: programs of several connections, interleaved at every command and every reading of the clock, over a server given
    by the documented promises of its commands (\<open>redis_ok\<close>); the locale \<open>optimistic\<close> proves once what WATCH, MULTI and
    EXEC buy. Its instances are \<open>RedisUsage\<close> and \<open>RedisRevocation\<close> (backends/redis_backend.py), \<open>RedisBudgets\<close>
    (budgets.py) and \<open>RedisApprovals\<close> (approvals.py); \<open>RedisLedger\<close> is what the two ledgers share.
  \<^item> \<open>Samples\<close> holds the concrete arguments of the witnesses, \<open>Discrepancies\<close> concrete behaviours that differ from a comment,
    a type or the specification text.

  \<^bold>\<open>State and operations.\<close> An object's state is a record field of the world it lives in (\<open>revoked\<close>, \<open>usage\<close>, \<open>entries\<close>,
  \<open>approvals\<close>), a method is a function of that state and the time, and the method as the caller sees it (\<open>memory_revoke\<close>,
  \<open>tracker_record_chain\<close>, \<open>budget_record_chain\<close>) is an action that reads the clock first, as the code does. Collaborators of the
  boundary (tracker, store, callback, stream, application) are records or functions of actions, so the boundary's theorems
  hold for any of them. A method that runs under a lock is one step.

  \<^bold>\<open>What the lemmas show.\<close> Equivalence of verifier, guard, policy, approval service and asynchronous guard with their
  specifications; the errors verification can raise; refinement of the ledgers by the in-memory tracker, the shared budgets and, under every
  interleaving, the Redis trackers, hence that no allowance is overspent and each call is charged once; finality of revocation, in memory and in Redis;
  single use of approvals; round trips of base64url, JSON, tokens, approval records and the decision log; loaded
  configurations are well formed; Redis consumption ends.

  \<^bold>\<open>Bounds.\<close> \<open>budget_attempts\<close> runs \<open>max_retries\<close> times and \<open>consume_attempts\<close> 64 times, as in the code. The usage and
  revocation backends retry without bound in the code; their fuel is arbitrary, the safety theorems hold for every fuel, and a
  call without conflicts returns at the first attempt with any fuel above zero. All other loops are structural or have
  a termination proof.

  \<^bold>\<open>Parameters.\<close> Ed25519, pydantic's strict coercions, UTF-8 decoding and the texts too deeply nested for the interpreter's
  recursion limit (\<open>too_deep\<close>) are \<open>ext_lib\<close>, with \<open>ed25519_ok\<close>, \<open>pydantic_ok\<close> and
  \<open>text_ok\<close> for their documented behaviour; SHA-256 is a function that has no collision among the values in use; the Redis
  server is \<open>redis_ok\<close>; PEM texts, the frameworks' tool classes and their request objects are functions.

  \<^bold>\<open>Not modelled.\<close> The sign of a floating zero; characters from 256 on in a string; the rounding of clock
  arithmetic (instants are exact rationals); exception messages; the recursion limit outside \<open>json.loads\<close> of tokens and of
  the diagnostics' files, where its \<open>RecursionError\<close> is modelled (the validators, the encoder, \<open>json_value_equal\<close> and the
  records the library itself wrote to Redis are read without it; where \<open>parse\<close> refuses claims whose validation recurses too
  deeply as malformed, the model reads them); the identity shortcut of \<open>==\<close> on a NaN inside a tuple; threads inside one method; a Redis server with a clock
  different from its clients' or counters beyond 64 bits; the absence of the redis package; the parsing of command lines
  and the text layout of what the diagnostics print. The Go, JavaScript and TypeScript ports are separate programs; scripts,
  examples, benchmarks, tests and documentation have no logic of the library.
\<close>

text \<open>C10. An issuer with a policy signs only what one grant permits: if \<open>TokenIssuer.issue\<close> returns a
  token, some grant of its policy permits exactly the requested issuer, audience, capabilities,
  constraints, lifetime and delegate.\<close>

theorem issuer_within_policy:
  assumes "policy I = Some gs"
    and "issuer_issue L I issuer subject caps limits ttl_seconds delegate w = (Inr token, w')"
  shows "\<exists>g \<in> set gs. \<exists>ttl. ttl_seconds = PInt ttl \<and> 1 \<le> ttl \<and> ttl \<le> MAX_TTL_SECONDS \<and>
     permits g issuer subject caps (resolve_constraints limits) ttl delegate"
proof -
  from assms have check: "policy_check gs issuer subject caps (resolve_constraints limits) ttl_seconds delegate = Inr ()"
    and issued: "issue_token L (keypair I) issuer subject caps (Some (resolve_constraints limits)) ttl_seconds delegate w = (Inr token, w')"
    by (auto simp: issuer_issue_def issuer_check_def py_inv)
  from issued obtain ttl where ttl: "ttl_seconds = PInt ttl" "1 \<le> ttl" "ttl \<le> MAX_TTL_SECONDS"
    by (rule issue_token_run)
  with check show ?thesis by (auto simp: policy_check_decides split: if_splits)
qed

definition sample_grant :: grant where
  "sample_grant = \<lparr>grant_iss = PStr ''a'', grant_sub = PStr ''t'', grant_capabilities = [''read:*''], grant_max_ttl = 15,
     grant_max_calls = None, grant_max_amount = None, grant_rate_limit = None, delegates = [], pinned_params = []\<rparr>"

theorem issuer_within_policy_witness:
  "permits sample_grant ''a'' ''t'' [''read:*''] no_constraints 10 None \<and>
   (\<exists>token w'. issuer_issue sample_lib \<lparr>keypair = key_pair_of sample_lib ''sk'', policy = Some [sample_grant]\<rparr>
      ''a'' ''t'' [''read:*''] None (PInt 10) None (sample_world 100) = (Inr token, w'))"
proof -
  have "policy_check [sample_grant] ''a'' ''t'' [''read:*''] no_constraints (PInt 10) None = Inr ()"
    by code_simp
  with sample_issued [of None]
  have run: "\<exists>token w'. issuer_issue sample_lib \<lparr>keypair = key_pair_of sample_lib ''sk'', policy = Some [sample_grant]\<rparr>
      ''a'' ''t'' [''read:*''] None (PInt 10) None (sample_world 100) = (Inr token, w')"
    by (auto simp: issuer_issue_def issuer_check_def issue_token_def resolve_constraints_def)
  then obtain token w' where run: "issuer_issue sample_lib \<lparr>keypair = key_pair_of sample_lib ''sk'', policy = Some [sample_grant]\<rparr>
      ''a'' ''t'' [''read:*''] None (PInt 10) None (sample_world 100) = (Inr token, w')"
    by blast
  with issuer_within_policy [OF _ run] show ?thesis by auto
qed

end
